(* ===== verification/Ml_Prelude.thy ===== *)
theory Ml_Prelude
  imports Main "HOL-Library.Word" "HOL-Library.Monad_Syntax"
begin

text \<open>
  Shared vocabulary of the development: the machine types of the tool's C code, the
  small reading and writing operations on an explicit node store, and the generic
  lemmas on strictly sorted association lists that the block index is specified by.
\<close>

unbundle bit_operations_syntax

type_synonym Addr = "64 word"
type_synonym SizeT = "64 word"
type_synonym HWord = "64 word"
type_synonym ULong = "64 word"
type_synonym UChar = "8 word"

text \<open>A C pointer to an object of the tool's own heap: \<open>None\<close> is \<open>NULL\<close>.\<close>

type_synonym ptr = "nat option"

named_theorems heap_simps \<open>reading and writing of the explicit node store\<close>

section \<open>Strictly sorted association lists\<close>

text \<open>
  The abstract value of an ordered index is a list of entries with strictly increasing
  keys. \<open>ins_entry\<close> adds an entry unless its key is there, \<open>del_entry\<close> drops the entry
  of a key, and \<open>leq_entry\<close> is the entry with the largest key not above a given one.
\<close>

abbreviation skeys :: "('k::linorder \<times> 'd) list \<Rightarrow> bool" where
  "skeys es \<equiv> sorted_wrt (<) (map fst es)"

fun ins_entry :: "'k::linorder \<Rightarrow> 'd \<Rightarrow> ('k \<times> 'd) list \<Rightarrow> ('k \<times> 'd) list" where
  "ins_entry k d [] = [(k, d)]"
| "ins_entry k d ((k', d') # es) =
     (if k < k' then (k, d) # (k', d') # es
      else if k' < k then (k', d') # ins_entry k d es
      else (k', d') # es)"

definition del_entry :: "'k \<Rightarrow> ('k \<times> 'd) list \<Rightarrow> ('k \<times> 'd) list" where
  "del_entry k es = filter (\<lambda>e. fst e \<noteq> k) es"

fun leq_entry :: "'k::linorder \<Rightarrow> ('k \<times> 'd) list \<Rightarrow> ('k \<times> 'd) option" where
  "leq_entry k [] = None"
| "leq_entry k (e # es) =
     (if fst e \<le> k then (case leq_entry k es of None \<Rightarrow> Some e | Some e' \<Rightarrow> Some e')
      else None)"

lemma skeys_append:
  "skeys (xs @ ys) \<longleftrightarrow> skeys xs \<and> skeys ys \<and> (\<forall>x\<in>set xs. \<forall>y\<in>set ys. fst x < fst y)"
  by (auto simp: sorted_wrt_append)

lemma ins_entry_append_right:
  "skeys (xs @ (k', d') # ys) \<Longrightarrow> k' < k \<Longrightarrow>
   ins_entry k d (xs @ (k', d') # ys) = xs @ (k', d') # ins_entry k d ys"
  by (induction xs) (auto simp: sorted_wrt_append)

lemma ins_entry_append_left:
  "k < k' \<Longrightarrow> ins_entry k d (xs @ (k', d') # ys) = ins_entry k d xs @ (k', d') # ys"
  by (induction xs) auto

lemma ins_entry_same:
  "skeys (xs @ (k, d') # ys) \<Longrightarrow> ins_entry k d (xs @ (k, d') # ys) = xs @ (k, d') # ys"
  by (induction xs) (auto simp: sorted_wrt_append)

lemma set_ins_entry:
  "skeys es \<Longrightarrow>
   set (ins_entry k d es) = (if k \<in> fst ` set es then set es else insert (k, d) (set es))"
  by (induction es) (auto split: if_splits)

lemma skeys_ins_entry: "skeys es \<Longrightarrow> skeys (ins_entry k d es)"
  by (induction es) (fastforce simp: set_ins_entry split: if_splits)+

lemma map_of_ins_entry:
  "skeys es \<Longrightarrow>
   map_of (ins_entry k d es) k' =
     (if k' = k \<and> map_of es k = None then Some d else map_of es k')"
proof (induction es)
  case Nil
  then show ?case by simp
next
  case (Cons e es)
  obtain a b where e: "e = (a, b)" by (cases e)
  have "k < a \<Longrightarrow> map_of es k = None"
    using Cons.prems e by (fastforce simp: map_of_eq_None_iff)
  with Cons e show ?case by auto
qed

lemma del_entry_append [simp]: "del_entry k (xs @ ys) = del_entry k xs @ del_entry k ys"
  by (simp add: del_entry_def)

lemma del_entry_Cons [simp]:
  "del_entry k (e # es) = (if fst e = k then del_entry k es else e # del_entry k es)"
  by (simp add: del_entry_def)

lemma del_entry_Nil [simp]: "del_entry k [] = []"
  by (simp add: del_entry_def)

lemma del_entry_absent: "k \<notin> fst ` set es \<Longrightarrow> del_entry k es = es"
  by (induction es) auto

lemma skeys_del_entry: "skeys es \<Longrightarrow> skeys (del_entry k es)"
  by (induction es) (auto simp: del_entry_def)

lemma map_of_del_entry: "map_of (del_entry k es) = (map_of es)(k := None)"
  by (induction es) auto

lemma set_del_entry: "set (del_entry k es) = {e \<in> set es. fst e \<noteq> k}"
  by (simp add: del_entry_def)

lemma leq_entry_append_right:
  "skeys (xs @ (k', d') # ys) \<Longrightarrow> k' \<le> k \<Longrightarrow>
   leq_entry k (xs @ (k', d') # ys) = leq_entry k ((k', d') # ys)"
  by (induction xs) (auto simp: sorted_wrt_append split: option.splits)

lemma leq_entry_append_left:
  "k < k' \<Longrightarrow> leq_entry k (xs @ (k', d') # ys) = leq_entry k xs"
  by (induction xs) (auto split: option.splits)

lemma leq_entry_Some:
  "skeys es \<Longrightarrow>
   leq_entry k es = Some e \<longleftrightarrow>
     e \<in> set es \<and> fst e \<le> k \<and> (\<forall>e'\<in>set es. fst e' \<le> k \<longrightarrow> fst e' \<le> fst e)"
proof (induction es arbitrary: e)
  case Nil
  then show ?case by simp
next
  case (Cons a es)
  show ?case
  proof (cases "leq_entry k es")
    case None
    then have "\<forall>e'\<in>set es. \<not> fst e' \<le> k"
      using Cons by (cases es) (auto split: if_splits option.splits)
    with None Cons.prems show ?thesis by (auto split: if_splits)
  next
    case (Some b)
    have "skeys es" using Cons.prems by simp
    from Cons.IH [OF this, of b] Some
    have b: "b \<in> set es" "fst b \<le> k" "\<forall>e'\<in>set es. fst e' \<le> k \<longrightarrow> fst e' \<le> fst b"
      by simp_all
    with Cons.prems have "fst a \<le> k" "fst a < fst b" by auto
    moreover have "leq_entry k es = Some e \<longleftrightarrow>
        e \<in> set es \<and> fst e \<le> k \<and> (\<forall>e'\<in>set es. fst e' \<le> k \<longrightarrow> fst e' \<le> fst e)"
      using Cons by simp
    ultimately show ?thesis using Some b(1,2) by fastforce
  qed
qed

lemma leq_entry_None: "skeys es \<Longrightarrow> leq_entry k es = None \<longleftrightarrow> (\<forall>e\<in>set es. k < fst e)"
  by (induction es) (auto split: option.splits)

section \<open>Words\<close>

lemma sint_of_nat_small: "n < 2 ^ 31 \<Longrightarrow> sint (of_nat n :: 32 word) = int n"
  by (simp add: signed_of_nat signed_take_bit_int_eq_self)

section \<open>Simulations and runs\<close>

text \<open>
  A run of a partial step function over a list of operations; \<open>None\<close> is a fault.
  \<open>run_ok\<close> says that a side condition on the operation holds in every state the run
  reaches before a fault.
\<close>

fun run_ops :: "('s \<Rightarrow> 'o \<Rightarrow> 's option) \<Rightarrow> 's \<Rightarrow> 'o list \<Rightarrow> 's option" where
  "run_ops f s [] = Some s"
| "run_ops f s (x # xs) = (case f s x of None \<Rightarrow> None | Some s' \<Rightarrow> run_ops f s' xs)"

fun run_ok :: "('s \<Rightarrow> 'o \<Rightarrow> 's option) \<Rightarrow> ('s \<Rightarrow> 'o \<Rightarrow> bool) \<Rightarrow> 's \<Rightarrow> 'o list \<Rightarrow> bool" where
  "run_ok f ok s [] = True"
| "run_ok f ok s (x # xs) \<longleftrightarrow>
     ok s x \<and> (case f s x of None \<Rightarrow> True | Some s' \<Rightarrow> run_ok f ok s' xs)"

text \<open>
  A concrete step function simulates an abstract one: from related states, an admissible
  operation does not fault and leads to related states.
\<close>

locale simulation =
  fixes step :: "'s \<Rightarrow> 'o \<Rightarrow> 's option"
    and spec :: "'a \<Rightarrow> 'o \<Rightarrow> 'a"
    and rel :: "'s \<Rightarrow> 'a \<Rightarrow> bool"
    and ok :: "'s \<Rightarrow> 'o \<Rightarrow> bool"
  assumes step_sim: "rel s a \<Longrightarrow> ok s x \<Longrightarrow> \<exists>s'. step s x = Some s' \<and> rel s' (spec a x)"
begin

lemma run_sim:
  "rel s a \<Longrightarrow> run_ok step ok s xs \<Longrightarrow>
   \<exists>s'. run_ops step s xs = Some s' \<and> rel s' (foldl spec a xs)"
proof (induction xs arbitrary: s a)
  case (Cons x xs)
  then obtain s' where "step s x = Some s'" "rel s' (spec a x)"
    using step_sim by fastforce
  with Cons show ?case by fastforce
qed simp

end

end
