(* ===== verification/Rb_Heap.thy ===== *)
theory Rb_Heap
  imports Ml_Prelude
begin

text \<open>
  The red-black tree of \<^verbatim>\<open>memlog/rbtree.c\<close> and \<^verbatim>\<open>memlog/rbtree.h\<close>, statement by
  statement on an explicit node store. A node is a record, the store maps node
  addresses to nodes, and \<open>root\<close> is the field of \<^verbatim>\<open>rb_root_t\<close>. Every operation returns
  \<open>None\<close> when the C code would dereference \<open>NULL\<close> or a node that is not allocated, or
  when a loop does not end; that neither happens on a well-formed tree is proved in
  the theories that follow.
\<close>

section \<open>Nodes, roots and the store\<close>

datatype rb_color = RED | BLACK

record 'd rb_node =
  n_parent :: ptr
  n_left :: ptr
  n_right :: ptr
  n_color :: rb_color
  n_key :: "64 word"
  n_data :: 'd

record 'd rb_store =
  nodes :: "nat \<rightharpoonup> 'd rb_node"
  root :: ptr

definition RB_ROOT :: "'d rb_store" where
  "RB_ROOT = \<lparr>nodes = Map.empty, root = None\<rparr>"

definition deref :: "'d rb_store \<Rightarrow> ptr \<Rightarrow> 'd rb_node option" where
  "deref s p = (case p of None \<Rightarrow> None | Some a \<Rightarrow> nodes s a)"

definition wr :: "'d rb_store \<Rightarrow> ptr \<Rightarrow> ('d rb_node \<Rightarrow> 'd rb_node) \<Rightarrow> 'd rb_store option" where
  "wr s p f = (case p of None \<Rightarrow> None | Some a \<Rightarrow>
     (case nodes s a of None \<Rightarrow> None
      | Some n \<Rightarrow> Some (s\<lparr>nodes := (nodes s)(a \<mapsto> f n)\<rparr>)))"

abbreviation set_parent :: "'d rb_store \<Rightarrow> ptr \<Rightarrow> ptr \<Rightarrow> 'd rb_store option" where
  "set_parent s p v \<equiv> wr s p (n_parent_update (\<lambda>_. v))"

abbreviation set_left :: "'d rb_store \<Rightarrow> ptr \<Rightarrow> ptr \<Rightarrow> 'd rb_store option" where
  "set_left s p v \<equiv> wr s p (n_left_update (\<lambda>_. v))"

abbreviation set_right :: "'d rb_store \<Rightarrow> ptr \<Rightarrow> ptr \<Rightarrow> 'd rb_store option" where
  "set_right s p v \<equiv> wr s p (n_right_update (\<lambda>_. v))"

abbreviation set_color :: "'d rb_store \<Rightarrow> ptr \<Rightarrow> rb_color \<Rightarrow> 'd rb_store option" where
  "set_color s p c \<equiv> wr s p (n_color_update (\<lambda>_. c))"

section \<open>Relatives and rotations\<close>

definition rb_grandparent :: "'d rb_store \<Rightarrow> ptr \<Rightarrow> ptr option" where
  "rb_grandparent s n = do {
     nn \<leftarrow> deref s n;
     if n_parent nn \<noteq> None then do {
       pn \<leftarrow> deref s (n_parent nn);
       Some (n_parent pn)
     } else Some None
   }"

definition rb_uncle :: "'d rb_store \<Rightarrow> ptr \<Rightarrow> ptr option" where
  "rb_uncle s n = do {
     g \<leftarrow> rb_grandparent s n;
     if g = None then Some None
     else do {
       nn \<leftarrow> deref s n;
       gn \<leftarrow> deref s g;
       Some (if n_parent nn = n_left gn then n_right gn else n_left gn)
     }
   }"

definition rb_rotate_left :: "'d rb_store \<Rightarrow> ptr \<Rightarrow> 'd rb_store option" where
  "rb_rotate_left s n = do {
     nn \<leftarrow> deref s n;
     let r = n_right nn;
     let p = n_parent nn;
     rn \<leftarrow> deref s r;
     s \<leftarrow> set_right s n (n_left rn);
     s \<leftarrow> (if n_left rn \<noteq> None then set_parent s (n_left rn) n else Some s);
     s \<leftarrow> set_left s r n;
     s \<leftarrow> set_parent s n r;
     s \<leftarrow> set_parent s r p;
     if p = None then Some (s\<lparr>root := r\<rparr>)
     else do {
       pn \<leftarrow> deref s p;
       if n_left pn = n then set_left s p r else set_right s p r
     }
   }"

definition rb_rotate_right :: "'d rb_store \<Rightarrow> ptr \<Rightarrow> 'd rb_store option" where
  "rb_rotate_right s n = do {
     nn \<leftarrow> deref s n;
     let l = n_left nn;
     let p = n_parent nn;
     ln \<leftarrow> deref s l;
     s \<leftarrow> set_left s n (n_right ln);
     s \<leftarrow> (if n_right ln \<noteq> None then set_parent s (n_right ln) n else Some s);
     s \<leftarrow> set_right s l n;
     s \<leftarrow> set_parent s n l;
     s \<leftarrow> set_parent s l p;
     if p = None then Some (s\<lparr>root := l\<rparr>)
     else do {
       pn \<leftarrow> deref s p;
       if n_left pn = n then set_left s p l else set_right s p l
     }
   }"

section \<open>Linking and the insertion fix-up\<close>

text \<open>
  The C code passes the address of the pointer field that will hold the new node
  (\<^verbatim>\<open>rb_node_t **linkp\<close>): the root field, or a child field of a node.
\<close>

datatype rb_link = RootLink | LeftLink ptr | RightLink ptr

definition get_link :: "'d rb_store \<Rightarrow> rb_link \<Rightarrow> ptr option" where
  "get_link s l = (case l of
     RootLink \<Rightarrow> Some (root s)
   | LeftLink p \<Rightarrow> map_option n_left (deref s p)
   | RightLink p \<Rightarrow> map_option n_right (deref s p))"

definition set_link :: "'d rb_store \<Rightarrow> rb_link \<Rightarrow> ptr \<Rightarrow> 'd rb_store option" where
  "set_link s l v = (case l of
     RootLink \<Rightarrow> Some (s\<lparr>root := v\<rparr>)
   | LeftLink p \<Rightarrow> set_left s p v
   | RightLink p \<Rightarrow> set_right s p v)"

definition rb_link_node :: "'d rb_store \<Rightarrow> ptr \<Rightarrow> ptr \<Rightarrow> rb_link \<Rightarrow> 'd rb_store option" where
  "rb_link_node s node par linkp = do {
     s \<leftarrow> set_parent s node par;
     s \<leftarrow> set_right s node None;
     s \<leftarrow> set_left s node None;
     set_link s linkp node
   }"

text \<open>One iteration of the loop of \<^verbatim>\<open>rb_insert_color\<close>, its guard and the loop itself.\<close>

definition rb_insert_guard :: "'d rb_store \<Rightarrow> ptr \<Rightarrow> bool option" where
  "rb_insert_guard s n =
     (if n = root s then Some False
      else do {
        nn \<leftarrow> deref s n;
        pn \<leftarrow> deref s (n_parent nn);
        Some (n_color pn = RED)
      })"

text \<open>\<^verbatim>\<open>p && p->color == RED\<close> and \<^verbatim>\<open>!p || p->color == BLACK\<close>\<close>

definition is_red :: "'d rb_store \<Rightarrow> ptr \<Rightarrow> bool option" where
  "is_red s p =
     (if p \<noteq> None then map_option (\<lambda>n. n_color n = RED) (deref s p) else Some False)"

definition nil_or_black :: "'d rb_store \<Rightarrow> ptr \<Rightarrow> bool option" where
  "nil_or_black s p =
     (if p = None then Some True else map_option (\<lambda>n. n_color n = BLACK) (deref s p))"

text \<open>Case 3 of the fix-up (recolour, rotate the grandparent) and its mirror image.\<close>

definition rb_insert_case3_left :: "'d rb_store \<Rightarrow> ptr \<Rightarrow> ptr \<Rightarrow> 'd rb_store option" where
  "rb_insert_case3_left s n g = do {
     nn \<leftarrow> deref s n;
     s \<leftarrow> set_color s (n_parent nn) BLACK;
     s \<leftarrow> set_color s g RED;
     rb_rotate_right s g
   }"

definition rb_insert_case3_right :: "'d rb_store \<Rightarrow> ptr \<Rightarrow> ptr \<Rightarrow> 'd rb_store option" where
  "rb_insert_case3_right s n g = do {
     nn \<leftarrow> deref s n;
     s \<leftarrow> set_color s (n_parent nn) BLACK;
     s \<leftarrow> set_color s g RED;
     rb_rotate_left s g
   }"

definition rb_insert_step :: "'d rb_store \<Rightarrow> ptr \<Rightarrow> ('d rb_store \<times> ptr) option" where
  "rb_insert_step s n = do {
     u \<leftarrow> rb_uncle s n;
     g \<leftarrow> rb_grandparent s n;
     nn \<leftarrow> deref s n;
     ured \<leftarrow> is_red s u;
     if ured then do {
       s \<leftarrow> set_color s (n_parent nn) BLACK;
       s \<leftarrow> set_color s u BLACK;
       s \<leftarrow> set_color s g RED;
       Some (s, g)
     } else do {
       gn \<leftarrow> deref s g;
       if n_parent nn = n_left gn then do {
         pn \<leftarrow> deref s (n_parent nn);
         (s, n) \<leftarrow> (if n = n_right pn then do {
             s \<leftarrow> rb_rotate_left s (n_parent nn);
             Some (s, n_parent nn)
           } else Some (s, n));
         s \<leftarrow> rb_insert_case3_left s n g;
         Some (s, n)
       } else do {
         pn \<leftarrow> deref s (n_parent nn);
         (s, n) \<leftarrow> (if n = n_left pn then do {
             s \<leftarrow> rb_rotate_right s (n_parent nn);
             Some (s, n_parent nn)
           } else Some (s, n));
         s \<leftarrow> rb_insert_case3_right s n g;
         Some (s, n)
       }
     }
   }"

partial_function (option) rb_insert_loop :: "'d rb_store \<Rightarrow> ptr \<Rightarrow> 'd rb_store option" where
  "rb_insert_loop s n = do {
     b \<leftarrow> rb_insert_guard s n;
     if b then do {
       (s', n') \<leftarrow> rb_insert_step s n;
       rb_insert_loop s' n'
     } else Some s
   }"

definition rb_insert_color :: "'d rb_store \<Rightarrow> ptr \<Rightarrow> 'd rb_store option" where
  "rb_insert_color s n = do {
     s \<leftarrow> rb_insert_loop s n;
     set_color s (root s) BLACK
   }"

section \<open>Searching\<close>

partial_function (option) rb_search_leq_loop ::
  "'d rb_store \<Rightarrow> ptr \<Rightarrow> ptr \<Rightarrow> 64 word \<Rightarrow> ptr option" where
  "rb_search_leq_loop s node best k =
     (if node = None then Some best
      else do {
        nn \<leftarrow> deref s node;
        if n_key nn \<le> k then rb_search_leq_loop s (n_right nn) node k
        else rb_search_leq_loop s (n_left nn) best k
      })"

definition rb_search_leq :: "'d rb_store \<Rightarrow> 64 word \<Rightarrow> ptr option" where
  "rb_search_leq s k = rb_search_leq_loop s (root s) None k"

partial_function (option) rb_search_loop :: "'d rb_store \<Rightarrow> ptr \<Rightarrow> 64 word \<Rightarrow> ptr option" where
  "rb_search_loop s node k =
     (if node = None then Some None
      else do {
        nn \<leftarrow> deref s node;
        if n_key nn = k then Some node
        else if k < n_key nn then rb_search_loop s (n_left nn) k
        else rb_search_loop s (n_right nn) k
      })"

definition rb_search :: "'d rb_store \<Rightarrow> 64 word \<Rightarrow> ptr option" where
  "rb_search s k = rb_search_loop s (root s) k"

partial_function (option) rb_min_loop :: "'d rb_store \<Rightarrow> ptr \<Rightarrow> ptr option" where
  "rb_min_loop s node = do {
     nn \<leftarrow> deref s node;
     if n_left nn \<noteq> None then rb_min_loop s (n_left nn) else Some node
   }"

definition rb_min :: "'d rb_store \<Rightarrow> ptr \<Rightarrow> ptr option" where
  "rb_min s node = (if node = None then Some None else rb_min_loop s node)"

section \<open>Deletion\<close>

definition rb_transplant :: "'d rb_store \<Rightarrow> ptr \<Rightarrow> ptr \<Rightarrow> 'd rb_store option" where
  "rb_transplant s u v = do {
     un \<leftarrow> deref s u;
     s \<leftarrow> (if n_parent un = None then Some (s\<lparr>root := v\<rparr>)
           else do {
             pn \<leftarrow> deref s (n_parent un);
             if u = n_left pn then set_left s (n_parent un) v
             else set_right s (n_parent un) v
           });
     if v \<noteq> None then do {
       un \<leftarrow> deref s u;
       set_parent s v (n_parent un)
     } else Some s
   }"

definition paint_if :: "'d rb_store \<Rightarrow> ptr \<Rightarrow> rb_color \<Rightarrow> 'd rb_store option" where
  "paint_if s p c = (if p \<noteq> None then set_color s p c else Some s)"

text \<open>
  One iteration of the loop of \<^verbatim>\<open>rb_delete_fixup\<close>, for \<open>x\<close> the left and for \<open>x\<close> the right
  child of \<open>par\<close>. The steps of an iteration are named: the sibling is red (\<open>sib\<close>), its
  child far from \<open>x\<close> is black (\<open>near\<close>), the final recolouring and rotation (\<open>far\<close>),
  and the choice between moving up and rotating (\<open>rest\<close>). The
  flag of the result says that the iteration left the loop by \<^verbatim>\<open>break\<close>; then come the
  store, \<open>x\<close> and its parent for the next round.
\<close>

definition rb_fixup_sib_left :: "'d rb_store \<Rightarrow> ptr \<Rightarrow> ptr \<Rightarrow> ('d rb_store \<times> ptr) option" where
  "rb_fixup_sib_left s par w = do {
     wn \<leftarrow> deref s w;
     if n_color wn = RED then do {
       s \<leftarrow> set_color s w BLACK;
       s \<leftarrow> set_color s par RED;
       s \<leftarrow> rb_rotate_left s par;
       pn \<leftarrow> deref s par;
       Some (s, n_right pn)
     } else Some (s, w)
   }"

definition rb_fixup_near_left :: "'d rb_store \<Rightarrow> ptr \<Rightarrow> ptr \<Rightarrow> ('d rb_store \<times> ptr) option" where
  "rb_fixup_near_left s par w = do {
     wn \<leftarrow> deref s w;
     rb \<leftarrow> nil_or_black s (n_right wn);
     if rb then do {
       s \<leftarrow> paint_if s (n_left wn) BLACK;
       s \<leftarrow> set_color s w RED;
       s \<leftarrow> rb_rotate_right s w;
       pn \<leftarrow> deref s par;
       Some (s, n_right pn)
     } else Some (s, w)
   }"

definition rb_fixup_far_left :: "'d rb_store \<Rightarrow> ptr \<Rightarrow> ptr \<Rightarrow> 'd rb_store option" where
  "rb_fixup_far_left s par w = do {
     pn \<leftarrow> deref s par;
     s \<leftarrow> set_color s w (n_color pn);
     s \<leftarrow> set_color s par BLACK;
     wn \<leftarrow> deref s w;
     s \<leftarrow> paint_if s (n_right wn) BLACK;
     rb_rotate_left s par
   }"

definition rb_fixup_rest_left ::
  "'d rb_store \<Rightarrow> ptr \<Rightarrow> ptr \<Rightarrow> ('d rb_store \<times> ptr \<times> ptr) option" where
  "rb_fixup_rest_left s par w = do {
     wn \<leftarrow> deref s w;
     lb \<leftarrow> nil_or_black s (n_left wn);
     both \<leftarrow> (if lb then nil_or_black s (n_right wn) else Some False);
     if both then do {
       s \<leftarrow> set_color s w RED;
       pn \<leftarrow> deref s par;
       Some (s, par, n_parent pn)
     } else do {
       (s, w) \<leftarrow> rb_fixup_near_left s par w;
       s \<leftarrow> rb_fixup_far_left s par w;
       Some (s, root s, None)
     }
   }"

definition rb_fixup_left ::
  "'d rb_store \<Rightarrow> ptr \<Rightarrow> ptr \<Rightarrow> (bool \<times> 'd rb_store \<times> ptr \<times> ptr) option" where
  "rb_fixup_left s x par = do {
     pn \<leftarrow> deref s par;
     if n_right pn = None then Some (True, s, x, par)
     else do {
       (s, w) \<leftarrow> rb_fixup_sib_left s par (n_right pn);
       (s, x, par) \<leftarrow> rb_fixup_rest_left s par w;
       Some (False, s, x, par)
     }
   }"

definition rb_fixup_sib_right :: "'d rb_store \<Rightarrow> ptr \<Rightarrow> ptr \<Rightarrow> ('d rb_store \<times> ptr) option" where
  "rb_fixup_sib_right s par w = do {
     wn \<leftarrow> deref s w;
     if n_color wn = RED then do {
       s \<leftarrow> set_color s w BLACK;
       s \<leftarrow> set_color s par RED;
       s \<leftarrow> rb_rotate_right s par;
       pn \<leftarrow> deref s par;
       Some (s, n_left pn)
     } else Some (s, w)
   }"

definition rb_fixup_near_right :: "'d rb_store \<Rightarrow> ptr \<Rightarrow> ptr \<Rightarrow> ('d rb_store \<times> ptr) option" where
  "rb_fixup_near_right s par w = do {
     wn \<leftarrow> deref s w;
     lb \<leftarrow> nil_or_black s (n_left wn);
     if lb then do {
       s \<leftarrow> paint_if s (n_right wn) BLACK;
       s \<leftarrow> set_color s w RED;
       s \<leftarrow> rb_rotate_left s w;
       pn \<leftarrow> deref s par;
       Some (s, n_left pn)
     } else Some (s, w)
   }"

definition rb_fixup_far_right :: "'d rb_store \<Rightarrow> ptr \<Rightarrow> ptr \<Rightarrow> 'd rb_store option" where
  "rb_fixup_far_right s par w = do {
     pn \<leftarrow> deref s par;
     s \<leftarrow> set_color s w (n_color pn);
     s \<leftarrow> set_color s par BLACK;
     wn \<leftarrow> deref s w;
     s \<leftarrow> paint_if s (n_left wn) BLACK;
     rb_rotate_right s par
   }"

definition rb_fixup_rest_right ::
  "'d rb_store \<Rightarrow> ptr \<Rightarrow> ptr \<Rightarrow> ('d rb_store \<times> ptr \<times> ptr) option" where
  "rb_fixup_rest_right s par w = do {
     wn \<leftarrow> deref s w;
     rb \<leftarrow> nil_or_black s (n_right wn);
     both \<leftarrow> (if rb then nil_or_black s (n_left wn) else Some False);
     if both then do {
       s \<leftarrow> set_color s w RED;
       pn \<leftarrow> deref s par;
       Some (s, par, n_parent pn)
     } else do {
       (s, w) \<leftarrow> rb_fixup_near_right s par w;
       s \<leftarrow> rb_fixup_far_right s par w;
       Some (s, root s, None)
     }
   }"

definition rb_fixup_right ::
  "'d rb_store \<Rightarrow> ptr \<Rightarrow> ptr \<Rightarrow> (bool \<times> 'd rb_store \<times> ptr \<times> ptr) option" where
  "rb_fixup_right s x par = do {
     pn \<leftarrow> deref s par;
     if n_left pn = None then Some (True, s, x, par)
     else do {
       (s, w) \<leftarrow> rb_fixup_sib_right s par (n_left pn);
       (s, x, par) \<leftarrow> rb_fixup_rest_right s par w;
       Some (False, s, x, par)
     }
   }"

partial_function (option) rb_delete_fixup_loop ::
  "'d rb_store \<Rightarrow> ptr \<Rightarrow> ptr \<Rightarrow> ('d rb_store \<times> ptr) option" where
  "rb_delete_fixup_loop s x par = do {
     b \<leftarrow> (if x = root s then Some False else nil_or_black s x);
     if \<not> b then Some (s, x)
     else if par = None then Some (s, x)
     else do {
       pn \<leftarrow> deref s par;
       (brk, s', x', par') \<leftarrow>
          (if x = n_left pn then rb_fixup_left s x par else rb_fixup_right s x par);
       if brk then Some (s', x') else rb_delete_fixup_loop s' x' par'
     }
   }"

definition rb_delete_fixup :: "'d rb_store \<Rightarrow> ptr \<Rightarrow> ptr \<Rightarrow> 'd rb_store option" where
  "rb_delete_fixup s x par = do {
     (s, x) \<leftarrow> rb_delete_fixup_loop s x par;
     paint_if s x BLACK
   }"

text \<open>
  The part of \<^verbatim>\<open>rb_delete\<close> that unlinks the node \<open>z\<close>: the store, \<open>x\<close>, its parent and the
  colour that left the tree. With two children, the successor \<open>y\<close> first leaves its place
  (unless it is the right child of \<open>z\<close>) and then takes that of \<open>z\<close>.
\<close>

definition rb_leave_place :: "'d rb_store \<Rightarrow> ptr \<Rightarrow> ptr \<Rightarrow> 'd rb_store option" where
  "rb_leave_place s z y = do {
     yn \<leftarrow> deref s y;
     s \<leftarrow> rb_transplant s y (n_right yn);
     zn \<leftarrow> deref s z;
     s \<leftarrow> set_right s y (n_right zn);
     yn \<leftarrow> deref s y;
     set_parent s (n_right yn) y
   }"

definition rb_take_place :: "'d rb_store \<Rightarrow> ptr \<Rightarrow> ptr \<Rightarrow> 'd rb_store option" where
  "rb_take_place s z y = do {
     s \<leftarrow> rb_transplant s z y;
     zn \<leftarrow> deref s z;
     s \<leftarrow> set_left s y (n_left zn);
     yn \<leftarrow> deref s y;
     s \<leftarrow> set_parent s (n_left yn) y;
     zn \<leftarrow> deref s z;
     set_color s y (n_color zn)
   }"

definition rb_unlink :: "'d rb_store \<Rightarrow> ptr \<Rightarrow> ('d rb_store \<times> ptr \<times> ptr \<times> rb_color) option" where
  "rb_unlink s z = do {
     zn \<leftarrow> deref s z;
     if n_left zn = None then do {
       s \<leftarrow> rb_transplant s z (n_right zn);
       Some (s, n_right zn, n_parent zn, n_color zn)
     } else if n_right zn = None then do {
       s \<leftarrow> rb_transplant s z (n_left zn);
       Some (s, n_left zn, n_parent zn, n_color zn)
     } else do {
       y \<leftarrow> rb_min s (n_right zn);
       yn \<leftarrow> deref s y;
       (s, x_parent) \<leftarrow> (if n_parent yn = z then Some (s, y)
         else do {
           s \<leftarrow> rb_leave_place s z y;
           Some (s, n_parent yn)
         });
       s \<leftarrow> rb_take_place s z y;
       Some (s, n_right yn, x_parent, n_color yn)
     }
   }"

definition rb_delete :: "'d rb_store \<Rightarrow> 64 word \<Rightarrow> ('d rb_store \<times> ptr) option" where
  "rb_delete s k = do {
     z \<leftarrow> rb_search s k;
     if z = None then Some (s, None)
     else do {
       (s, x, x_parent, y_original_color) \<leftarrow> rb_unlink s z;
       s \<leftarrow> (if y_original_color = BLACK then rb_delete_fixup s x x_parent else Some s);
       Some (s, z)
     }
   }"

text \<open>The equations of the loops, for the evaluation of concrete runs.\<close>

declare rb_insert_loop.simps [code]
declare rb_search_leq_loop.simps [code]
declare rb_search_loop.simps [code]
declare rb_min_loop.simps [code]
declare rb_delete_fixup_loop.simps [code]

end
