(* ===== verification/Rb_Tree.thy ===== *)
theory Rb_Tree
  imports Rb_Heap
begin

text \<open>
  The abstract view of the node store: coloured search trees whose nodes carry their
  address, one-hole contexts (the path from a node up to the root with the siblings
  that hang off it), the red-black invariants of both, and the representation relation
  that says which tree a store holds.
\<close>

section \<open>Trees and one-hole contexts\<close>

datatype 'd rbt =
    Leaf
  | Node (tcolor: rb_color) (tleft: "'d rbt") nat "64 word" 'd (tright: "'d rbt")

datatype 'd frame =
    InL rb_color nat "64 word" 'd "'d rbt"
  | InR rb_color "'d rbt" nat "64 word" 'd

type_synonym 'd ctx = "'d frame list"

fun plug1 :: "'d rbt \<Rightarrow> 'd frame \<Rightarrow> 'd rbt" where
  "plug1 t (InL c a k d r) = Node c t a k d r"
| "plug1 t (InR c l a k d) = Node c l a k d t"

fun plug :: "'d rbt \<Rightarrow> 'd ctx \<Rightarrow> 'd rbt" where
  "plug t [] = t"
| "plug t (f # fs) = plug (plug1 t f) fs"

fun root_ptr :: "'d rbt \<Rightarrow> ptr" where
  "root_ptr Leaf = None"
| "root_ptr (Node c l a k d r) = Some a"

fun faddr :: "'d frame \<Rightarrow> nat" where
  "faddr (InL c a k d r) = a"
| "faddr (InR c l a k d) = a"

fun fcolor :: "'d frame \<Rightarrow> rb_color" where
  "fcolor (InL c a k d r) = c"
| "fcolor (InR c l a k d) = c"

fun fsib :: "'d frame \<Rightarrow> 'd rbt" where
  "fsib (InL c a k d r) = r"
| "fsib (InR c l a k d) = l"

fun ctx_ptr :: "'d ctx \<Rightarrow> ptr" where
  "ctx_ptr [] = None"
| "ctx_ptr (f # fs) = Some (faddr f)"

fun addrs :: "'d rbt \<Rightarrow> nat list" where
  "addrs Leaf = []"
| "addrs (Node c l a k d r) = addrs l @ a # addrs r"

fun ctx_addrs :: "'d ctx \<Rightarrow> nat list" where
  "ctx_addrs [] = []"
| "ctx_addrs (f # fs) = faddr f # addrs (fsib f) @ ctx_addrs fs"

fun entries :: "'d rbt \<Rightarrow> (64 word \<times> 'd) list" where
  "entries Leaf = []"
| "entries (Node c l a k d r) = entries l @ (k, d) # entries r"

fun ctx_before :: "'d ctx \<Rightarrow> (64 word \<times> 'd) list" where
  "ctx_before [] = []"
| "ctx_before (InL c a k d r # fs) = ctx_before fs"
| "ctx_before (InR c l a k d # fs) = ctx_before fs @ entries l @ [(k, d)]"

fun ctx_after :: "'d ctx \<Rightarrow> (64 word \<times> 'd) list" where
  "ctx_after [] = []"
| "ctx_after (InL c a k d r # fs) = (k, d) # entries r @ ctx_after fs"
| "ctx_after (InR c l a k d # fs) = ctx_after fs"

lemma entries_plug: "entries (plug t fs) = ctx_before fs @ entries t @ ctx_after fs"
  by (induction fs arbitrary: t rule: ctx_after.induct) auto

lemma plug_append: "plug t (fs @ gs) = plug (plug t fs) gs"
  by (induction fs arbitrary: t) auto

lemma set_addrs_plug: "set (addrs (plug t fs)) = set (addrs t) \<union> set (ctx_addrs fs)"
proof (induction fs arbitrary: t)
  case Nil
  then show ?case by simp
next
  case (Cons f fs)
  then show ?case by (cases f) auto
qed

section \<open>Red-black invariants\<close>

fun color_of :: "'d rbt \<Rightarrow> rb_color" where
  "color_of Leaf = BLACK"
| "color_of (Node c l a k d r) = c"

fun paint :: "rb_color \<Rightarrow> 'd rbt \<Rightarrow> 'd rbt" where
  "paint c Leaf = Leaf"
| "paint c (Node _ l a k d r) = Node c l a k d r"

fun bheight :: "'d rbt \<Rightarrow> nat" where
  "bheight Leaf = 0"
| "bheight (Node c l a k d r) = (if c = BLACK then Suc (bheight l) else bheight l)"

fun invc :: "'d rbt \<Rightarrow> bool" where
  "invc Leaf = True"
| "invc (Node c l a k d r) =
     ((c = RED \<longrightarrow> color_of l = BLACK \<and> color_of r = BLACK) \<and> invc l \<and> invc r)"

fun invh :: "'d rbt \<Rightarrow> bool" where
  "invh Leaf = True"
| "invh (Node c l a k d r) = (bheight l = bheight r \<and> invh l \<and> invh r)"

definition rbt_inv :: "'d rbt \<Rightarrow> bool" where
  "rbt_inv t \<longleftrightarrow> invc t \<and> invh t \<and> color_of t = BLACK"

lemma rbt_inv_paint: "rbt_inv t \<Longrightarrow> invc (paint BLACK t) \<and> invh t"
  by (cases t) (auto simp: rbt_inv_def)

text \<open>
  \<open>ctx_ok c h fs\<close>: a subtree with root colour \<open>c\<close> and black height \<open>h\<close> can stand in the
  hole, and the whole tree then satisfies the invariants and has a black root.
\<close>

fun ctx_ok :: "rb_color \<Rightarrow> nat \<Rightarrow> 'd ctx \<Rightarrow> bool" where
  "ctx_ok c h [] = (c = BLACK)"
| "ctx_ok c h (f # fs) =
     (invc (fsib f) \<and> invh (fsib f) \<and> bheight (fsib f) = h \<and>
      (fcolor f = RED \<longrightarrow> c = BLACK \<and> color_of (fsib f) = BLACK) \<and>
      ctx_ok (fcolor f) (if fcolor f = BLACK then Suc h else h) fs)"

lemma not_BLACK [simp]: "c \<noteq> BLACK \<longleftrightarrow> c = RED"
  by (cases c) auto

lemma rbt_inv_plug:
  "invc t \<Longrightarrow> invh t \<Longrightarrow> rbt_inv (plug t fs) \<longleftrightarrow> ctx_ok (color_of t) (bheight t) fs"
proof (induction fs arbitrary: t)
  case Nil
  then show ?case by (simp add: rbt_inv_def)
next
  case (Cons f fs)
  have mono: "rbt_inv (plug t' gs) \<Longrightarrow> invc t' \<and> invh t'" for t' :: "'a rbt" and gs
  proof (induction gs arbitrary: t')
    case Nil
    then show ?case by (simp add: rbt_inv_def)
  next
    case (Cons g gs)
    then have "invc (plug1 t' g) \<and> invh (plug1 t' g)" by simp
    then show ?case by (cases g) auto
  qed
  show ?case
  proof (cases "invc (plug1 t f) \<and> invh (plug1 t f)")
    case True
    with Cons.IH [of "plug1 t f"] Cons.prems show ?thesis
      by (cases f) auto
  next
    case False
    with mono [of "plug1 t f" fs] have "\<not> rbt_inv (plug t (f # fs))" by auto
    moreover have "\<not> ctx_ok (color_of t) (bheight t) (f # fs)"
      using False Cons.prems by (cases f) auto
    ultimately show ?thesis by simp
  qed
qed

lemma rbt_inv_sub: "rbt_inv (plug t fs) \<Longrightarrow> invc t \<and> invh t \<and> ctx_ok (color_of t) (bheight t) fs"
proof (induction fs arbitrary: t)
  case Nil
  then show ?case by (simp add: rbt_inv_def)
next
  case (Cons f fs)
  then have "invc (plug1 t f) \<and> invh (plug1 t f) \<and>
      ctx_ok (color_of (plug1 t f)) (bheight (plug1 t f)) fs"
    by simp
  then show ?case by (cases f) auto
qed

lemma ctx_ok_BLACK: "ctx_ok RED h fs \<Longrightarrow> ctx_ok BLACK h fs"
  by (cases fs) auto

text \<open>The height of a red-black tree is logarithmic in its size.\<close>

fun theight :: "'d rbt \<Rightarrow> nat" where
  "theight Leaf = 0"
| "theight (Node c l a k d r) = Suc (max (theight l) (theight r))"

lemma theight_bheight:
  "invc t \<Longrightarrow> invh t \<Longrightarrow> theight t \<le> 2 * bheight t + (if color_of t = BLACK then 0 else 1)"
  by (induction t) (auto split: if_splits)

lemma bheight_size: "invh t \<Longrightarrow> 2 ^ bheight t \<le> Suc (length (entries t))"
  by (induction t) auto

lemma theight_bound: "rbt_inv t \<Longrightarrow> 2 ^ theight t \<le> Suc (length (entries t)) ^ 2"
proof -
  assume "rbt_inv t"
  then have "theight t \<le> 2 * bheight t" and inv: "invh t"
    using theight_bheight [of t] by (auto simp: rbt_inv_def)
  then have "(2::nat) ^ theight t \<le> 2 ^ (2 * bheight t)" by (intro power_increasing) auto
  also have "\<dots> = (2 ^ bheight t) ^ 2" by (simp add: power_mult power2_eq_square power_add mult_2)
  also have "\<dots> \<le> Suc (length (entries t)) ^ 2"
    using bheight_size [OF inv] by (rule power_mono) simp
  finally show ?thesis .
qed

section \<open>Which tree a store holds\<close>

fun rep_tree :: "(nat \<rightharpoonup> 'd rb_node) \<Rightarrow> ptr \<Rightarrow> 'd rbt \<Rightarrow> bool" where
  "rep_tree h p Leaf = True"
| "rep_tree h p (Node c l a k d r) =
     (h a = Some \<lparr>n_parent = p, n_left = root_ptr l, n_right = root_ptr r,
                  n_color = c, n_key = k, n_data = d\<rparr> \<and>
      rep_tree h (Some a) l \<and> rep_tree h (Some a) r)"

fun rep_ctx :: "(nat \<rightharpoonup> 'd rb_node) \<Rightarrow> ptr \<Rightarrow> ptr \<Rightarrow> 'd ctx \<Rightarrow> bool" where
  "rep_ctx h rt ch [] = (rt = ch)"
| "rep_ctx h rt ch (InL c a k d r # fs) =
     (h a = Some \<lparr>n_parent = ctx_ptr fs, n_left = ch, n_right = root_ptr r,
                  n_color = c, n_key = k, n_data = d\<rparr> \<and>
      rep_tree h (Some a) r \<and> rep_ctx h rt (Some a) fs)"
| "rep_ctx h rt ch (InR c l a k d # fs) =
     (h a = Some \<lparr>n_parent = ctx_ptr fs, n_left = root_ptr l, n_right = ch,
                  n_color = c, n_key = k, n_data = d\<rparr> \<and>
      rep_tree h (Some a) l \<and> rep_ctx h rt (Some a) fs)"

text \<open>
  \<open>rep F s t fs\<close>: the store \<open>s\<close> holds the tree \<open>plug t fs\<close> with the focus on \<open>t\<close>, and
  outside the addresses of that tree it agrees with the frame \<open>F\<close>.
\<close>

definition rep ::
  "(nat \<rightharpoonup> 'd rb_node) \<Rightarrow> 'd rb_store \<Rightarrow> 'd rbt \<Rightarrow> 'd ctx \<Rightarrow> bool" where
  "rep F s t fs \<longleftrightarrow>
     rep_tree (nodes s) (ctx_ptr fs) t \<and>
     rep_ctx (nodes s) (root s) (root_ptr t) fs \<and>
     distinct (addrs t @ ctx_addrs fs) \<and>
     (\<forall>x. x \<notin> set (addrs t) \<longrightarrow> x \<notin> set (ctx_addrs fs) \<longrightarrow> nodes s x = F x)"

lemma root_ptr_in: "root_ptr t = Some a \<Longrightarrow> a \<in> set (addrs t)"
  by (cases t) auto

lemma root_ptr_None [simp]: "root_ptr t = None \<longleftrightarrow> t = Leaf"
  by (cases t) auto

lemma root_ptr_neq [simp]:
  "a \<notin> set (addrs t) \<Longrightarrow> root_ptr t \<noteq> Some a"
  "a \<notin> set (addrs t) \<Longrightarrow> Some a \<noteq> root_ptr t"
  by (cases t; auto)+

lemma root_ptr_paint [simp]: "root_ptr (paint c t) = root_ptr t"
  by (cases t) auto

lemma addrs_paint [simp]: "addrs (paint c t) = addrs t"
  by (cases t) auto

lemma entries_paint [simp]: "entries (paint c t) = entries t"
  by (cases t) auto

lemma rep_focus: "rep F s t (f # fs) \<longleftrightarrow> rep F s (plug1 t f) fs"
  by (cases f) (auto simp: rep_def)

lemma rep_plug: "rep F s t fs \<longleftrightarrow> rep F s (plug t fs) []"
proof (induction fs arbitrary: t)
  case Nil
  then show ?case by simp
next
  case (Cons f fs)
  then show ?case by (simp add: rep_focus)
qed

lemma rep_focus_append: "rep F s t (fs @ gs) \<longleftrightarrow> rep F s (plug t fs) gs"
  by (metis plug_append rep_plug)

text \<open>Writes outside a tree or a context do not disturb it.\<close>

lemma rep_tree_upd [simp]:
  "x \<notin> set (addrs t) \<Longrightarrow> rep_tree (h(x := v)) p t = rep_tree h p t"
  by (induction t arbitrary: p) auto

lemma rep_ctx_upd [simp]:
  "x \<notin> set (ctx_addrs fs) \<Longrightarrow> rep_ctx (h(x := v)) rt ch fs = rep_ctx h rt ch fs"
  by (induction h rt ch fs rule: rep_ctx.induct) auto

lemma rep_tree_cong:
  "(\<And>x. x \<in> set (addrs t) \<Longrightarrow> h x = h' x) \<Longrightarrow> rep_tree h p t = rep_tree h' p t"
  by (induction t arbitrary: p) auto

lemma rep_deref:
  "rep F s (plug (Node c l a k d r) gs) fs \<Longrightarrow>
   deref s (Some a) = Some \<lparr>n_parent = ctx_ptr (gs @ fs), n_left = root_ptr l,
     n_right = root_ptr r, n_color = c, n_key = k, n_data = d\<rparr>"
  unfolding rep_focus_append [symmetric] by (simp add: rep_def deref_def)

lemma rep_root: "rep F s t fs \<Longrightarrow> root s = root_ptr (plug t fs)"
  by (subst (asm) rep_plug) (simp add: rep_def)

lemma rep_ctx_root: "rep_ctx h rt ch (f # fs) \<Longrightarrow> rt = Some (faddr (last (f # fs)))"
proof (induction fs arbitrary: f ch)
  case Nil
  then show ?case by (cases f) auto
next
  case (Cons g gs)
  then show ?case by (cases f) auto
qed

lemma faddr_in: "f \<in> set fs \<Longrightarrow> faddr f \<in> set (ctx_addrs fs)"
  by (induction fs) auto

lemma rep_root_neq:
  assumes "rep F s t (f # fs)"
  shows "root_ptr t \<noteq> root s"
proof -
  from assms have "root s = Some (faddr (last (f # fs)))"
    unfolding rep_def by (blast dest: rep_ctx_root)
  moreover have "faddr (last (f # fs)) \<in> set (ctx_addrs (f # fs))"
    by (intro faddr_in last_in_set) simp
  then have "faddr (last (f # fs)) \<notin> set (addrs t)"
    using assms unfolding rep_def by auto
  ultimately show ?thesis by simp
qed

text \<open>Changing the parent of the root of a subtree.\<close>

lemma rep_tree_reparent:
  "rep_tree h p t \<Longrightarrow> distinct (addrs t) \<Longrightarrow> root_ptr t = Some a \<Longrightarrow> h a = Some n \<Longrightarrow>
   rep_tree (h(a \<mapsto> n\<lparr>n_parent := q\<rparr>)) q t"
  by (cases t) auto

end
