(* ===== verification/Rb_Insert.thy ===== *)
theory Rb_Insert
  imports Rb_Tree
begin

text \<open>
  The insertion side of \<^verbatim>\<open>rbtree.c\<close> refined to trees: each rotation, recolouring and
  loop iteration on the node store is matched by a step on the tree it represents, and
  the loop of \<^verbatim>\<open>rb_insert_color\<close> ends in a tree that satisfies the red-black invariant and
  holds the same entries.
\<close>

section \<open>Rotations and colours on the store\<close>

lemmas heap_defs = deref_def wr_def Let_def

lemmas disjoint_simps = Int_Un_distrib Int_Un_distrib2 Int_commute

lemma rb_rotate_left_rep:
  assumes "rep F s (Node c l a k d (Node c2 l2 a2 k2 d2 r2)) fs"
  shows "\<exists>s'. rb_rotate_left s (Some a) = Some s' \<and>
     rep F s' (Node c2 (Node c l a k d l2) a2 k2 d2 r2) fs"
proof (cases fs)
  case Nil
  with assms show ?thesis
    by (cases l2) (simp_all add: rb_rotate_left_def heap_defs rep_def)
next
  case (Cons f gs)
  with assms show ?thesis
    by (cases l2; cases f) (simp_all add: rb_rotate_left_def heap_defs rep_def)
qed

lemma rb_rotate_right_rep:
  assumes "rep F s (Node c2 (Node c l a k d r) a2 k2 d2 r2) fs"
  shows "\<exists>s'. rb_rotate_right s (Some a2) = Some s' \<and>
     rep F s' (Node c l a k d (Node c2 r a2 k2 d2 r2)) fs"
proof (cases fs)
  case Nil
  with assms show ?thesis
    by (cases r) (simp_all add: rb_rotate_right_def heap_defs rep_def)
next
  case (Cons f gs)
  with assms show ?thesis
    by (cases r; cases f) (simp_all add: rb_rotate_right_def heap_defs rep_def)
qed

lemma set_color_rep:
  assumes "rep F s (plug (Node c l a k d r) gs) fs"
  shows "\<exists>s'. set_color s (Some a) c' = Some s' \<and> rep F s' (plug (Node c' l a k d r) gs) fs"
  using assms unfolding rep_focus_append [symmetric]
  by (simp add: rep_def heap_defs)

section \<open>Insertion\<close>

lemma rb_insert_step_red:
  assumes "rep F s (Node ct lt at kt dt rt) (f1 # f2 # fs)"
    and "fsib f2 = Node RED lu au ku du ru"
  shows "\<exists>s'. rb_insert_step s (Some at) = Some (s', Some (faddr f2)) \<and>
     rep F s' (paint RED (plug1 (paint BLACK (plug1 (Node ct lt at kt dt rt) f1))
       (case f2 of InL c a k d r \<Rightarrow> InL c a k d (paint BLACK r)
                 | InR c l a k d \<Rightarrow> InR c (paint BLACK l) a k d))) fs"
  using assms
  by (cases f1; cases f2)
     (clarsimp simp: rb_insert_step_def rb_uncle_def rb_grandparent_def heap_defs rep_def
        is_red_def disjoint_simps)+

lemma rb_relatives_rep:
  assumes "rep F s (Node ct lt at kt dt rt) (f1 # f2 # fs)"
  shows "rb_grandparent s (Some at) = Some (Some (faddr f2))"
    and "rb_uncle s (Some at) = Some (root_ptr (fsib f2))"
  using assms
  by (cases f1; cases f2; simp add: rb_uncle_def rb_grandparent_def heap_defs rep_def)+

lemma rep_colors:
  assumes "rep F s (plug t gs) fs"
  shows "is_red s (root_ptr t) = Some (color_of t = RED)"
    and "nil_or_black s (root_ptr t) = Some (color_of t = BLACK)"
  using assms unfolding rep_focus_append [symmetric]
  by (cases t; simp add: rep_def is_red_def nil_or_black_def deref_def)+

lemma rb_insert_guard_child:
  assumes "rep F s (Node BLACK l a k d r) fs" and "root_ptr l = Some n \<or> root_ptr r = Some n"
  shows "rb_insert_guard s (Some n) = Some False"
  using assms
  by (cases l; cases r) (auto simp: rb_insert_guard_def rep_def heap_defs)

fun ins_rot :: "'d rbt \<Rightarrow> 'd frame \<Rightarrow> 'd frame \<Rightarrow> 'd rbt" where
  "ins_rot t (InL c1 a1 k1 d1 r1) (InL c2 a2 k2 d2 r2) =
     Node BLACK t a1 k1 d1 (Node RED r1 a2 k2 d2 r2)"
| "ins_rot (Node c l a k d r) (InR c1 l1 a1 k1 d1) (InL c2 a2 k2 d2 r2) =
     Node BLACK (Node c1 l1 a1 k1 d1 l) a k d (Node RED r a2 k2 d2 r2)"
| "ins_rot (Node c l a k d r) (InL c1 a1 k1 d1 r1) (InR c2 l2 a2 k2 d2) =
     Node BLACK (Node RED l2 a2 k2 d2 l) a k d (Node c1 r a1 k1 d1 r1)"
| "ins_rot t (InR c1 l1 a1 k1 d1) (InR c2 l2 a2 k2 d2) =
     Node BLACK (Node RED l2 a2 k2 d2 l1) a1 k1 d1 t"
| "ins_rot Leaf f1 f2 = plug1 (plug1 Leaf f1) f2"

lemma rb_insert_case3_left_rep:
  assumes "rep F s (Node ct lt at kt dt rt) (InL c1 a1 k1 d1 r1 # InL c2 a2 k2 d2 r2 # fs)"
  shows "\<exists>s'. rb_insert_case3_left s (Some at) (Some a2) = Some s' \<and>
     rep F s' (Node BLACK (Node ct lt at kt dt rt) a1 k1 d1 (Node RED r1 a2 k2 d2 r2)) fs"
proof -
  let ?t = "Node ct lt at kt dt rt"
  from assms have g: "rep F s (plug ?t [InL c1 a1 k1 d1 r1, InL c2 a2 k2 d2 r2]) fs"
    by (simp add: rep_focus)
  then have "rep F s (plug (Node c1 ?t a1 k1 d1 r1) [InL c2 a2 k2 d2 r2]) fs" by simp
  from set_color_rep [OF this, of BLACK] obtain s1
    where s1: "set_color s (Some a1) BLACK = Some s1"
      and "rep F s1 (plug (Node c2 (Node BLACK ?t a1 k1 d1 r1) a2 k2 d2 r2) []) fs" by auto
  from set_color_rep [OF this(2), of RED] obtain s2
    where s2: "set_color s1 (Some a2) RED = Some s2"
      and "rep F s2 (Node RED (Node BLACK ?t a1 k1 d1 r1) a2 k2 d2 r2) fs" by auto
  from rb_rotate_right_rep [OF this(2)] obtain s3
    where "rb_rotate_right s2 (Some a2) = Some s3"
      and "rep F s3 (Node BLACK ?t a1 k1 d1 (Node RED r1 a2 k2 d2 r2)) fs" by auto
  with s1 s2 rep_deref [OF g] show ?thesis
    by (simp add: rb_insert_case3_left_def)
qed

lemma rb_insert_case3_right_rep:
  assumes "rep F s (Node ct lt at kt dt rt) (InR c1 r1 a1 k1 d1 # InR c2 r2 a2 k2 d2 # fs)"
  shows "\<exists>s'. rb_insert_case3_right s (Some at) (Some a2) = Some s' \<and>
     rep F s' (Node BLACK (Node RED r2 a2 k2 d2 r1) a1 k1 d1 (Node ct lt at kt dt rt)) fs"
proof -
  let ?t = "Node ct lt at kt dt rt"
  from assms have g: "rep F s (plug ?t [InR c1 r1 a1 k1 d1, InR c2 r2 a2 k2 d2]) fs"
    by (simp add: rep_focus)
  then have "rep F s (plug (Node c1 r1 a1 k1 d1 ?t) [InR c2 r2 a2 k2 d2]) fs" by simp
  from set_color_rep [OF this, of BLACK] obtain s1
    where s1: "set_color s (Some a1) BLACK = Some s1"
      and "rep F s1 (plug (Node c2 r2 a2 k2 d2 (Node BLACK r1 a1 k1 d1 ?t)) []) fs" by auto
  from set_color_rep [OF this(2), of RED] obtain s2
    where s2: "set_color s1 (Some a2) RED = Some s2"
      and "rep F s2 (Node RED r2 a2 k2 d2 (Node BLACK r1 a1 k1 d1 ?t)) fs" by auto
  from rb_rotate_left_rep [OF this(2)] obtain s3
    where "rb_rotate_left s2 (Some a2) = Some s3"
      and "rep F s3 (Node BLACK (Node RED r2 a2 k2 d2 r1) a1 k1 d1 ?t) fs" by auto
  with s1 s2 rep_deref [OF g] show ?thesis
    by (simp add: rb_insert_case3_right_def)
qed

lemma rb_insert_step_LL:
  assumes r: "rep F s (Node ct lt at kt dt rt) (InL c1 a1 k1 d1 r1 # InL c2 a2 k2 d2 r2 # fs)"
    and b: "color_of r2 = BLACK"
  shows "\<exists>s' n'. rb_insert_step s (Some at) = Some (s', n') \<and>
     rep F s' (ins_rot (Node ct lt at kt dt rt) (InL c1 a1 k1 d1 r1) (InL c2 a2 k2 d2 r2)) fs \<and>
     rb_insert_guard s' n' = Some False"
proof -
  have un: "is_red s (root_ptr r2) = Some False"
    using rep_colors(1) [of F s r2 "[InR c2 (Node c1 (Node ct lt at kt dt rt) a1 k1 d1 r1) a2 k2 d2]" fs] r b
    by (simp add: rep_focus)
  have neq: "root_ptr r1 \<noteq> Some at" "root_ptr r2 \<noteq> Some a1"
    using r by (simp_all add: rep_def)
  from rb_insert_case3_left_rep [OF r] obtain s'
    where s': "rb_insert_case3_left s (Some at) (Some a2) = Some s'"
      and r': "rep F s' (ins_rot (Node ct lt at kt dt rt) (InL c1 a1 k1 d1 r1) (InL c2 a2 k2 d2 r2)) fs" by auto
  have "rb_insert_step s (Some at) = Some (s', Some at)"
    using rb_relatives_rep [OF r] un neq s' r
    by (simp add: rb_insert_step_def rep_def deref_def)
  moreover have "rb_insert_guard s' (Some at) = Some False"
    using rb_insert_guard_child [of F s' _ a1 k1 d1 _ fs at] r' by simp
  ultimately show ?thesis using r' by auto
qed

lemma rb_insert_step_LR:
  assumes r: "rep F s (Node ct lt at kt dt rt) (InR c1 r1 a1 k1 d1 # InL c2 a2 k2 d2 r2 # fs)"
    and b: "color_of r2 = BLACK"
  shows "\<exists>s' n'. rb_insert_step s (Some at) = Some (s', n') \<and>
     rep F s' (ins_rot (Node ct lt at kt dt rt) (InR c1 r1 a1 k1 d1) (InL c2 a2 k2 d2 r2)) fs \<and>
     rb_insert_guard s' n' = Some False"
proof -
  have un: "is_red s (root_ptr r2) = Some False"
    using rep_colors(1) [of F s r2 "[InR c2 (Node c1 r1 a1 k1 d1 (Node ct lt at kt dt rt)) a2 k2 d2]" fs] r b
    by (simp add: rep_focus)
  have neq: "root_ptr r1 \<noteq> Some at" "root_ptr r2 \<noteq> Some a1"
    using r by (simp_all add: rep_def)
  from r have "rep F s (Node c1 r1 a1 k1 d1 (Node ct lt at kt dt rt)) (InL c2 a2 k2 d2 r2 # fs)" by (simp add: rep_focus)
  from rb_rotate_left_rep [OF this] obtain s0
    where s0: "rb_rotate_left s (Some a1) = Some s0"
      and "rep F s0 (Node c1 r1 a1 k1 d1 lt) (InL ct at kt dt rt # InL c2 a2 k2 d2 r2 # fs)" by (auto simp: rep_focus)
  from rb_insert_case3_left_rep [OF this(2)] obtain s'
    where s': "rb_insert_case3_left s0 (Some a1) (Some a2) = Some s'"
      and r': "rep F s' (ins_rot (Node ct lt at kt dt rt) (InR c1 r1 a1 k1 d1) (InL c2 a2 k2 d2 r2)) fs" by auto
  have "rb_insert_step s (Some at) = Some (s', Some a1)"
    using rb_relatives_rep [OF r] un neq s0 s' r
    by (simp add: rb_insert_step_def rep_def deref_def)
  moreover have "rb_insert_guard s' (Some a1) = Some False"
    using rb_insert_guard_child [of F s' _ at kt dt _ fs a1] r' by simp
  ultimately show ?thesis using r' by auto
qed

lemma rb_insert_step_RL:
  assumes r: "rep F s (Node ct lt at kt dt rt) (InL c1 a1 k1 d1 r1 # InR c2 r2 a2 k2 d2 # fs)"
    and b: "color_of r2 = BLACK"
  shows "\<exists>s' n'. rb_insert_step s (Some at) = Some (s', n') \<and>
     rep F s' (ins_rot (Node ct lt at kt dt rt) (InL c1 a1 k1 d1 r1) (InR c2 r2 a2 k2 d2)) fs \<and>
     rb_insert_guard s' n' = Some False"
proof -
  have un: "is_red s (root_ptr r2) = Some False"
    using rep_colors(1) [of F s r2 "[InL c2 a2 k2 d2 (Node c1 (Node ct lt at kt dt rt) a1 k1 d1 r1)]" fs] r b
    by (simp add: rep_focus)
  have neq: "root_ptr r1 \<noteq> Some at" "root_ptr r2 \<noteq> Some a1"
    using r by (simp_all add: rep_def)
  from r have "rep F s (Node c1 (Node ct lt at kt dt rt) a1 k1 d1 r1) (InR c2 r2 a2 k2 d2 # fs)" by (simp add: rep_focus)
  from rb_rotate_right_rep [OF this] obtain s0
    where s0: "rb_rotate_right s (Some a1) = Some s0"
      and "rep F s0 (Node c1 rt a1 k1 d1 r1) (InR ct lt at kt dt # InR c2 r2 a2 k2 d2 # fs)" by (auto simp: rep_focus)
  from rb_insert_case3_right_rep [OF this(2)] obtain s'
    where s': "rb_insert_case3_right s0 (Some a1) (Some a2) = Some s'"
      and r': "rep F s' (ins_rot (Node ct lt at kt dt rt) (InL c1 a1 k1 d1 r1) (InR c2 r2 a2 k2 d2)) fs" by auto
  have "rb_insert_step s (Some at) = Some (s', Some a1)"
    using rb_relatives_rep [OF r] un neq s0 s' r
    by (simp add: rb_insert_step_def rep_def deref_def)
  moreover have "rb_insert_guard s' (Some a1) = Some False"
    using rb_insert_guard_child [of F s' _ at kt dt _ fs a1] r' by simp
  ultimately show ?thesis using r' by auto
qed

lemma rb_insert_step_RR:
  assumes r: "rep F s (Node ct lt at kt dt rt) (InR c1 r1 a1 k1 d1 # InR c2 r2 a2 k2 d2 # fs)"
    and b: "color_of r2 = BLACK"
  shows "\<exists>s' n'. rb_insert_step s (Some at) = Some (s', n') \<and>
     rep F s' (ins_rot (Node ct lt at kt dt rt) (InR c1 r1 a1 k1 d1) (InR c2 r2 a2 k2 d2)) fs \<and>
     rb_insert_guard s' n' = Some False"
proof -
  have un: "is_red s (root_ptr r2) = Some False"
    using rep_colors(1) [of F s r2 "[InL c2 a2 k2 d2 (Node c1 r1 a1 k1 d1 (Node ct lt at kt dt rt))]" fs] r b
    by (simp add: rep_focus)
  have neq: "root_ptr r1 \<noteq> Some at" "root_ptr r2 \<noteq> Some a1"
    using r by (simp_all add: rep_def)
  from rb_insert_case3_right_rep [OF r] obtain s'
    where s': "rb_insert_case3_right s (Some at) (Some a2) = Some s'"
      and r': "rep F s' (ins_rot (Node ct lt at kt dt rt) (InR c1 r1 a1 k1 d1) (InR c2 r2 a2 k2 d2)) fs" by auto
  have "rb_insert_step s (Some at) = Some (s', Some at)"
    using rb_relatives_rep [OF r] un neq s' r
    by (simp add: rb_insert_step_def rep_def deref_def)
  moreover have "rb_insert_guard s' (Some at) = Some False"
    using rb_insert_guard_child [of F s' _ a1 k1 d1 _ fs at] r' by simp
  ultimately show ?thesis using r' by auto
qed

text \<open>The two outcomes of an iteration on trees: recolouring and rotation.\<close>

fun ins_recolor :: "'d rbt \<Rightarrow> 'd frame \<Rightarrow> 'd frame \<Rightarrow> 'd rbt" where
  "ins_recolor t f1 (InL c a k d r) = Node RED (paint BLACK (plug1 t f1)) a k d (paint BLACK r)"
| "ins_recolor t f1 (InR c l a k d) = Node RED (paint BLACK l) a k d (paint BLACK (plug1 t f1))"

lemma ins_recolor_eq:
  "ins_recolor t f1 f2 = paint RED (plug1 (paint BLACK (plug1 t f1))
     (case f2 of InL c a k d r \<Rightarrow> InL c a k d (paint BLACK r)
               | InR c l a k d \<Rightarrow> InR c (paint BLACK l) a k d))"
  by (cases f2) auto

lemma ins_recolor_entries:
  "entries (ins_recolor t f1 f2) = entries (plug1 (plug1 t f1) f2)"
  "set (addrs (ins_recolor t f1 f2)) = set (addrs (plug1 (plug1 t f1) f2))"
  by (cases f1; cases f2; auto)+

lemma ins_rot_entries:
  "entries (ins_rot t f1 f2) = entries (plug1 (plug1 t f1) f2)"
  "set (addrs (ins_rot t f1 f2)) = set (addrs (plug1 (plug1 t f1) f2))"
  by (cases t; cases f1; cases f2; auto)+

lemma ctx_ok_red_black:
  assumes "ctx_ok c h (f1 # f2 # fs)" "fcolor f1 = RED"
  shows "invc (fsib f1)" "invh (fsib f1)" "bheight (fsib f1) = h" "color_of (fsib f1) = BLACK"
    "fcolor f2 = BLACK" "invc (fsib f2)" "invh (fsib f2)" "bheight (fsib f2) = h"
    "ctx_ok BLACK (Suc h) fs"
  using assms by (auto split: if_splits)

lemma invc_paint: "invc t \<Longrightarrow> invc (paint BLACK t)"
  by (cases t) auto

lemma invh_paint: "invh t \<Longrightarrow> invh (paint c t)"
  by (cases t) auto

lemma bheight_paint: "color_of t = RED \<Longrightarrow> bheight (paint BLACK t) = Suc (bheight t)"
  by (cases t) auto

lemma ins_recolor_inv:
  assumes t: "invc t" "invh t" and ok: "ctx_ok BLACK (bheight t) (f1 # f2 # fs)"
    and red: "fcolor f1 = RED" "color_of (fsib f2) = RED"
  shows "invc (ins_recolor t f1 f2)" "invh (ins_recolor t f1 f2)"
    "ctx_ok BLACK (bheight (ins_recolor t f1 f2)) fs"
proof -
  note c = ctx_ok_red_black [OF ok red(1)]
  have p: "invc (paint BLACK (plug1 t f1))" "invh (paint BLACK (plug1 t f1))"
    "bheight (paint BLACK (plug1 t f1)) = Suc (bheight t)" "color_of (paint BLACK (plug1 t f1)) = BLACK"
    using t c by (cases f1; simp)+
  have q: "color_of (paint BLACK (fsib f2)) = BLACK" by (cases "fsib f2") auto
  show "invc (ins_recolor t f1 f2)" "invh (ins_recolor t f1 f2)"
    "ctx_ok BLACK (bheight (ins_recolor t f1 f2)) fs"
    using p q c red invc_paint [of "fsib f2"] invh_paint [of "fsib f2" BLACK] bheight_paint [of "fsib f2"]
    by (cases f2; simp)+
qed

lemma ins_rot_inv:
  assumes t: "invc (Node RED l a k d r)" "invh (Node RED l a k d r)"
    and ok: "ctx_ok BLACK (bheight l) (f1 # f2 # fs)"
    and col: "fcolor f1 = RED" "color_of (fsib f2) = BLACK"
  shows "invc (ins_rot (Node RED l a k d r) f1 f2)" "invh (ins_rot (Node RED l a k d r) f1 f2)"
    "ctx_ok (color_of (ins_rot (Node RED l a k d r) f1 f2))
       (bheight (ins_rot (Node RED l a k d r) f1 f2)) fs"
proof -
  note c = ctx_ok_red_black [OF ok col(1)]
  show "invc (ins_rot (Node RED l a k d r) f1 f2)" "invh (ins_rot (Node RED l a k d r) f1 f2)"
    "ctx_ok (color_of (ins_rot (Node RED l a k d r) f1 f2))
       (bheight (ins_rot (Node RED l a k d r) f1 f2)) fs"
    using t c col by (cases f1; cases f2; simp)+
qed

lemma rb_insert_step_black:
  assumes r: "rep F s (Node ct lt at kt dt rt) (f1 # f2 # fs)" and b: "color_of (fsib f2) = BLACK"
  shows "\<exists>s' n'. rb_insert_step s (Some at) = Some (s', n') \<and>
     rep F s' (ins_rot (Node ct lt at kt dt rt) f1 f2) fs \<and>
     rb_insert_guard s' n' = Some False"
proof (cases f2)
  case f2: (InL c2 a2 k2 d2 r2)
  then have "color_of r2 = BLACK" using b by simp
  with r show ?thesis unfolding f2
    by (cases f1) (blast intro: rb_insert_step_LL rb_insert_step_LR)+
next
  case f2: (InR c2 r2 a2 k2 d2)
  then have "color_of r2 = BLACK" using b by simp
  with r show ?thesis unfolding f2
    by (cases f1) (blast intro: rb_insert_step_RL rb_insert_step_RR)+
qed

lemma rb_insert_guard_rep:
  assumes "rep F s (Node ct lt at kt dt rt) (f1 # fs)"
  shows "rb_insert_guard s (Some at) = Some (fcolor f1 = RED)"
  using assms rep_root_neq [OF assms]
  by (cases f1) (simp_all add: rb_insert_guard_def rep_def deref_def)

lemma rb_insert_loop_rep:
  assumes "rep F s (Node RED l a k d r) fs" "invc (Node RED l a k d r)"
    "invh (Node RED l a k d r)" "ctx_ok BLACK (bheight l) fs"
  shows "\<exists>s' t'. rb_insert_loop s (Some a) = Some s' \<and> rep F s' t' [] \<and>
     entries t' = entries (plug (Node RED l a k d r) fs) \<and>
     set (addrs t') = set (addrs (plug (Node RED l a k d r) fs)) \<and>
     invc (paint BLACK t') \<and> invh t'"
  using assms
proof (induction "length fs" arbitrary: fs s l a k d r rule: less_induct)
  case less
  let ?t = "Node RED l a k d r"
  show ?case
  proof (cases fs)
    case Nil
    with less.prems have "rb_insert_loop s (Some a) = Some s"
      by (subst rb_insert_loop.simps) (simp add: rb_insert_guard_def rep_def)
    with less.prems Nil show ?thesis by (intro exI [of _ s] exI [of _ ?t]) simp
  next
    case (Cons f1 gs)
    note guard = rb_insert_guard_rep [OF less.prems(1) [unfolded Cons]]
    show ?thesis
    proof (cases "fcolor f1")
      case BLACK
      then have "rb_insert_loop s (Some a) = Some s"
        using guard by (subst rb_insert_loop.simps) simp
      moreover have "rbt_inv (plug ?t fs)"
        using less.prems BLACK Cons by (subst rbt_inv_plug) auto
      moreover have "rep F s (plug ?t fs) []"
        using less.prems(1) by (subst (asm) rep_plug)
      ultimately show ?thesis
        using rbt_inv_paint by (intro exI [of _ s] exI [of _ "plug ?t fs"]) simp
    next
      case RED
      with less.prems(4) Cons obtain f2 hs where gs: "gs = f2 # hs"
        by (cases gs) auto
      note r = less.prems(1) [unfolded Cons gs]
      have ok': "ctx_ok BLACK (bheight l) (f1 # f2 # hs)"
        using less.prems(4) unfolding Cons gs .
      then have ok: "ctx_ok BLACK (bheight ?t) (f1 # f2 # hs)" by simp
      show ?thesis
      proof (cases "color_of (fsib f2)")
        case BLACK
        from rb_insert_step_black [OF r BLACK] obtain s' n'
          where step: "rb_insert_step s (Some a) = Some (s', n')"
            and r': "rep F s' (ins_rot ?t f1 f2) hs"
            and stop: "rb_insert_guard s' n' = Some False" by blast
        from stop have "rb_insert_loop s' n' = Some s'"
          by (subst rb_insert_loop.simps) simp
        then have "rb_insert_loop s (Some a) = Some s'"
          using guard RED step by (subst rb_insert_loop.simps) simp
        moreover have "rbt_inv (plug (ins_rot ?t f1 f2) hs)"
          using ins_rot_inv [OF less.prems(2,3) ok' RED BLACK] by (subst rbt_inv_plug)
        moreover have "rep F s' (plug (ins_rot ?t f1 f2) hs) []"
          using r' by (subst (asm) rep_plug)
        ultimately show ?thesis
          using rbt_inv_paint by (intro exI [of _ s'] exI [of _ "plug (ins_rot ?t f1 f2) hs"])
            (simp add: Cons gs entries_plug set_addrs_plug ins_rot_entries)
      next
        case RED': RED
        then obtain lu au ku du ru where u: "fsib f2 = Node RED lu au ku du ru"
          by (cases "fsib f2") auto
        from rb_insert_step_red [OF r u] obtain s'
          where step: "rb_insert_step s (Some a) = Some (s', Some (faddr f2))"
            and r': "rep F s' (ins_recolor ?t f1 f2) hs"
          unfolding ins_recolor_eq by blast
        obtain l' k' d' x' where t': "ins_recolor ?t f1 f2 = Node RED l' (faddr f2) k' d' x'"
          by (cases f2) auto
        note inv = ins_recolor_inv [OF less.prems(2,3) ok RED RED', unfolded t']
        have "\<exists>s'' t''. rb_insert_loop s' (Some (faddr f2)) = Some s'' \<and> rep F s'' t'' [] \<and>
           entries t'' = entries (plug (ins_recolor ?t f1 f2) hs) \<and>
           set (addrs t'') = set (addrs (plug (ins_recolor ?t f1 f2) hs)) \<and>
           invc (paint BLACK t'') \<and> invh t''"
          using less.hyps [of hs s' l' "faddr f2" k' d' x'] r' inv Cons gs
          unfolding t' by simp
        moreover have "rb_insert_loop s (Some a) = rb_insert_loop s' (Some (faddr f2))"
          using guard RED step by (subst rb_insert_loop.simps) simp
        ultimately show ?thesis
          by (simp add: Cons gs entries_plug set_addrs_plug ins_recolor_entries)
      qed
    qed
  qed
qed

lemma rb_insert_color_rep:
  assumes "rep F s (Node RED Leaf a k d Leaf) fs" "ctx_ok BLACK 0 fs"
  shows "\<exists>s' t'. rb_insert_color s (Some a) = Some s' \<and> rep F s' t' [] \<and> rbt_inv t' \<and>
     entries t' = entries (plug (Node RED Leaf a k d Leaf) fs) \<and>
     set (addrs t') = set (addrs (plug (Node RED Leaf a k d Leaf) fs))"
proof -
  let ?t = "Node RED Leaf a k d Leaf"
  have "invc ?t" "invh ?t" "ctx_ok BLACK (bheight Leaf) fs" using assms(2) by auto
  from rb_insert_loop_rep [OF assms(1) this] obtain s1 t1
    where s1: "rb_insert_loop s (Some a) = Some s1" and r1: "rep F s1 t1 []"
      and t1: "entries t1 = entries (plug ?t fs)" "set (addrs t1) = set (addrs (plug ?t fs))"
      "invc (paint BLACK t1)" "invh t1" by blast
  from t1(1) obtain c l b k' d' r where n: "t1 = Node c l b k' d' r"
    by (cases t1) (auto simp: entries_plug)
  from r1 have "root s1 = Some b" by (simp add: rep_def n)
  moreover from set_color_rep [of F s1 c l b k' d' r "[]" "[]" BLACK] r1 n obtain s2
    where "set_color s1 (Some b) BLACK = Some s2" "rep F s2 (Node BLACK l b k' d' r) []" by auto
  ultimately show ?thesis
    using s1 t1 n by (intro exI [of _ s2] exI [of _ "Node BLACK l b k' d' r"])
      (auto simp: rb_insert_color_def rbt_inv_def)
qed

end
