(* ===== verification/Rb_Fixup.thy ===== *)
theory Rb_Fixup
  imports Rb_Insert
begin

text \<open>
  The loop of \<^verbatim>\<open>rb_delete_fixup\<close> refined to trees: the cases of an iteration (for a left
  and, mirrored, for a right child), the measure that makes the loop end, and the
  result: the missing black node is restored, the \<^verbatim>\<open>break\<close> on a missing sibling is never
  taken.
\<close>

section \<open>One iteration of the deletion loop\<close>

lemma rb_fixup_sib_left_red:
  assumes "rep F s x (InL cp p kp dp (Node RED wc aw kw dw wd) # gs)"
  shows "\<exists>s'. rb_fixup_sib_left s (Some p) (Some aw) = Some (s', root_ptr wc) \<and>
     rep F s' x (InL RED p kp dp wc # InL BLACK aw kw dw wd # gs)"
proof -
  from assms have r: "rep F s (plug (Node RED wc aw kw dw wd) [InR cp x p kp dp]) gs"
    by (simp add: rep_focus)
  from set_color_rep [OF this, of BLACK] obtain s1
    where s1: "set_color s (Some aw) BLACK = Some s1"
      and "rep F s1 (plug (Node cp x p kp dp (Node BLACK wc aw kw dw wd)) []) gs" by auto
  from set_color_rep [OF this(2), of RED] obtain s2
    where s2: "set_color s1 (Some p) RED = Some s2"
      and "rep F s2 (Node RED x p kp dp (Node BLACK wc aw kw dw wd)) gs" by auto
  from rb_rotate_left_rep [OF this(2)] obtain s3
    where s3: "rb_rotate_left s2 (Some p) = Some s3"
      and r3: "rep F s3 (plug (Node RED x p kp dp wc) [InL BLACK aw kw dw wd]) gs" by auto
  from s1 s2 s3 rep_deref [OF r] rep_deref [OF r3]
  have "rb_fixup_sib_left s (Some p) (Some aw) = Some (s3, root_ptr wc)"
    by (simp add: rb_fixup_sib_left_def)
  with r3 show ?thesis by (simp add: rep_focus)
qed

lemma rb_fixup_sib_left_black:
  assumes "rep F s x (InL cp p kp dp (Node BLACK wc aw kw dw wd) # gs)"
  shows "rb_fixup_sib_left s (Some p) (Some aw) = Some (s, Some aw)"
  using assms rep_deref [of F s BLACK wc aw kw dw wd "[InR cp x p kp dp]" gs]
  by (simp add: rb_fixup_sib_left_def rep_focus)

lemma rb_fixup_near_left_rot:
  assumes "rep F s x (InL cp p kp dp (Node BLACK (Node RED wcl al kl dl wcr) aw kw dw wd) # gs)"
    and b: "color_of wd = BLACK"
  shows "\<exists>s'. rb_fixup_near_left s (Some p) (Some aw) = Some (s', Some al) \<and>
     rep F s' x (InL cp p kp dp (Node BLACK wcl al kl dl (Node RED wcr aw kw dw wd)) # gs)"
proof -
  from assms have r: "rep F s (plug (Node BLACK (Node RED wcl al kl dl wcr) aw kw dw wd) [InR cp x p kp dp]) gs"
    by (simp add: rep_focus)
  then have "rep F s (plug (Node RED wcl al kl dl wcr) [InL BLACK aw kw dw wd, InR cp x p kp dp]) gs"
    by simp
  from set_color_rep [OF this, of BLACK] obtain s1
    where s1: "set_color s (Some al) BLACK = Some s1"
      and "rep F s1 (plug (Node BLACK (Node BLACK wcl al kl dl wcr) aw kw dw wd) [InR cp x p kp dp]) gs"
    by auto
  from set_color_rep [OF this(2), of RED] obtain s2
    where s2: "set_color s1 (Some aw) RED = Some s2"
      and "rep F s2 (Node RED (Node BLACK wcl al kl dl wcr) aw kw dw wd) (InR cp x p kp dp # gs)"
    by (auto simp: rep_focus)
  from rb_rotate_right_rep [OF this(2)] obtain s3
    where s3: "rb_rotate_right s2 (Some aw) = Some s3"
      and r3: "rep F s3 (plug (Node cp x p kp dp (Node BLACK wcl al kl dl (Node RED wcr aw kw dw wd))) []) gs"
    by (auto simp: rep_focus)
  have "nil_or_black s (root_ptr wd) = Some True"
    using rep_colors(2) [of F s wd "[InR BLACK (Node RED wcl al kl dl wcr) aw kw dw, InR cp x p kp dp]" gs] r b by simp
  with s1 s2 s3 rep_deref [OF r] rep_deref [OF r3]
  have "rb_fixup_near_left s (Some p) (Some aw) = Some (s3, Some al)"
    by (simp add: rb_fixup_near_left_def paint_if_def)
  with r3 show ?thesis by (simp add: rep_focus)
qed

lemma rb_fixup_near_left_skip:
  assumes "rep F s x (InL cp p kp dp (Node BLACK wc aw kw dw wd) # gs)" and "color_of wd = RED"
  shows "rb_fixup_near_left s (Some p) (Some aw) = Some (s, Some aw)"
  using assms rep_deref [of F s BLACK wc aw kw dw wd "[InR cp x p kp dp]" gs]
    rep_colors(2) [of F s wd "[InR BLACK wc aw kw dw, InR cp x p kp dp]" gs]
  by (simp add: rb_fixup_near_left_def rep_focus)

lemma rb_fixup_far_left_rep:
  assumes "rep F s x (InL cp p kp dp (Node cw wc aw kw dw (Node cr rl ar kr dr rr)) # gs)"
  shows "\<exists>s'. rb_fixup_far_left s (Some p) (Some aw) = Some s' \<and>
     rep F s' (Node cp (Node BLACK x p kp dp wc) aw kw dw (Node BLACK rl ar kr dr rr)) gs"
proof -
  from assms have r: "rep F s (plug (Node cw wc aw kw dw (Node cr rl ar kr dr rr)) [InR cp x p kp dp]) gs"
    by (simp add: rep_focus)
  then have rp: "rep F s (plug (Node cp x p kp dp (Node cw wc aw kw dw (Node cr rl ar kr dr rr))) []) gs" by simp
  from set_color_rep [OF r, of cp] obtain s1
    where s1: "set_color s (Some aw) cp = Some s1"
      and "rep F s1 (plug (Node cp x p kp dp (Node cp wc aw kw dw (Node cr rl ar kr dr rr))) []) gs" by auto
  from set_color_rep [OF this(2), of BLACK] obtain s2
    where s2: "set_color s1 (Some p) BLACK = Some s2"
      and r2: "rep F s2 (plug (Node cp wc aw kw dw (Node cr rl ar kr dr rr)) [InR BLACK x p kp dp]) gs" by auto
  then have "rep F s2 (plug (Node cr rl ar kr dr rr) [InR cp wc aw kw dw, InR BLACK x p kp dp]) gs"
    by simp
  from set_color_rep [OF this, of BLACK] obtain s3
    where s3: "set_color s2 (Some ar) BLACK = Some s3"
      and "rep F s3 (Node BLACK x p kp dp (Node cp wc aw kw dw (Node BLACK rl ar kr dr rr))) gs" by auto
  from rb_rotate_left_rep [OF this(2)] obtain s4
    where s4: "rb_rotate_left s3 (Some p) = Some s4"
      and r4: "rep F s4 (Node cp (Node BLACK x p kp dp wc) aw kw dw (Node BLACK rl ar kr dr rr)) gs" by auto
  from s1 s2 s3 s4 rep_deref [OF rp] rep_deref [OF r2]
  have "rb_fixup_far_left s (Some p) (Some aw) = Some s4"
    by (simp add: rb_fixup_far_left_def paint_if_def)
  with r4 show ?thesis by simp
qed

lemma rb_fixup_rest_left_up:
  assumes "rep F s x (InL cp p kp dp (Node BLACK wc aw kw dw wd) # gs)"
    and "color_of wc = BLACK" "color_of wd = BLACK"
  shows "\<exists>s'. rb_fixup_rest_left s (Some p) (Some aw) = Some (s', Some p, ctx_ptr gs) \<and>
     rep F s' (Node cp x p kp dp (Node RED wc aw kw dw wd)) gs"
proof -
  from assms have r: "rep F s (plug (Node BLACK wc aw kw dw wd) [InR cp x p kp dp]) gs"
    by (simp add: rep_focus)
  from set_color_rep [OF this, of RED] obtain s1
    where s1: "set_color s (Some aw) RED = Some s1"
      and r1: "rep F s1 (plug (Node cp x p kp dp (Node RED wc aw kw dw wd)) []) gs" by auto
  have "nil_or_black s (root_ptr wc) = Some True" "nil_or_black s (root_ptr wd) = Some True"
    using rep_colors(2) [of F s wc "[InL BLACK aw kw dw wd, InR cp x p kp dp]" gs]
      rep_colors(2) [of F s wd "[InR BLACK wc aw kw dw, InR cp x p kp dp]" gs] r assms(2,3) by simp_all
  with s1 rep_deref [OF r] rep_deref [OF r1]
  have "rb_fixup_rest_left s (Some p) (Some aw) = Some (s1, Some p, ctx_ptr gs)"
    by (simp add: rb_fixup_rest_left_def)
  with r1 show ?thesis by simp
qed

fun del_rot_left :: "'d rbt \<Rightarrow> rb_color \<Rightarrow> nat \<Rightarrow> 64 word \<Rightarrow> 'd \<Rightarrow> 'd rbt \<Rightarrow> 'd rbt" where
  "del_rot_left x cp p kp dp (Node BLACK wc aw kw dw (Node RED rl ar kr dr rr)) =
     (Node cp (Node BLACK x p kp dp wc) aw kw dw (Node BLACK rl ar kr dr rr))"
| "del_rot_left x cp p kp dp (Node BLACK (Node RED wcl al kl dl wcr) aw kw dw wd) =
     (Node cp (Node BLACK x p kp dp wcl) al kl dl (Node BLACK wcr aw kw dw wd))"
| "del_rot_left x cp p kp dp w = (Node cp x p kp dp w)"

lemma rb_fixup_rest_left_rot:
  assumes r: "rep F s x (InL cp p kp dp (Node BLACK wc aw kw dw wd) # gs)"
    and c: "\<not> (color_of wc = BLACK \<and> color_of wd = BLACK)"
  shows "\<exists>s'. rb_fixup_rest_left s (Some p) (Some aw) = Some (s', root s', None) \<and>
     rep F s' (del_rot_left x cp p kp dp (Node BLACK wc aw kw dw wd)) gs"
proof -
  have d: "deref s (Some aw) = Some \<lparr>n_parent = Some p, n_left = root_ptr wc,
      n_right = root_ptr wd, n_color = BLACK, n_key = kw, n_data = dw\<rparr>"
    using rep_deref [of F s BLACK wc aw kw dw wd "[InR cp x p kp dp]" gs] r
    by (simp add: rep_focus)
  have b: "nil_or_black s (root_ptr wc) = Some (color_of wc = BLACK)"
    "nil_or_black s (root_ptr wd) = Some (color_of wd = BLACK)"
    using rep_colors(2) [of F s wc "[InL BLACK aw kw dw wd, InR cp x p kp dp]" gs]
      rep_colors(2) [of F s wd "[InR BLACK wc aw kw dw, InR cp x p kp dp]" gs] r
    by (simp_all add: rep_focus)
  show ?thesis
  proof (cases "color_of wd")
    case RED
    then obtain rl ar kr dr rr where wd: "wd = Node RED rl ar kr dr rr" by (cases wd) auto
    from rb_fixup_far_left_rep [OF r [unfolded wd]] obtain s'
      where "rb_fixup_far_left s (Some p) (Some aw) = Some s'"
        and "rep F s' (del_rot_left x cp p kp dp (Node BLACK wc aw kw dw wd)) gs" by (auto simp: wd)
    with d b RED rb_fixup_near_left_skip [OF r RED] show ?thesis
      by (simp add: rb_fixup_rest_left_def)
  next
    case BLACK
    with c obtain wcl al kl dl wcr where wc: "wc = Node RED wcl al kl dl wcr" by (cases wc) auto
    from rb_fixup_near_left_rot [OF r [unfolded wc] BLACK] obtain s1
      where s1: "rb_fixup_near_left s (Some p) (Some aw) = Some (s1, Some al)"
        and r1: "rep F s1 x (InL cp p kp dp (Node BLACK wcl al kl dl (Node RED wcr aw kw dw wd)) # gs)"
      by auto
    from rb_fixup_far_left_rep [OF r1] obtain s'
      where "rb_fixup_far_left s1 (Some p) (Some al) = Some s'"
        and "rep F s' (del_rot_left x cp p kp dp (Node BLACK wc aw kw dw wd)) gs"
      using BLACK by (cases wd) (auto simp: wc)
    with d b s1 wc show ?thesis
      by (simp add: rb_fixup_rest_left_def)
  qed
qed

lemma rb_fixup_sib_right_red:
  assumes "rep F s x (InR cp (Node RED wd aw kw dw wc) p kp dp # gs)"
  shows "\<exists>s'. rb_fixup_sib_right s (Some p) (Some aw) = Some (s', root_ptr wc) \<and>
     rep F s' x (InR RED wc p kp dp # InR BLACK wd aw kw dw # gs)"
proof -
  from assms have r: "rep F s (plug (Node RED wd aw kw dw wc) [InL cp p kp dp x]) gs"
    by (simp add: rep_focus)
  from set_color_rep [OF this, of BLACK] obtain s1
    where s1: "set_color s (Some aw) BLACK = Some s1"
      and "rep F s1 (plug (Node cp (Node BLACK wd aw kw dw wc) p kp dp x) []) gs" by auto
  from set_color_rep [OF this(2), of RED] obtain s2
    where s2: "set_color s1 (Some p) RED = Some s2"
      and "rep F s2 (Node RED (Node BLACK wd aw kw dw wc) p kp dp x) gs" by auto
  from rb_rotate_right_rep [OF this(2)] obtain s3
    where s3: "rb_rotate_right s2 (Some p) = Some s3"
      and r3: "rep F s3 (plug (Node RED wc p kp dp x) [InR BLACK wd aw kw dw]) gs" by auto
  from s1 s2 s3 rep_deref [OF r] rep_deref [OF r3]
  have "rb_fixup_sib_right s (Some p) (Some aw) = Some (s3, root_ptr wc)"
    by (simp add: rb_fixup_sib_right_def)
  with r3 show ?thesis by (simp add: rep_focus)
qed

lemma rb_fixup_sib_right_black:
  assumes "rep F s x (InR cp (Node BLACK wd aw kw dw wc) p kp dp # gs)"
  shows "rb_fixup_sib_right s (Some p) (Some aw) = Some (s, Some aw)"
  using assms rep_deref [of F s BLACK wd aw kw dw wc "[InL cp p kp dp x]" gs]
  by (simp add: rb_fixup_sib_right_def rep_focus)

lemma rb_fixup_near_right_rot:
  assumes "rep F s x (InR cp (Node BLACK wd aw kw dw (Node RED wcr al kl dl wcl)) p kp dp # gs)"
    and b: "color_of wd = BLACK"
  shows "\<exists>s'. rb_fixup_near_right s (Some p) (Some aw) = Some (s', Some al) \<and>
     rep F s' x (InR cp (Node BLACK (Node RED wd aw kw dw wcr) al kl dl wcl) p kp dp # gs)"
proof -
  from assms have r: "rep F s (plug (Node BLACK wd aw kw dw (Node RED wcr al kl dl wcl)) [InL cp p kp dp x]) gs"
    by (simp add: rep_focus)
  then have "rep F s (plug (Node RED wcr al kl dl wcl) [InR BLACK wd aw kw dw, InL cp p kp dp x]) gs"
    by simp
  from set_color_rep [OF this, of BLACK] obtain s1
    where s1: "set_color s (Some al) BLACK = Some s1"
      and "rep F s1 (plug (Node BLACK wd aw kw dw (Node BLACK wcr al kl dl wcl)) [InL cp p kp dp x]) gs"
    by auto
  from set_color_rep [OF this(2), of RED] obtain s2
    where s2: "set_color s1 (Some aw) RED = Some s2"
      and "rep F s2 (Node RED wd aw kw dw (Node BLACK wcr al kl dl wcl)) (InL cp p kp dp x # gs)"
    by (auto simp: rep_focus)
  from rb_rotate_left_rep [OF this(2)] obtain s3
    where s3: "rb_rotate_left s2 (Some aw) = Some s3"
      and r3: "rep F s3 (plug (Node cp (Node BLACK (Node RED wd aw kw dw wcr) al kl dl wcl) p kp dp x) []) gs"
    by (auto simp: rep_focus)
  have "nil_or_black s (root_ptr wd) = Some True"
    using rep_colors(2) [of F s wd "[InL BLACK aw kw dw (Node RED wcr al kl dl wcl), InL cp p kp dp x]" gs] r b by simp
  with s1 s2 s3 rep_deref [OF r] rep_deref [OF r3]
  have "rb_fixup_near_right s (Some p) (Some aw) = Some (s3, Some al)"
    by (simp add: rb_fixup_near_right_def paint_if_def)
  with r3 show ?thesis by (simp add: rep_focus)
qed

lemma rb_fixup_near_right_skip:
  assumes "rep F s x (InR cp (Node BLACK wd aw kw dw wc) p kp dp # gs)" and "color_of wd = RED"
  shows "rb_fixup_near_right s (Some p) (Some aw) = Some (s, Some aw)"
  using assms rep_deref [of F s BLACK wd aw kw dw wc "[InL cp p kp dp x]" gs]
    rep_colors(2) [of F s wd "[InL BLACK aw kw dw wc, InL cp p kp dp x]" gs]
  by (simp add: rb_fixup_near_right_def rep_focus)

lemma rb_fixup_far_right_rep:
  assumes "rep F s x (InR cp (Node cw (Node cr rr ar kr dr rl) aw kw dw wc) p kp dp # gs)"
  shows "\<exists>s'. rb_fixup_far_right s (Some p) (Some aw) = Some s' \<and>
     rep F s' (Node cp (Node BLACK rr ar kr dr rl) aw kw dw (Node BLACK wc p kp dp x)) gs"
proof -
  from assms have r: "rep F s (plug (Node cw (Node cr rr ar kr dr rl) aw kw dw wc) [InL cp p kp dp x]) gs"
    by (simp add: rep_focus)
  then have rp: "rep F s (plug (Node cp (Node cw (Node cr rr ar kr dr rl) aw kw dw wc) p kp dp x) []) gs" by simp
  from set_color_rep [OF r, of cp] obtain s1
    where s1: "set_color s (Some aw) cp = Some s1"
      and "rep F s1 (plug (Node cp (Node cp (Node cr rr ar kr dr rl) aw kw dw wc) p kp dp x) []) gs" by auto
  from set_color_rep [OF this(2), of BLACK] obtain s2
    where s2: "set_color s1 (Some p) BLACK = Some s2"
      and r2: "rep F s2 (plug (Node cp (Node cr rr ar kr dr rl) aw kw dw wc) [InL BLACK p kp dp x]) gs" by auto
  then have "rep F s2 (plug (Node cr rr ar kr dr rl) [InL cp aw kw dw wc, InL BLACK p kp dp x]) gs"
    by simp
  from set_color_rep [OF this, of BLACK] obtain s3
    where s3: "set_color s2 (Some ar) BLACK = Some s3"
      and "rep F s3 (Node BLACK (Node cp (Node BLACK rr ar kr dr rl) aw kw dw wc) p kp dp x) gs" by auto
  from rb_rotate_right_rep [OF this(2)] obtain s4
    where s4: "rb_rotate_right s3 (Some p) = Some s4"
      and r4: "rep F s4 (Node cp (Node BLACK rr ar kr dr rl) aw kw dw (Node BLACK wc p kp dp x)) gs" by auto
  from s1 s2 s3 s4 rep_deref [OF rp] rep_deref [OF r2]
  have "rb_fixup_far_right s (Some p) (Some aw) = Some s4"
    by (simp add: rb_fixup_far_right_def paint_if_def)
  with r4 show ?thesis by simp
qed

lemma rb_fixup_rest_right_up:
  assumes "rep F s x (InR cp (Node BLACK wd aw kw dw wc) p kp dp # gs)"
    and "color_of wc = BLACK" "color_of wd = BLACK"
  shows "\<exists>s'. rb_fixup_rest_right s (Some p) (Some aw) = Some (s', Some p, ctx_ptr gs) \<and>
     rep F s' (Node cp (Node RED wd aw kw dw wc) p kp dp x) gs"
proof -
  from assms have r: "rep F s (plug (Node BLACK wd aw kw dw wc) [InL cp p kp dp x]) gs"
    by (simp add: rep_focus)
  from set_color_rep [OF this, of RED] obtain s1
    where s1: "set_color s (Some aw) RED = Some s1"
      and r1: "rep F s1 (plug (Node cp (Node RED wd aw kw dw wc) p kp dp x) []) gs" by auto
  have "nil_or_black s (root_ptr wc) = Some True" "nil_or_black s (root_ptr wd) = Some True"
    using rep_colors(2) [of F s wc "[InR BLACK wd aw kw dw, InL cp p kp dp x]" gs]
      rep_colors(2) [of F s wd "[InL BLACK aw kw dw wc, InL cp p kp dp x]" gs] r assms(2,3) by simp_all
  with s1 rep_deref [OF r] rep_deref [OF r1]
  have "rb_fixup_rest_right s (Some p) (Some aw) = Some (s1, Some p, ctx_ptr gs)"
    by (simp add: rb_fixup_rest_right_def)
  with r1 show ?thesis by simp
qed

fun del_rot_right :: "'d rbt \<Rightarrow> rb_color \<Rightarrow> nat \<Rightarrow> 64 word \<Rightarrow> 'd \<Rightarrow> 'd rbt \<Rightarrow> 'd rbt" where
  "del_rot_right x cp p kp dp (Node BLACK (Node RED rr ar kr dr rl) aw kw dw wc) =
     (Node cp (Node BLACK rr ar kr dr rl) aw kw dw (Node BLACK wc p kp dp x))"
| "del_rot_right x cp p kp dp (Node BLACK wd aw kw dw (Node RED wcr al kl dl wcl)) =
     (Node cp (Node BLACK wd aw kw dw wcr) al kl dl (Node BLACK wcl p kp dp x))"
| "del_rot_right x cp p kp dp w = (Node cp w p kp dp x)"

lemma rb_fixup_rest_right_rot:
  assumes r: "rep F s x (InR cp (Node BLACK wd aw kw dw wc) p kp dp # gs)"
    and c: "\<not> (color_of wc = BLACK \<and> color_of wd = BLACK)"
  shows "\<exists>s'. rb_fixup_rest_right s (Some p) (Some aw) = Some (s', root s', None) \<and>
     rep F s' (del_rot_right x cp p kp dp (Node BLACK wd aw kw dw wc)) gs"
proof -
  have d: "deref s (Some aw) = Some \<lparr>n_parent = Some p, n_left = root_ptr wd,
      n_right = root_ptr wc, n_color = BLACK, n_key = kw, n_data = dw\<rparr>"
    using rep_deref [of F s BLACK wd aw kw dw wc "[InL cp p kp dp x]" gs] r
    by (simp add: rep_focus)
  have b: "nil_or_black s (root_ptr wc) = Some (color_of wc = BLACK)"
    "nil_or_black s (root_ptr wd) = Some (color_of wd = BLACK)"
    using rep_colors(2) [of F s wc "[InR BLACK wd aw kw dw, InL cp p kp dp x]" gs]
      rep_colors(2) [of F s wd "[InL BLACK aw kw dw wc, InL cp p kp dp x]" gs] r
    by (simp_all add: rep_focus)
  show ?thesis
  proof (cases "color_of wd")
    case RED
    then obtain rl ar kr dr rr where wd: "wd = Node RED rr ar kr dr rl" by (cases wd) auto
    from rb_fixup_far_right_rep [OF r [unfolded wd]] obtain s'
      where "rb_fixup_far_right s (Some p) (Some aw) = Some s'"
        and "rep F s' (del_rot_right x cp p kp dp (Node BLACK wd aw kw dw wc)) gs" by (auto simp: wd)
    with d b RED rb_fixup_near_right_skip [OF r RED] show ?thesis
      by (simp add: rb_fixup_rest_right_def)
  next
    case BLACK
    with c obtain wcl al kl dl wcr where wc: "wc = Node RED wcr al kl dl wcl" by (cases wc) auto
    from rb_fixup_near_right_rot [OF r [unfolded wc] BLACK] obtain s1
      where s1: "rb_fixup_near_right s (Some p) (Some aw) = Some (s1, Some al)"
        and r1: "rep F s1 x (InR cp (Node BLACK (Node RED wd aw kw dw wcr) al kl dl wcl) p kp dp # gs)"
      by auto
    from rb_fixup_far_right_rep [OF r1] obtain s'
      where "rb_fixup_far_right s1 (Some p) (Some al) = Some s'"
        and "rep F s' (del_rot_right x cp p kp dp (Node BLACK wd aw kw dw wc)) gs"
      using BLACK by (cases wd) (auto simp: wc)
    with d b s1 wc show ?thesis
      by (simp add: rb_fixup_rest_right_def)
  qed
qed

section \<open>The invariant of the deletion loop\<close>

text \<open>
  The invariant of the deletion loop: the focus lacks one black node on its path, and
  may be red over red until it is painted black. \<open>same_tree\<close> says that two trees hold
  the same entries in the same nodes.
\<close>

definition fix_inv :: "'d rbt \<Rightarrow> 'd ctx \<Rightarrow> bool" where
  "fix_inv x fs \<longleftrightarrow> invc (paint BLACK x) \<and> invh x \<and> ctx_ok BLACK (Suc (bheight x)) fs"

definition same_tree :: "'d rbt \<Rightarrow> 'd rbt \<Rightarrow> bool" where
  "same_tree t t' \<longleftrightarrow> entries t' = entries t \<and> set (addrs t') = set (addrs t)"

definition fix_measure :: "'d rbt \<Rightarrow> 'd ctx \<Rightarrow> nat" where
  "fix_measure x fs = 2 * length fs + (if color_of x = BLACK then 1 else 0)"

text \<open>What one iteration leads to: a finished tree, or a smaller problem further up.\<close>

definition fix_next ::
  "(nat \<rightharpoonup> 'd rb_node) \<Rightarrow> 'd rbt \<Rightarrow> 'd ctx \<Rightarrow> 'd rb_store \<Rightarrow> ptr \<Rightarrow> ptr \<Rightarrow> bool" where
  "fix_next F x fs s' xp pp \<longleftrightarrow>
     (xp = root s' \<and> (\<exists>t'. rep F s' t' [] \<and> rbt_inv t' \<and> same_tree (plug x fs) t')) \<or>
     (\<exists>x' fs'. xp = root_ptr x' \<and> pp = ctx_ptr fs' \<and> rep F s' x' fs' \<and> fix_inv x' fs' \<and>
        fix_measure x' fs' < fix_measure x fs \<and> same_tree (plug x fs) (plug x' fs'))"

lemma same_tree_plug:
  "same_tree t t' \<Longrightarrow> same_tree (plug t fs) (plug t' fs)"
  by (auto simp: same_tree_def entries_plug set_addrs_plug)

lemma same_tree_refl [simp]: "same_tree t t"
  by (simp add: same_tree_def)

lemma same_tree_trans: "same_tree t u \<Longrightarrow> same_tree u v \<Longrightarrow> same_tree t v"
  by (simp add: same_tree_def)

lemma paint_BLACK_id: "color_of t = BLACK \<Longrightarrow> paint BLACK t = t"
  by (cases t) auto

lemma del_rot_left_same: "same_tree (Node cp x p kp dp w) (del_rot_left x cp p kp dp w)"
  by (cases "(x, cp, p, kp, dp, w)" rule: del_rot_left.cases) (auto simp: same_tree_def)

lemma del_rot_left_inv:
  assumes "invc x" "invh x" "invc (Node BLACK wc aw kw dw wd)" "invh (Node BLACK wc aw kw dw wd)" "bheight wc = bheight x"
    and "\<not> (color_of wc = BLACK \<and> color_of wd = BLACK)"
  shows "invc (del_rot_left x cp p kp dp (Node BLACK wc aw kw dw wd))"
    and "invh (del_rot_left x cp p kp dp (Node BLACK wc aw kw dw wd))"
    and "color_of (del_rot_left x cp p kp dp (Node BLACK wc aw kw dw wd)) = cp"
    and "bheight (del_rot_left x cp p kp dp (Node BLACK wc aw kw dw wd)) =
      (if cp = BLACK then Suc (Suc (bheight x)) else Suc (bheight x))"
proof -
  have "invc (del_rot_left x cp p kp dp (Node BLACK wc aw kw dw wd)) \<and>
    invh (del_rot_left x cp p kp dp (Node BLACK wc aw kw dw wd)) \<and>
    color_of (del_rot_left x cp p kp dp (Node BLACK wc aw kw dw wd)) = cp \<and>
    bheight (del_rot_left x cp p kp dp (Node BLACK wc aw kw dw wd)) =
      (if cp = BLACK then Suc (Suc (bheight x)) else Suc (bheight x))"
  proof (cases "color_of wd")
    case RED
    then show ?thesis using assms by (cases wd) auto
  next
    case BLACK
    with assms(6) obtain l a k d r where "wc = Node RED l a k d r" by (cases wc) auto
    with BLACK show ?thesis using assms(1-5) by (cases wd) auto
  qed
  then show "invc (del_rot_left x cp p kp dp (Node BLACK wc aw kw dw wd))"
    and "invh (del_rot_left x cp p kp dp (Node BLACK wc aw kw dw wd))"
    and "color_of (del_rot_left x cp p kp dp (Node BLACK wc aw kw dw wd)) = cp"
    and "bheight (del_rot_left x cp p kp dp (Node BLACK wc aw kw dw wd)) =
      (if cp = BLACK then Suc (Suc (bheight x)) else Suc (bheight x))"
    by simp_all
qed

lemma fix_inv_leftD:
  assumes "fix_inv x (InL cp p kp dp w # gs)" "color_of x = BLACK"
  shows "invc x" "invh x" "invc w" "invh w" "bheight w = Suc (bheight x)"
    "cp = RED \<longrightarrow> color_of w = BLACK"
    "ctx_ok cp (if cp = BLACK then Suc (Suc (bheight x)) else Suc (bheight x)) gs"
  using assms by (auto simp: fix_inv_def paint_BLACK_id)

lemma rb_fixup_rest_left_next:
  assumes r: "rep F s x (InL cp p kp dp (Node BLACK wc aw kw dw wd) # gs)"
    and i: "fix_inv x (InL cp p kp dp (Node BLACK wc aw kw dw wd) # gs)"
    and x: "color_of x = BLACK"
  shows "\<exists>s' xp pp. rb_fixup_rest_left s (Some p) (Some aw) = Some (s', xp, pp) \<and>
     (xp = root s' \<and> (\<exists>t'. rep F s' t' [] \<and> rbt_inv t' \<and>
        same_tree (plug x (InL cp p kp dp (Node BLACK wc aw kw dw wd) # gs)) t') \<or>
      (\<exists>x'. xp = root_ptr x' \<and> pp = ctx_ptr gs \<and> rep F s' x' gs \<and> fix_inv x' gs \<and>
        color_of x' = cp \<and> same_tree (plug x (InL cp p kp dp (Node BLACK wc aw kw dw wd) # gs)) (plug x' gs)))"
proof (cases "color_of wc = BLACK \<and> color_of wd = BLACK")
  case True
  let ?x = "(Node cp x p kp dp (Node RED wc aw kw dw wd))"
  from rb_fixup_rest_left_up [OF r] True obtain s'
    where s': "rb_fixup_rest_left s (Some p) (Some aw) = Some (s', root_ptr ?x, ctx_ptr gs)"
      and r': "rep F s' ?x gs" by auto
  have "fix_inv ?x gs"
    using fix_inv_leftD [OF i x] True ctx_ok_BLACK [of "Suc (bheight x)" gs]
    by (cases cp) (auto simp: fix_inv_def)
  moreover have "same_tree (plug x (InL cp p kp dp (Node BLACK wc aw kw dw wd) # gs)) (plug ?x gs)"
    by (simp add: same_tree_def entries_plug set_addrs_plug)
  moreover have "color_of ?x = cp" by simp
  ultimately show ?thesis using s' r' by blast
next
  case False
  let ?t = "del_rot_left x cp p kp dp (Node BLACK wc aw kw dw wd)"
  from rb_fixup_rest_left_rot [OF r False] obtain s'
    where s': "rb_fixup_rest_left s (Some p) (Some aw) = Some (s', root s', None)"
      and "rep F s' ?t gs" by auto
  then have r': "rep F s' (plug ?t gs) []" by (subst (asm) rep_plug)
  note D = fix_inv_leftD [OF i x]
  have "bheight wc = bheight x" using D(4,5) by auto
  note I = del_rot_left_inv [OF D(1-4) this False, of cp p kp dp]
  have "rbt_inv (plug ?t gs)"
    using I D(7) by (subst rbt_inv_plug) auto
  moreover have "same_tree (plug x (InL cp p kp dp (Node BLACK wc aw kw dw wd) # gs)) (plug ?t gs)"
    using same_tree_plug [OF del_rot_left_same] by simp
  ultimately show ?thesis using s' r' by blast
qed

lemma rb_fixup_left_next:
  assumes r: "rep F s x (InL cp p kp dp w # gs)"
    and i: "fix_inv x (InL cp p kp dp w # gs)"
    and x: "color_of x = BLACK"
  shows "\<exists>s' xp pp. rb_fixup_left s (root_ptr x) (Some p) = Some (False, s', xp, pp) \<and>
     fix_next F x (InL cp p kp dp w # gs) s' xp pp"
proof -
  note D = fix_inv_leftD [OF i x]
  from D(5) obtain cw wc aw kw dw wd where w: "w = Node cw wc aw kw dw wd"
    by (cases w) auto
  have d: "deref s (Some p) = Some \<lparr>n_parent = ctx_ptr gs, n_left = root_ptr x,
      n_right = root_ptr w, n_color = cp, n_key = kp, n_data = dp\<rparr>"
    using r by (simp add: rep_def deref_def)
  show ?thesis
  proof (cases cw)
    case BLACK
    note w' = w [unfolded BLACK]
    from rb_fixup_rest_left_next [OF r [unfolded w'] i [unfolded w'] x] obtain s' xp pp
      where s': "rb_fixup_rest_left s (Some p) (Some aw) = Some (s', xp, pp)"
        and "fix_next F x (InL cp p kp dp w # gs) s' xp pp"
      unfolding fix_next_def fix_measure_def w' using x by (fastforce split: if_splits)
    then show ?thesis
      using d rb_fixup_sib_left_black [OF r [unfolded w']]
      by (simp add: rb_fixup_left_def w')
  next
    case RED
    note w' = w [unfolded RED]
    from rb_fixup_sib_left_red [OF r [unfolded w']] obtain s1
      where s1: "rb_fixup_sib_left s (Some p) (Some aw) = Some (s1, root_ptr wc)"
        and r1: "rep F s1 x (InL RED p kp dp wc # InL BLACK aw kw dw wd # gs)" by auto
    from D RED have cp: "cp = BLACK" by (cases cp) (auto simp: w)
    from D w' obtain c3 bw k3 d3 e3 where wc: "wc = Node BLACK c3 bw k3 d3 e3"
      by (cases wc) auto
    have i1: "fix_inv x (InL RED p kp dp wc # InL BLACK aw kw dw wd # gs)"
      using D i w' cp by (auto simp: fix_inv_def wc)
    have same: "same_tree (plug x (InL cp p kp dp w # gs))
        (plug x (InL RED p kp dp wc # InL BLACK aw kw dw wd # gs))"
      unfolding plug.simps by (rule same_tree_plug) (auto simp: same_tree_def w')
    from rb_fixup_rest_left_next [OF r1 [unfolded wc] i1 [unfolded wc] x] obtain s' xp pp
      where s': "rb_fixup_rest_left s1 (Some p) (Some bw) = Some (s', xp, pp)"
        and "fix_next F x (InL cp p kp dp w # gs) s' xp pp"
      unfolding fix_next_def fix_measure_def wc [symmetric] using x same_tree_trans [OF same]
      by (fastforce split: if_splits)
    then show ?thesis
      using d s1 by (simp add: rb_fixup_left_def w' wc)
  qed
qed

lemma del_rot_right_same: "same_tree (Node cp w p kp dp x) (del_rot_right x cp p kp dp w)"
  by (cases "(x, cp, p, kp, dp, w)" rule: del_rot_right.cases) (auto simp: same_tree_def)

lemma del_rot_right_inv:
  assumes "invc x" "invh x" "invc (Node BLACK wd aw kw dw wc)" "invh (Node BLACK wd aw kw dw wc)" "bheight wc = bheight x"
    and "\<not> (color_of wc = BLACK \<and> color_of wd = BLACK)"
  shows "invc (del_rot_right x cp p kp dp (Node BLACK wd aw kw dw wc))"
    and "invh (del_rot_right x cp p kp dp (Node BLACK wd aw kw dw wc))"
    and "color_of (del_rot_right x cp p kp dp (Node BLACK wd aw kw dw wc)) = cp"
    and "bheight (del_rot_right x cp p kp dp (Node BLACK wd aw kw dw wc)) =
      (if cp = BLACK then Suc (Suc (bheight x)) else Suc (bheight x))"
proof -
  have "invc (del_rot_right x cp p kp dp (Node BLACK wd aw kw dw wc)) \<and>
    invh (del_rot_right x cp p kp dp (Node BLACK wd aw kw dw wc)) \<and>
    color_of (del_rot_right x cp p kp dp (Node BLACK wd aw kw dw wc)) = cp \<and>
    bheight (del_rot_right x cp p kp dp (Node BLACK wd aw kw dw wc)) =
      (if cp = BLACK then Suc (Suc (bheight x)) else Suc (bheight x))"
  proof (cases "color_of wd")
    case RED
    then show ?thesis using assms by (cases wd) auto
  next
    case BLACK
    with assms(6) obtain l a k d r where "wc = Node RED l a k d r" by (cases wc) auto
    with BLACK show ?thesis using assms(1-5) by (cases wd) auto
  qed
  then show "invc (del_rot_right x cp p kp dp (Node BLACK wd aw kw dw wc))"
    and "invh (del_rot_right x cp p kp dp (Node BLACK wd aw kw dw wc))"
    and "color_of (del_rot_right x cp p kp dp (Node BLACK wd aw kw dw wc)) = cp"
    and "bheight (del_rot_right x cp p kp dp (Node BLACK wd aw kw dw wc)) =
      (if cp = BLACK then Suc (Suc (bheight x)) else Suc (bheight x))"
    by simp_all
qed

lemma fix_inv_rightD:
  assumes "fix_inv x (InR cp w p kp dp # gs)" "color_of x = BLACK"
  shows "invc x" "invh x" "invc w" "invh w" "bheight w = Suc (bheight x)"
    "cp = RED \<longrightarrow> color_of w = BLACK"
    "ctx_ok cp (if cp = BLACK then Suc (Suc (bheight x)) else Suc (bheight x)) gs"
  using assms by (auto simp: fix_inv_def paint_BLACK_id)

lemma rb_fixup_rest_right_next:
  assumes r: "rep F s x (InR cp (Node BLACK wd aw kw dw wc) p kp dp # gs)"
    and i: "fix_inv x (InR cp (Node BLACK wd aw kw dw wc) p kp dp # gs)"
    and x: "color_of x = BLACK"
  shows "\<exists>s' xp pp. rb_fixup_rest_right s (Some p) (Some aw) = Some (s', xp, pp) \<and>
     (xp = root s' \<and> (\<exists>t'. rep F s' t' [] \<and> rbt_inv t' \<and>
        same_tree (plug x (InR cp (Node BLACK wd aw kw dw wc) p kp dp # gs)) t') \<or>
      (\<exists>x'. xp = root_ptr x' \<and> pp = ctx_ptr gs \<and> rep F s' x' gs \<and> fix_inv x' gs \<and>
        color_of x' = cp \<and> same_tree (plug x (InR cp (Node BLACK wd aw kw dw wc) p kp dp # gs)) (plug x' gs)))"
proof (cases "color_of wc = BLACK \<and> color_of wd = BLACK")
  case True
  let ?x = "(Node cp (Node RED wd aw kw dw wc) p kp dp x)"
  from rb_fixup_rest_right_up [OF r] True obtain s'
    where s': "rb_fixup_rest_right s (Some p) (Some aw) = Some (s', root_ptr ?x, ctx_ptr gs)"
      and r': "rep F s' ?x gs" by auto
  have "fix_inv ?x gs"
    using fix_inv_rightD [OF i x] True ctx_ok_BLACK [of "Suc (bheight x)" gs]
    by (cases cp) (auto simp: fix_inv_def)
  moreover have "same_tree (plug x (InR cp (Node BLACK wd aw kw dw wc) p kp dp # gs)) (plug ?x gs)"
    by (simp add: same_tree_def entries_plug set_addrs_plug)
  moreover have "color_of ?x = cp" by simp
  ultimately show ?thesis using s' r' by blast
next
  case False
  let ?t = "del_rot_right x cp p kp dp (Node BLACK wd aw kw dw wc)"
  from rb_fixup_rest_right_rot [OF r False] obtain s'
    where s': "rb_fixup_rest_right s (Some p) (Some aw) = Some (s', root s', None)"
      and "rep F s' ?t gs" by auto
  then have r': "rep F s' (plug ?t gs) []" by (subst (asm) rep_plug)
  note D = fix_inv_rightD [OF i x]
  have "bheight wc = bheight x" using D(4,5) by auto
  note I = del_rot_right_inv [OF D(1-4) this False, of cp p kp dp]
  have "rbt_inv (plug ?t gs)"
    using I D(7) by (subst rbt_inv_plug) auto
  moreover have "same_tree (plug x (InR cp (Node BLACK wd aw kw dw wc) p kp dp # gs)) (plug ?t gs)"
    using same_tree_plug [OF del_rot_right_same] by simp
  ultimately show ?thesis using s' r' by blast
qed

lemma rb_fixup_right_next:
  assumes r: "rep F s x (InR cp w p kp dp # gs)"
    and i: "fix_inv x (InR cp w p kp dp # gs)"
    and x: "color_of x = BLACK"
  shows "\<exists>s' xp pp. rb_fixup_right s (root_ptr x) (Some p) = Some (False, s', xp, pp) \<and>
     fix_next F x (InR cp w p kp dp # gs) s' xp pp"
proof -
  note D = fix_inv_rightD [OF i x]
  from D(5) obtain cw wc aw kw dw wd where w: "w = Node cw wd aw kw dw wc"
    by (cases w) auto
  have d: "deref s (Some p) = Some \<lparr>n_parent = ctx_ptr gs, n_left = root_ptr w,
      n_right = root_ptr x, n_color = cp, n_key = kp, n_data = dp\<rparr>"
    using r by (simp add: rep_def deref_def)
  show ?thesis
  proof (cases cw)
    case BLACK
    note w' = w [unfolded BLACK]
    from rb_fixup_rest_right_next [OF r [unfolded w'] i [unfolded w'] x] obtain s' xp pp
      where s': "rb_fixup_rest_right s (Some p) (Some aw) = Some (s', xp, pp)"
        and "fix_next F x (InR cp w p kp dp # gs) s' xp pp"
      unfolding fix_next_def fix_measure_def w' using x by (fastforce split: if_splits)
    then show ?thesis
      using d rb_fixup_sib_right_black [OF r [unfolded w']]
      by (simp add: rb_fixup_right_def w')
  next
    case RED
    note w' = w [unfolded RED]
    from rb_fixup_sib_right_red [OF r [unfolded w']] obtain s1
      where s1: "rb_fixup_sib_right s (Some p) (Some aw) = Some (s1, root_ptr wc)"
        and r1: "rep F s1 x (InR RED wc p kp dp # InR BLACK wd aw kw dw # gs)" by auto
    from D RED have cp: "cp = BLACK" by (cases cp) (auto simp: w)
    from D w' obtain c3 bw k3 d3 e3 where wc: "wc = Node BLACK e3 bw k3 d3 c3"
      by (cases wc) auto
    have i1: "fix_inv x (InR RED wc p kp dp # InR BLACK wd aw kw dw # gs)"
      using D i w' cp by (auto simp: fix_inv_def wc)
    have same: "same_tree (plug x (InR cp w p kp dp # gs))
        (plug x (InR RED wc p kp dp # InR BLACK wd aw kw dw # gs))"
      unfolding plug.simps by (rule same_tree_plug) (auto simp: same_tree_def w')
    from rb_fixup_rest_right_next [OF r1 [unfolded wc] i1 [unfolded wc] x] obtain s' xp pp
      where s': "rb_fixup_rest_right s1 (Some p) (Some bw) = Some (s', xp, pp)"
        and "fix_next F x (InR cp w p kp dp # gs) s' xp pp"
      unfolding fix_next_def fix_measure_def wc [symmetric] using x same_tree_trans [OF same]
      by (fastforce split: if_splits)
    then show ?thesis
      using d s1 by (simp add: rb_fixup_right_def w' wc)
  qed
qed

section \<open>The whole loop\<close>

lemma color_paint_BLACK [simp]: "color_of (paint BLACK x) = BLACK"
  by (cases x) auto

lemma paint_if_rep:
  assumes "rep F s x fs"
  shows "\<exists>s'. paint_if s (root_ptr x) c = Some s' \<and> rep F s' (paint c x) fs"
proof (cases x)
  case Leaf
  with assms show ?thesis by (simp add: paint_if_def)
next
  case (Node c' l a k d r)
  with assms set_color_rep [of F s c' l a k d r "[]" fs c] show ?thesis
    by (auto simp: paint_if_def)
qed

lemma rb_delete_fixup_unfold:
  "rb_delete_fixup s x par = do {
     b \<leftarrow> (if x = root s then Some False else nil_or_black s x);
     if \<not> b then paint_if s x BLACK
     else if par = None then paint_if s x BLACK
     else do {
       pn \<leftarrow> deref s par;
       (brk, s', x', par') \<leftarrow>
          (if x = n_left pn then rb_fixup_left s x par else rb_fixup_right s x par);
       if brk then paint_if s' x' BLACK else rb_delete_fixup s' x' par'
     }
   }"
proof -
  have *: "(case q of (brk, s', x', par') \<Rightarrow>
        if brk then Some (s', x') else rb_delete_fixup_loop s' x' par')
      \<bind> (\<lambda>(s, x). paint_if s x BLACK) =
    (case q of (brk, s', x', par') \<Rightarrow>
        if brk then paint_if s' x' BLACK else rb_delete_fixup s' x' par')"
    for q :: "bool \<times> 'a rb_store \<times> ptr \<times> ptr"
    by (simp add: rb_delete_fixup_def split: prod.split)
  have **: "(if c then m else n) \<bind> f = (if c then m \<bind> f else n \<bind> f)"
    for c and m n :: "'b option" and f :: "'b \<Rightarrow> 'c option"
    by simp
  show ?thesis
    unfolding rb_delete_fixup_def [of s x par]
    by (subst rb_delete_fixup_loop.simps) (simp only: Option.bind_assoc ** * Option.bind.bind_lunit prod.case)
qed
lemma rb_delete_fixup_iter:
  assumes r: "rep F s x (f # gs)" and i: "fix_inv x (f # gs)" and x: "color_of x = BLACK"
  shows "\<exists>s' xp pp. rb_delete_fixup s (root_ptr x) (ctx_ptr (f # gs)) = rb_delete_fixup s' xp pp \<and>
     fix_next F x (f # gs) s' xp pp"
proof -
  have b: "(if root_ptr x = root s then Some False else nil_or_black s (root_ptr x)) = Some True"
    using rep_root_neq [OF r] rep_colors(2) [of F s x "[]" "f # gs"] r x by simp
  show ?thesis
  proof (cases f)
    case (InL cp p kp dp w)
    note f = this
    have d: "deref s (Some p) = Some \<lparr>n_parent = ctx_ptr gs, n_left = root_ptr x,
        n_right = root_ptr w, n_color = cp, n_key = kp, n_data = dp\<rparr>"
      using r by (simp add: rep_def deref_def f)
    from rb_fixup_left_next [OF r [unfolded f] i [unfolded f] x] obtain s' xp pp
      where "rb_fixup_left s (root_ptr x) (Some p) = Some (False, s', xp, pp)"
        and "fix_next F x (f # gs) s' xp pp" unfolding f by blast
    with b d have "rb_delete_fixup s (root_ptr x) (ctx_ptr (f # gs)) = rb_delete_fixup s' xp pp"
      by (subst rb_delete_fixup_unfold) (simp add: f)
    then show ?thesis using \<open>fix_next F x (f # gs) s' xp pp\<close> by blast
  next
    case (InR cp w p kp dp)
    note f = this
    have d: "deref s (Some p) = Some \<lparr>n_parent = ctx_ptr gs, n_left = root_ptr w,
        n_right = root_ptr x, n_color = cp, n_key = kp, n_data = dp\<rparr>"
      using r by (simp add: rep_def deref_def f)
    have "root_ptr x \<noteq> root_ptr w"
      using fix_inv_rightD(5) [OF i [unfolded f] x] r by (cases w) (auto simp: rep_def f)
    from rb_fixup_right_next [OF r [unfolded f] i [unfolded f] x] obtain s' xp pp
      where "rb_fixup_right s (root_ptr x) (Some p) = Some (False, s', xp, pp)"
        and "fix_next F x (f # gs) s' xp pp" unfolding f by blast
    with b d \<open>root_ptr x \<noteq> root_ptr w\<close>
    have "rb_delete_fixup s (root_ptr x) (ctx_ptr (f # gs)) = rb_delete_fixup s' xp pp"
      by (subst rb_delete_fixup_unfold) (simp add: f)
    then show ?thesis using \<open>fix_next F x (f # gs) s' xp pp\<close> by blast
  qed
qed

lemma rb_delete_fixup_done:
  assumes "rep F s t []" "rbt_inv t"
  shows "\<exists>s'. rb_delete_fixup s (root s) pp = Some s' \<and> rep F s' t []"
proof -
  from assms have "paint BLACK t = t" "root s = root_ptr t"
    by (simp_all add: rbt_inv_def paint_BLACK_id rep_def)
  with paint_if_rep [OF assms(1), of BLACK] show ?thesis
    by (subst rb_delete_fixup_unfold) simp
qed

lemma rb_delete_fixup_rep:
  assumes "rep F s x fs" "fix_inv x fs"
  shows "\<exists>s' t'. rb_delete_fixup s (root_ptr x) (ctx_ptr fs) = Some s' \<and> rep F s' t' [] \<and>
     rbt_inv t' \<and> same_tree (plug x fs) t'"
  using assms
proof (induction "fix_measure x fs" arbitrary: s x fs rule: less_induct)
  case less
  note r = less.prems(1) and i = less.prems(2)
  from paint_if_rep [OF r, of BLACK] obtain s1
    where s1: "paint_if s (root_ptr x) BLACK = Some s1" and r1: "rep F s1 (paint BLACK x) fs" by auto
  have r1': "rep F s1 (plug (paint BLACK x) fs) []" using r1 by (subst (asm) rep_plug)
  have same: "same_tree (plug x fs) (plug (paint BLACK x) fs)"
    by (rule same_tree_plug) (simp add: same_tree_def)
  show ?case
  proof (cases fs)
    case Nil
    then have "rb_delete_fixup s (root_ptr x) (ctx_ptr fs) = Some s1"
      using s1 r by (subst rb_delete_fixup_unfold) (simp add: rep_def)
    moreover have "rbt_inv (paint BLACK x)"
      using i by (cases x) (auto simp: fix_inv_def rbt_inv_def)
    ultimately show ?thesis using r1' same Nil by auto
  next
    case (Cons f gs)
    show ?thesis
    proof (cases "color_of x")
      case RED
      then have "rb_delete_fixup s (root_ptr x) (ctx_ptr fs) = Some s1"
        using s1 rep_colors(2) [of F s x "[]" fs] r rep_root_neq [OF r [unfolded Cons]]
        by (subst rb_delete_fixup_unfold) simp
      moreover have "rbt_inv (plug (paint BLACK x) fs)"
        using i RED
        by (subst rbt_inv_plug) (auto simp: fix_inv_def invh_paint bheight_paint)
      ultimately show ?thesis using r1' same by auto
    next
      case BLACK
      from rb_delete_fixup_iter [OF r [unfolded Cons] i [unfolded Cons] BLACK] obtain s' xp pp
        where eq: "rb_delete_fixup s (root_ptr x) (ctx_ptr fs) = rb_delete_fixup s' xp pp"
          and nx: "fix_next F x fs s' xp pp" unfolding Cons by blast
      from nx consider
        (fin) t' where "xp = root s'" "rep F s' t' []" "rbt_inv t'" "same_tree (plug x fs) t'"
      | (up) x' fs' where "xp = root_ptr x'" "pp = ctx_ptr fs'" "rep F s' x' fs'" "fix_inv x' fs'"
          "fix_measure x' fs' < fix_measure x fs" "same_tree (plug x fs) (plug x' fs')"
        unfolding fix_next_def by blast
      then show ?thesis
      proof cases
        case fin
        with rb_delete_fixup_done [OF fin(2,3), of pp] eq show ?thesis by auto
      next
        case up
        from less.hyps [OF up(5,3,4)] eq up show ?thesis by (auto intro: same_tree_trans)
      qed
    qed
  qed
qed

end
