(* ===== verification/Rb_Delete.thy ===== *)
theory Rb_Delete
  imports Rb_Fixup
begin

text \<open>
  Searching (\<^verbatim>\<open>rb_search\<close>, \<^verbatim>\<open>rb_search_leq\<close>, \<^verbatim>\<open>rb_min\<close>), unlinking a node and the whole of
  \<^verbatim>\<open>rb_delete\<close>, and the linking of a new node, all refined to trees and to the sorted list
  of entries.
\<close>

section \<open>Searching\<close>

text \<open>
  The path a search for the key \<open>k\<close> takes: the subtree where it ends (a leaf, or the
  node with that key) and the context of that subtree.
\<close>

fun descend :: "64 word \<Rightarrow> 'd rbt \<Rightarrow> 'd ctx \<Rightarrow> 'd rbt \<times> 'd ctx" where
  "descend k Leaf fs = (Leaf, fs)"
| "descend k (Node c l a k' d r) fs =
     (if k < k' then descend k l (InL c a k' d r # fs)
      else if k' < k then descend k r (InR c l a k' d # fs)
      else (Node c l a k' d r, fs))"

definition ctx_around :: "64 word \<Rightarrow> 'd ctx \<Rightarrow> bool" where
  "ctx_around k fs \<longleftrightarrow>
     (\<forall>e\<in>set (ctx_before fs). fst e < k) \<and> (\<forall>e\<in>set (ctx_after fs). k < fst e)"

lemma descend_plug: "descend k t fs = (t', fs') \<Longrightarrow> plug t' fs' = plug t fs"
  by (induction k t fs rule: descend.induct) (auto split: if_splits)

lemma descend_key: "descend k t fs = (Node c l a k' d r, fs') \<Longrightarrow> k' = k"
  by (induction k t fs rule: descend.induct) (auto split: if_splits)

lemma descend_around:
  "skeys (entries (plug t fs)) \<Longrightarrow> ctx_around k fs \<Longrightarrow> descend k t fs = (t', fs') \<Longrightarrow>
   ctx_around k fs'"
proof (induction k t fs rule: descend.induct)
  case (1 k fs)
  then show ?case by simp
next
  case (2 k c l a k' d r fs)
  have "skeys (ctx_before fs @ (entries l @ (k', d) # entries r) @ ctx_after fs)"
    using "2.prems"(1) by (simp add: entries_plug)
  then have lr: "\<forall>e\<in>set (entries l). fst e < k'" "\<forall>e\<in>set (entries r). k' < fst e"
    by (auto simp: sorted_wrt_append)
  consider "k < k'" | "k' < k" | "k = k'" by fastforce
  then show ?case
  proof cases
    case 1
    then have "ctx_around k (InL c a k' d r # fs)"
      using "2.prems"(2) lr(2) unfolding ctx_around_def by (auto dest: less_trans)
    with 1 "2.IH"(1) "2.prems" show ?thesis by simp
  next
    case 2
    then have "ctx_around k (InR c l a k' d # fs)"
      using "2.prems"(2) lr(1) unfolding ctx_around_def by (auto dest: less_trans)
    moreover have "\<not> k < k'" using 2 by simp
    ultimately show ?thesis using 2 "2.IH"(2) "2.prems" by simp
  next
    case 3
    with "2.prems" show ?thesis by simp
  qed
qed

lemma ctx_around_Nil [simp]: "ctx_around k []"
  by (simp add: ctx_around_def)

text \<open>What the end of the path says about the sorted entries.\<close>

lemma descend_ins:
  assumes "skeys (entries t)" "descend k t [] = (Leaf, fs)"
  shows "ins_entry k d (entries t) = entries (plug (Node c Leaf a k d Leaf) fs)"
    and "k \<notin> fst ` set (entries t)"
proof -
  have t: "entries t = ctx_before fs @ ctx_after fs"
    using descend_plug [OF assms(2)] entries_plug [of Leaf fs] by simp
  have ar: "ctx_around k fs"
    using descend_around [of t "[]" k Leaf fs] assms by simp
  show "k \<notin> fst ` set (entries t)"
    using ar by (auto simp: t ctx_around_def)
  have "ins_entry k d (xs @ ys) = xs @ (k, d) # ys"
    if "\<forall>e\<in>set xs. fst e < k" "\<forall>e\<in>set ys. k < fst e" for xs ys
    using that by (induction xs) (cases ys; auto)+
  then show "ins_entry k d (entries t) = entries (plug (Node c Leaf a k d Leaf) fs)"
    using ar by (simp add: t entries_plug ctx_around_def)
qed

lemma descend_found:
  assumes "skeys (entries t)" "descend k t [] = (Node c l a k' d r, fs)"
  shows "del_entry k (entries t) = ctx_before fs @ entries l @ entries r @ ctx_after fs"
    and "map_of (entries t) k = Some d"
    and "ins_entry k d' (entries t) = entries t"
proof -
  have k: "k' = k" by (rule descend_key [OF assms(2)])
  have t: "entries t = (ctx_before fs @ entries l) @ (k, d) # entries r @ ctx_after fs"
    using descend_plug [OF assms(2)] entries_plug [of "Node c l a k' d r" fs] k by simp
  have s: "skeys ((ctx_before fs @ entries l) @ (k, d) # entries r @ ctx_after fs)"
    using assms(1) t by simp
  then have "\<forall>e\<in>set (ctx_before fs). fst e < k" "\<forall>e\<in>set (entries l). fst e < k"
    "\<forall>e\<in>set (entries r). k < fst e" "\<forall>e\<in>set (ctx_after fs). k < fst e"
    by (auto simp: sorted_wrt_append)
  then have "k \<notin> fst ` set (ctx_before fs)" "k \<notin> fst ` set (entries l)"
    "k \<notin> fst ` set (entries r)" "k \<notin> fst ` set (ctx_after fs)"
    by auto
  then show "del_entry k (entries t) = ctx_before fs @ entries l @ entries r @ ctx_after fs"
    and "map_of (entries t) k = Some d"
    by (simp_all add: t del_entry_absent map_add_def map_of_eq_None_iff [THEN iffD2]
        split: option.split)
  show "ins_entry k d' (entries t) = entries t"
    using ins_entry_same [OF s] t by simp
qed

lemma rb_search_loop_rep:
  "rep F s t fs \<Longrightarrow> descend k t fs = (t', fs') \<Longrightarrow>
   rb_search_loop s (root_ptr t) k = Some (root_ptr t') \<and> rep F s t' fs'"
proof (induction k t fs rule: descend.induct)
  case (1 k fs)
  then show ?case by (subst rb_search_loop.simps) auto
next
  case (2 k c l a k' d r fs)
  have d: "deref s (Some a) = Some \<lparr>n_parent = ctx_ptr fs, n_left = root_ptr l,
      n_right = root_ptr r, n_color = c, n_key = k', n_data = d\<rparr>"
    using rep_deref [of F s c l a k' d r "[]" fs] "2.prems"(1) by simp
  have "rep F s l (InL c a k' d r # fs)" "rep F s r (InR c l a k' d # fs)"
    using "2.prems"(1) by (simp_all add: rep_focus)
  with 2 d show ?case
    by (subst rb_search_loop.simps) (auto split: if_splits)
qed

fun leq_ptr :: "64 word \<Rightarrow> 'd rbt \<Rightarrow> ptr \<Rightarrow> ptr" where
  "leq_ptr k Leaf best = best"
| "leq_ptr k (Node c l a k' d r) best =
     (if k' \<le> k then leq_ptr k r (Some a) else leq_ptr k l best)"

lemma rb_search_leq_loop_rep:
  "rep_tree (nodes s) p t \<Longrightarrow> rb_search_leq_loop s (root_ptr t) best k = Some (leq_ptr k t best)"
  by (induction t arbitrary: p best)
    (subst rb_search_leq_loop.simps, auto simp: deref_def)+

lemma leq_ptr_entry:
  "rep_tree (nodes s) p t \<Longrightarrow> skeys (entries t) \<Longrightarrow>
   (case leq_entry k (entries t) of
      None \<Rightarrow> leq_ptr k t best = best
    | Some e \<Rightarrow> \<exists>a n. leq_ptr k t best = Some a \<and> a \<in> set (addrs t) \<and> nodes s a = Some n \<and>
        n_key n = fst e \<and> n_data n = snd e)"
proof (induction t arbitrary: p best)
  case Leaf
  then show ?case by simp
next
  case (Node c l a k' d r)
  from Node.prems have s: "skeys (entries l @ (k', d) # entries r)" by simp
  then have sl: "skeys (entries l)" and sr: "skeys (entries r)"
    by (simp_all add: sorted_wrt_append)
  show ?case
  proof (cases "k' \<le> k")
    case True
    have eq: "leq_entry k (entries (Node c l a k' d r)) =
        (case leq_entry k (entries r) of None \<Rightarrow> Some (k', d) | Some e \<Rightarrow> Some e)"
      using leq_entry_append_right [OF s True] True by (simp split: option.splits)
    have tr: "rep_tree (nodes s) (Some a) r" and n: "nodes s a = Some \<lparr>n_parent = p,
        n_left = root_ptr l, n_right = root_ptr r, n_color = c, n_key = k', n_data = d\<rparr>"
      using Node.prems(1) by simp_all
    show ?thesis
      using Node.IH(2) [OF tr sr, of "Some a"] True n
      unfolding eq by (auto split: option.splits)
  next
    case False
    then have eq: "leq_entry k (entries (Node c l a k' d r)) = leq_entry k (entries l)"
      using leq_entry_append_left [of k k' "entries l" d "entries r"] by simp
    have tl: "rep_tree (nodes s) (Some a) l" using Node.prems(1) by simp
    show ?thesis
      using Node.IH(1) [OF tl sl, of best] False
      unfolding eq by (auto split: option.splits)
  qed
qed

section \<open>Unlinking a node\<close>

lemma rb_min_loop_rep:
  "rep F s (Node c l a k d r) fs \<Longrightarrow>
   \<exists>ms cy ay ky dy ry. Node c l a k d r = plug (Node cy Leaf ay ky dy ry) ms \<and>
     (\<forall>f\<in>set ms. \<exists>c a k d r. f = InL c a k d r) \<and>
     rb_min_loop s (Some a) = Some (Some ay)"
proof (induction l arbitrary: c a k d r fs)
  case Leaf
  from rep_deref [of F s c Leaf a k d r "[]" fs] Leaf
  have "rb_min_loop s (Some a) = Some (Some a)"
    by (subst rb_min_loop.simps) simp
  then show ?case
    by (intro exI [of _ "[]"] exI [of _ c] exI [of _ a] exI [of _ k] exI [of _ d] exI [of _ r]) simp
next
  case (Node c' l' a' k' d' r')
  have "rep F s (Node c' l' a' k' d' r') (InL c a k d r # fs)"
    using Node.prems by (simp add: rep_focus)
  from Node.IH(1) [OF this] obtain ms cy ay ky dy ry
    where m: "Node c' l' a' k' d' r' = plug (Node cy Leaf ay ky dy ry) ms"
      "\<forall>f\<in>set ms. \<exists>c a k d r. f = InL c a k d r" "rb_min_loop s (Some a') = Some (Some ay)"
    by blast
  from rep_deref [of F s c "Node c' l' a' k' d' r'" a k d r "[]" fs] Node.prems
  have "rb_min_loop s (Some a) = rb_min_loop s (Some a')"
    by (subst rb_min_loop.simps) simp
  with m show ?case
    by (intro exI [of _ "ms @ [InL c a k d r]"] exI [of _ cy] exI [of _ ay] exI [of _ ky]
        exI [of _ dy] exI [of _ ry]) (auto simp: plug_append)
qed

lemma InL_before: "\<forall>f\<in>set ms. \<exists>c a k d r. f = InL c a k d r \<Longrightarrow> ctx_before ms = []"
  by (induction ms) auto

lemma rb_transplant_child:
  assumes "rep F s (Node c l a k d r) fs" and "l = Leaf \<and> v = r \<or> r = Leaf \<and> v = l"
  shows "\<exists>s'. rb_transplant s (Some a) (root_ptr v) = Some s' \<and>
     rep (F(a \<mapsto> \<lparr>n_parent = ctx_ptr fs, n_left = root_ptr l, n_right = root_ptr r,
                  n_color = c, n_key = k, n_data = d\<rparr>)) s' v fs"
proof (cases fs)
  case Nil
  with assms show ?thesis
    by (cases v) (auto simp: rb_transplant_def heap_defs rep_def)
next
  case (Cons f gs)
  with assms show ?thesis
    by (cases v; cases f) (auto simp: rb_transplant_def heap_defs rep_def)
qed

lemma rb_take_place_child:
  assumes "rep F s (Node cz l az kz dz (Node cy Leaf ay ky dy ry)) fs" "l \<noteq> Leaf"
  shows "\<exists>s' zn. rb_take_place s (Some az) (Some ay) = Some s' \<and>
     n_key zn = kz \<and> n_data zn = dz \<and>
     rep (F(az \<mapsto> zn)) s' (Node cz l ay ky dy ry) fs"
proof -
  obtain c1 l1 a1 k1 d1 r1 where l: "l = Node c1 l1 a1 k1 d1 r1"
    using assms(2) by (cases l) auto
  show ?thesis
  proof (cases fs)
    case Nil
    with assms l show ?thesis
      by (simp add: rb_take_place_def rb_transplant_def heap_defs rep_def)
  next
    case (Cons f gs)
    with assms l show ?thesis
      by (cases f) (simp_all add: rb_take_place_def rb_transplant_def heap_defs rep_def)
  qed
qed

text \<open>The detached successor takes over the children and the place of \<open>z\<close>.\<close>

lemma rb_take_place_detached:
  assumes "rep F s (Node cz l az kz dz r) fs" "l \<noteq> Leaf" "r \<noteq> Leaf"
    and "F ay = Some \<lparr>n_parent = py, n_left = ly, n_right = ry, n_color = cy, n_key = ky, n_data = dy\<rparr>"
    and "ay \<notin> set (addrs (Node cz l az kz dz r))" "ay \<notin> set (ctx_addrs fs)"
  shows "\<exists>s' zn. do {
       zn \<leftarrow> deref s (Some az);
       s \<leftarrow> set_right s (Some ay) (n_right zn);
       yn \<leftarrow> deref s (Some ay);
       s \<leftarrow> set_parent s (n_right yn) (Some ay);
       rb_take_place s (Some az) (Some ay)
     } = Some s' \<and> n_key zn = kz \<and> n_data zn = dz \<and>
     rep (F(az \<mapsto> zn)) s' (Node cz l ay ky dy r) fs"
proof -
  obtain c1 l1 a1 k1 d1 r1 where l: "l = Node c1 l1 a1 k1 d1 r1"
    using assms(2) by (cases l) auto
  obtain c2 l2 a2 k2 d2 r2 where r: "r = Node c2 l2 a2 k2 d2 r2"
    using assms(3) by (cases r) auto
  have y: "nodes s ay = Some \<lparr>n_parent = py, n_left = ly, n_right = ry, n_color = cy,
      n_key = ky, n_data = dy\<rparr>"
    using assms(1,4,5,6) by (simp add: rep_def)
  from assms(1) have
      z: "nodes s az = Some \<lparr>n_parent = ctx_ptr fs, n_left = Some a1, n_right = Some a2,
        n_color = cz, n_key = kz, n_data = dz\<rparr>"
    and n1: "nodes s a1 = Some \<lparr>n_parent = Some az, n_left = root_ptr l1, n_right = root_ptr r1,
        n_color = c1, n_key = k1, n_data = d1\<rparr>"
    and n2: "nodes s a2 = Some \<lparr>n_parent = Some az, n_left = root_ptr l2, n_right = root_ptr r2,
        n_color = c2, n_key = k2, n_data = d2\<rparr>"
    and ctx: "rep_ctx (nodes s) (root s) (Some az) fs"
    and sub: "rep_tree (nodes s) (Some a1) l1" "rep_tree (nodes s) (Some a1) r1"
      "rep_tree (nodes s) (Some a2) l2" "rep_tree (nodes s) (Some a2) r2"
    and dist: "distinct (addrs (Node cz l az kz dz r) @ ctx_addrs fs)"
    and fr: "\<And>x. x \<notin> set (addrs (Node cz l az kz dz r)) \<Longrightarrow> x \<notin> set (ctx_addrs fs) \<Longrightarrow>
      nodes s x = F x"
    unfolding l r by (simp_all add: rep_def)
  from dist assms(5) have neq: "az \<noteq> a1" "az \<noteq> a2" "a1 \<noteq> a2" "ay \<noteq> az" "ay \<noteq> a1" "ay \<noteq> a2"
    by (auto simp: l r)
  have dist': "distinct (addrs l1)" "distinct (addrs r1)" "distinct (addrs l2)" "distinct (addrs r2)"
    "a1 \<notin> set (addrs l1)" "a1 \<notin> set (addrs r1)" "a1 \<notin> set (addrs l2)" "a1 \<notin> set (addrs r2)"
    "a2 \<notin> set (addrs l1)" "a2 \<notin> set (addrs r1)" "a2 \<notin> set (addrs l2)" "a2 \<notin> set (addrs r2)"
    "ay \<notin> set (addrs l1)" "ay \<notin> set (addrs r1)" "ay \<notin> set (addrs l2)" "ay \<notin> set (addrs r2)"
    using dist assms(5) by (auto simp: l r)
  show ?thesis
  proof (cases fs)
    case Nil
    then show ?thesis
      using z n1 n2 y neq dist' sub dist fr ctx
      by (simp add: rb_take_place_def rb_transplant_def heap_defs rep_def l r)
  next
    case (Cons f gs)
    show ?thesis
    proof (cases f)
      case (InL cp ap kp dp rp)
      note fs = Cons [unfolded InL]
      have p: "nodes s ap = Some \<lparr>n_parent = ctx_ptr gs, n_left = Some az, n_right = root_ptr rp,
          n_color = cp, n_key = kp, n_data = dp\<rparr>" "rep_tree (nodes s) (Some ap) rp"
        "rep_ctx (nodes s) (root s) (Some ap) gs"
        using ctx by (simp_all add: fs)
      have "ap \<noteq> az" "ap \<noteq> a1" "ap \<noteq> a2" "ap \<noteq> ay"
        using dist assms(6) by (auto simp: l r fs)
      then show ?thesis
        using z n1 n2 y neq dist' sub dist fr p assms(6)
        by (simp add: rb_take_place_def rb_transplant_def heap_defs rep_def l r fs)
    next
      case (InR cp lp ap kp dp)
      note fs = Cons [unfolded InR]
      have p: "nodes s ap = Some \<lparr>n_parent = ctx_ptr gs, n_left = root_ptr lp, n_right = Some az,
          n_color = cp, n_key = kp, n_data = dp\<rparr>" "rep_tree (nodes s) (Some ap) lp"
        "rep_ctx (nodes s) (root s) (Some ap) gs"
        using ctx by (simp_all add: fs)
      have "ap \<noteq> az" "ap \<noteq> a1" "ap \<noteq> a2" "ap \<noteq> ay" "az \<notin> set (addrs lp)"
        using dist assms(6) by (auto simp: l r fs)
      then show ?thesis
        using z n1 n2 y neq dist' sub dist fr p assms(6)
        by (simp add: rb_take_place_def rb_transplant_def heap_defs rep_def l r fs)
    qed
  qed
qed

section \<open>Deleting a key\<close>

lemma ctx_ok_relabel:
  "ctx_ok c h (ms @ InR cz l a k d # fs) = ctx_ok c h (ms @ InR cz l a' k' d' # fs)"
  by (induction ms arbitrary: c h) auto

lemma rep_frame_upd: "a \<in> set (addrs t) \<Longrightarrow> rep (F(a := v)) s t fs = rep F s t fs"
  by (auto simp: rep_def)

lemma ctx_addrs_append: "ctx_addrs (fs @ gs) = ctx_addrs fs @ ctx_addrs gs"
  by (induction fs) auto

lemma plug_Cons_neq_Leaf: "plug t (f # fs) \<noteq> Leaf"
proof (induction fs arbitrary: t f)
  case Nil
  then show ?case by (cases f) auto
next
  case (Cons g gs)
  then show ?case by simp
qed

text \<open>Removing a node that has at most one child keeps the invariant up to one black node.\<close>

lemma unlink_inv:
  assumes "invc (Node c l a k d r)" "invh (Node c l a k d r)"
    and ok: "ctx_ok c (bheight (Node c l a k d r)) fs"
    and "l = Leaf \<and> v = r \<or> r = Leaf \<and> v = l"
  shows "if c = BLACK then fix_inv v fs else rbt_inv (plug v fs)"
proof -
  have v: "invc v" "invh v" "bheight v = bheight l" "c = RED \<longrightarrow> color_of v = BLACK"
    using assms by auto
  show ?thesis
  proof (cases c)
    case BLACK
    with v ok show ?thesis by (simp add: fix_inv_def invc_paint)
  next
    case RED
    with v ok ctx_ok_BLACK show ?thesis by (simp add: rbt_inv_plug)
  qed
qed

definition unlinked ::
  "(nat \<rightharpoonup> 'd rb_node) \<Rightarrow> 'd rbt \<Rightarrow> 'd ctx \<Rightarrow> nat \<Rightarrow> 64 word \<Rightarrow> 'd \<Rightarrow>
   'd rb_store \<Rightarrow> ptr \<Rightarrow> ptr \<Rightarrow> rb_color \<Rightarrow> (64 word \<times> 'd) list \<Rightarrow> bool" where
  "unlinked F t fs az kz dz s' xp pp cy es \<longleftrightarrow>
     (\<exists>x xs zn. xp = root_ptr x \<and> pp = ctx_ptr xs \<and> rep (F(az \<mapsto> zn)) s' x xs \<and>
        n_key zn = kz \<and> n_data zn = dz \<and> entries (plug x xs) = es \<and>
        set (addrs (plug x xs)) = set (addrs (plug t fs)) - {az} \<and>
        (if cy = BLACK then fix_inv x xs else rbt_inv (plug x xs)))"

lemma rb_unlink_one_child:
  assumes r: "rep F s (Node cz l az kz dz r) fs"
    and inv: "rbt_inv (plug (Node cz l az kz dz r) fs)"
    and one: "l = Leaf \<or> r = Leaf"
  shows "\<exists>s' xp pp cy. rb_unlink s (Some az) = Some (s', xp, pp, cy) \<and>
     unlinked F (Node cz l az kz dz r) fs az kz dz s' xp pp cy
       (ctx_before fs @ entries l @ entries r @ ctx_after fs)"
proof -
  define v where "v = (if l = Leaf then r else l)"
  have c: "l = Leaf \<and> v = r \<or> r = Leaf \<and> v = l" using one by (auto simp: v_def)
  note D = rbt_inv_sub [OF inv]
  from rb_transplant_child [OF r c] obtain s' zn
    where s': "rb_transplant s (Some az) (root_ptr v) = Some s'"
      and r': "rep (F(az \<mapsto> zn)) s' v fs" and zn: "n_key zn = kz" "n_data zn = dz" by auto
  have d: "deref s (Some az) = Some \<lparr>n_parent = ctx_ptr fs, n_left = root_ptr l,
      n_right = root_ptr r, n_color = cz, n_key = kz, n_data = dz\<rparr>"
    using rep_deref [of F s cz l az kz dz r "[]" fs] r by simp
  have "rb_unlink s (Some az) = Some (s', root_ptr v, ctx_ptr fs, cz)"
    using s' d one by (auto simp: rb_unlink_def v_def)
  moreover have "if cz = BLACK then fix_inv v fs else rbt_inv (plug v fs)"
    by (rule unlink_inv [of cz l az kz dz r]) (use D c in auto)
  moreover have "entries (plug v fs) = ctx_before fs @ entries l @ entries r @ ctx_after fs"
    using one by (auto simp: entries_plug v_def)
  moreover have "set (addrs (plug v fs)) = set (addrs (plug (Node cz l az kz dz r) fs)) - {az}"
    using r c by (auto simp: rep_def set_addrs_plug)
  ultimately show ?thesis using r' zn unfolding unlinked_def by blast
qed

lemma rb_unlink_two_children:
  assumes r: "rep F s (Node cz l az kz dz r) fs"
    and inv: "rbt_inv (plug (Node cz l az kz dz r) fs)"
    and two: "l \<noteq> Leaf" "r \<noteq> Leaf"
  shows "\<exists>s' xp pp cy. rb_unlink s (Some az) = Some (s', xp, pp, cy) \<and>
     unlinked F (Node cz l az kz dz r) fs az kz dz s' xp pp cy
       (ctx_before fs @ entries l @ entries r @ ctx_after fs)"
proof -
  from two obtain c2 l2 a2 k2 d2 r2 where rn: "r = Node c2 l2 a2 k2 d2 r2" by (cases r) auto
  have "rep F s r (InR cz l az kz dz # fs)" using r by (simp add: rep_focus)
  from rb_min_loop_rep [OF this [unfolded rn]] obtain ms cy ay ky dy ry
    where rm': "Node c2 l2 a2 k2 d2 r2 = plug (Node cy Leaf ay ky dy ry) ms"
      and ms: "\<forall>f\<in>set ms. \<exists>c a k d r. f = InL c a k d r"
      and mn': "rb_min_loop s (Some a2) = Some (Some ay)" by blast
  from mn' have mn: "rb_min_loop s (root_ptr r) = Some (Some ay)" by (simp add: rn)
  have rm: "r = plug (Node cy Leaf ay ky dy ry) ms" by (rule trans [OF rn rm'])
  let ?y = "Node cy Leaf ay ky dy ry" and ?xs = "ms @ InR cz l ay ky dy # fs"
  have ry: "rep F s ?y (ms @ InR cz l az kz dz # fs)"
    using r unfolding rep_focus_append rm by (simp add: rep_focus)
  have D: "invc ?y" "invh ?y" "ctx_ok cy (bheight ?y) ?xs"
    using rbt_inv_sub [of ?y "ms @ InR cz l az kz dz # fs"] inv
      ctx_ok_relabel [of cy "bheight ?y" ms cz l az kz dz fs ay ky dy]
    by (simp_all add: plug_append rm)
  have I: "if cy = BLACK then fix_inv ry ?xs else rbt_inv (plug ry ?xs)"
    by (rule unlink_inv [OF D]) simp
  have E: "entries (plug ry ?xs) = ctx_before fs @ entries l @ entries r @ ctx_after fs"
    using InL_before [OF ms] by (simp add: plug_append entries_plug rm)
  have A: "set (addrs (plug ry ?xs)) = set (addrs (plug (Node cz l az kz dz r) fs)) - {az}"
    using ry unfolding rep_def
    by (auto simp: set_addrs_plug plug_append rm ctx_addrs_append)
  have dz: "deref s (Some az) = Some \<lparr>n_parent = ctx_ptr fs, n_left = root_ptr l,
      n_right = root_ptr r, n_color = cz, n_key = kz, n_data = dz\<rparr>"
    using rep_deref [of F s cz l az kz dz r "[]" fs] r by simp
  have dy: "deref s (Some ay) = Some \<lparr>n_parent = ctx_ptr (ms @ InR cz l az kz dz # fs),
      n_left = None, n_right = root_ptr ry, n_color = cy, n_key = ky, n_data = dy\<rparr>"
    using rep_deref [of F s cy Leaf ay ky dy ry "[]"] ry by simp
  show ?thesis
  proof (cases ms)
    case Nil
    from rb_take_place_child [OF r [unfolded rm Nil plug.simps] two(1)] obtain s' zn
      where s': "rb_take_place s (Some az) (Some ay) = Some s'"
        and zn: "n_key zn = kz" "n_data zn = dz" and "rep (F(az \<mapsto> zn)) s' (Node cz l ay ky dy ry) fs"
      by blast
    then have "rep (F(az \<mapsto> zn)) s' ry ?xs" by (simp add: Nil rep_focus)
    moreover have "rb_unlink s (Some az) = Some (s', root_ptr ry, ctx_ptr ?xs, cy)"
      using dz dy mn s' two by (simp add: rb_unlink_def rb_min_def Nil)
    ultimately show ?thesis using zn I E A unfolding unlinked_def by blast
  next
    case (Cons m ms')
    have fresh: "ay \<notin> set (addrs ry)" "ay \<notin> set (ctx_addrs (ms @ InR cz l az kz dz # fs))"
      "faddr m \<noteq> az"
      using ry by (auto simp: rep_def Cons ctx_addrs_append)
    from rb_transplant_child [OF ry, of ry] obtain s1 py
      where s1: "rb_transplant s (Some ay) (root_ptr ry) = Some s1"
        and "rep (F(ay \<mapsto> \<lparr>n_parent = py, n_left = None, n_right = root_ptr ry, n_color = cy,
          n_key = ky, n_data = dy\<rparr>)) s1 ry (ms @ InR cz l az kz dz # fs)" by auto
    then have r1: "rep (F(ay \<mapsto> \<lparr>n_parent = py, n_left = None, n_right = root_ptr ry, n_color = cy,
          n_key = ky, n_data = dy\<rparr>)) s1 (Node cz l az kz dz (plug ry ms)) fs"
      by (simp add: rep_focus_append rep_focus)
    have ne: "plug ry ms \<noteq> Leaf" by (simp only: Cons plug_Cons_neq_Leaf not_False_eq_True)
    have out: "ay \<notin> set (addrs (Node cz l az kz dz (plug ry ms)))" "ay \<notin> set (ctx_addrs fs)"
      using fresh by (auto simp: set_addrs_plug ctx_addrs_append)
    from rb_take_place_detached [OF r1 two(1) ne fun_upd_same out] obtain s' zn
      where s': "do {
          zn \<leftarrow> deref s1 (Some az);
          s \<leftarrow> set_right s1 (Some ay) (n_right zn);
          yn \<leftarrow> deref s (Some ay);
          s \<leftarrow> set_parent s (n_right yn) (Some ay);
          rb_take_place s (Some az) (Some ay) } = Some s'"
        and zn: "n_key zn = kz" "n_data zn = dz"
        and "rep (F(ay \<mapsto> \<lparr>n_parent = py, n_left = None, n_right = root_ptr ry, n_color = cy,
          n_key = ky, n_data = dy\<rparr>, az \<mapsto> zn)) s' (Node cz l ay ky dy (plug ry ms)) fs"
      by blast
    then have "rep (F(az \<mapsto> zn)) s' (plug ry ms) (InR cz l ay ky dy # fs)"
      using fresh by (simp add: fun_upd_twist rep_frame_upd rep_focus ctx_addrs_append)
    then have "rep (F(az \<mapsto> zn)) s' ry ?xs" by (simp add: rep_focus_append)
    moreover have "rb_unlink s (Some az) = Some (s', root_ptr ry, ctx_ptr ?xs, cy)"
      using dz dy mn s1 s' two fresh(3)
      by (auto simp: rb_unlink_def rb_min_def rb_leave_place_def Cons bind_eq_Some_conv)
    ultimately show ?thesis using zn I E A unfolding unlinked_def by blast
  qed
qed


lemma rb_unlink_rep:
  assumes "rep F s (Node cz l az kz dz r) fs" "rbt_inv (plug (Node cz l az kz dz r) fs)"
  shows "\<exists>s' xp pp cy. rb_unlink s (Some az) = Some (s', xp, pp, cy) \<and>
     unlinked F (Node cz l az kz dz r) fs az kz dz s' xp pp cy
       (ctx_before fs @ entries l @ entries r @ ctx_after fs)"
  using rb_unlink_one_child [OF assms] rb_unlink_two_children [OF assms]
  by (cases "l = Leaf \<or> r = Leaf") auto

lemma rb_delete_absent:
  assumes "rep F s t []" "skeys (entries t)" "map_of (entries t) k = None"
  shows "rb_delete s k = Some (s, None)"
proof -
  obtain t' fs' where d: "descend k t [] = (t', fs')" by (cases "descend k t []")
  have "t' = Leaf"
  proof (cases t')
    case (Node c l a k' d' r)
    with descend_found(2) [OF assms(2), of k] d assms(3) show ?thesis by simp
  qed
  with rb_search_loop_rep [OF assms(1) d] assms(1) show ?thesis
    by (simp add: rb_delete_def rb_search_def rep_def)
qed

lemma rb_delete_present:
  assumes r: "rep F s t []" and inv: "rbt_inv t" and sk: "skeys (entries t)"
    and k: "map_of (entries t) k = Some d"
  shows "\<exists>s' t' a zn. rb_delete s k = Some (s', Some a) \<and> a \<in> set (addrs t) \<and>
     n_key zn = k \<and> n_data zn = d \<and> rep (F(a \<mapsto> zn)) s' t' [] \<and> rbt_inv t' \<and>
     entries t' = del_entry k (entries t) \<and> set (addrs t') = set (addrs t) - {a}"
proof -
  obtain t0 fs where d: "descend k t [] = (t0, fs)" by (cases "descend k t []")
  have "t0 \<noteq> Leaf"
  proof
    assume "t0 = Leaf"
    with descend_ins(2) [OF sk, of k fs] d have "k \<notin> fst ` set (entries t)" by simp
    with k show False by (force dest!: map_of_SomeD)
  qed
  then obtain c l a k' d' x where t0: "t0 = Node c l a k' d' x" by (cases t0) auto
  note d = d [unfolded t0]
  have k': "k' = k" by (rule descend_key [OF d])
  have d': "d' = d" using descend_found(2) [OF sk d] k by simp
  have p: "plug (Node c l a k d x) fs = t" using descend_plug [OF d] by (simp add: k' d')
  from rb_search_loop_rep [OF r d] r have z: "rb_search s k = Some (Some a)"
    and rz: "rep F s (Node c l a k d x) fs"
    by (simp_all add: rb_search_def rep_def k' d')
  from rb_unlink_rep [OF rz] inv p obtain s1 xp pp cy
    where u: "rb_unlink s (Some a) = Some (s1, xp, pp, cy)"
      and U: "unlinked F (Node c l a k d x) fs a k d s1 xp pp cy (del_entry k (entries t))"
    using descend_found(1) [OF sk d] by auto
  from U obtain y ys zn where Y: "xp = root_ptr y" "pp = ctx_ptr ys" "rep (F(a \<mapsto> zn)) s1 y ys"
      "n_key zn = k" "n_data zn = d" "entries (plug y ys) = del_entry k (entries t)"
      "set (addrs (plug y ys)) = set (addrs t) - {a}"
      "if cy = BLACK then fix_inv y ys else rbt_inv (plug y ys)"
    unfolding unlinked_def p by blast
  have a: "a \<in> set (addrs t)" using p set_addrs_plug [of "Node c l a k d x" fs] by auto
  show ?thesis
  proof (cases cy)
    case BLACK
    with rb_delete_fixup_rep [OF Y(3)] Y(8) obtain s2 t'
      where "rb_delete_fixup s1 xp pp = Some s2" "rep (F(a \<mapsto> zn)) s2 t' []" "rbt_inv t'"
        "same_tree (plug y ys) t'" by (auto simp: Y(1,2))
    with BLACK z u a Y show ?thesis
      by (auto simp: rb_delete_def same_tree_def)
  next
    case RED
    then have "rb_delete s k = Some (s1, Some a)" using z u by (simp add: rb_delete_def)
    moreover have "rep (F(a \<mapsto> zn)) s1 (plug y ys) []" using Y(3) by (subst (asm) rep_plug)
    ultimately show ?thesis using RED a Y by auto
  qed
qed

text \<open>Freeing the node that \<^verbatim>\<open>rb_delete\<close> returns gives the frame back.\<close>

lemma rep_free:
  assumes "rep (F(a \<mapsto> n)) s t []" "a \<notin> set (addrs t)" "F a = None"
  shows "rep F (s\<lparr>nodes := (nodes s)(a := None)\<rparr>) t []"
  using assms by (auto simp: rep_def)

section \<open>Linking a new node\<close>

fun link_of :: "'d ctx \<Rightarrow> rb_link" where
  "link_of [] = RootLink"
| "link_of (InL c a k d r # fs) = LeftLink (Some a)"
| "link_of (InR c l a k d # fs) = RightLink (Some a)"

lemma rb_link_node_rep:
  assumes "rep F s Leaf fs" and "a \<notin> set (ctx_addrs fs)"
    and "nodes s a = Some \<lparr>n_parent = p0, n_left = l0, n_right = r0, n_color = RED,
      n_key = k, n_data = d\<rparr>"
  shows "\<exists>s'. rb_link_node s (Some a) (ctx_ptr fs) (link_of fs) = Some s' \<and>
     rep F s' (Node RED Leaf a k d Leaf) fs"
proof (cases fs)
  case Nil
  with assms show ?thesis
    by (auto simp: rb_link_node_def set_link_def heap_defs rep_def)
next
  case (Cons f gs)
  with assms show ?thesis
    by (cases f) (auto simp: rb_link_node_def set_link_def heap_defs rep_def)
qed

end
