(* ===== verification/Rb_Index.thy ===== *)
theory Rb_Index
  imports Rb_Delete
begin

text \<open>
  The red-black tree as the ordered index the tool uses it for. The insertion by descent,
  linking and recolouring that \<^verbatim>\<open>insert_block_rb\<close> performs, the look-up of the nearest key
  below, and the removal followed by the release of the detached node are the operations
  of the interface \<open>ordered_index\<close>; its laws are discharged from the pointer-level proofs
  and its client lemmas are what the block tracking rests on.
\<close>

section \<open>The operations of the index\<close>

text \<open>
  The loop of \<^verbatim>\<open>insert_block_rb\<close>: it follows the link to be overwritten and its parent.
  \<open>Some None\<close> is the early return on a key that is present.
\<close>

partial_function (option) insert_block_loop ::
  "'d rb_store \<Rightarrow> 64 word \<Rightarrow> rb_link \<Rightarrow> ptr \<Rightarrow> (ptr \<times> rb_link) option option" where
  "insert_block_loop s k linkp par = do {
     p \<leftarrow> get_link s linkp;
     if p = None then Some (Some (par, linkp))
     else do {
       n \<leftarrow> deref s p;
       if k < n_key n then insert_block_loop s k (LeftLink p) p
       else if n_key n < k then insert_block_loop s k (RightLink p) p
       else Some None
     }
   }"

text \<open>
  The whole of \<^verbatim>\<open>insert_block_rb\<close> for a key and a data pointer; \<open>a\<close> is the address that
  \<^verbatim>\<open>VG_(malloc)\<close> gives for the new node.
\<close>

definition index_insert :: "'d rb_store \<Rightarrow> 64 word \<Rightarrow> 'd \<Rightarrow> nat \<Rightarrow> 'd rb_store option" where
  "index_insert s k d a = do {
     r \<leftarrow> insert_block_loop s k RootLink None;
     case r of
       None \<Rightarrow> Some s
     | Some (par, linkp) \<Rightarrow> do {
         s \<leftarrow> Some (s\<lparr>nodes := (nodes s)(a \<mapsto>
            \<lparr>n_parent = None, n_left = None, n_right = None, n_color = RED,
             n_key = k, n_data = d\<rparr>)\<rparr>);
         s \<leftarrow> rb_link_node s (Some a) par linkp;
         rb_insert_color s (Some a)
       }
   }"

text \<open>The data of the node that \<^verbatim>\<open>rb_search_leq\<close> returns.\<close>

definition index_leq :: "'d rb_store \<Rightarrow> 64 word \<Rightarrow> 'd option option" where
  "index_leq s k = do {
     n \<leftarrow> rb_search_leq s k;
     if n = None then Some None else map_option (Some \<circ> n_data) (deref s n)
   }"

text \<open>\<^verbatim>\<open>rb_delete\<close>, and \<^verbatim>\<open>VG_(free)\<close> of the node it hands back.\<close>

definition free_node :: "'d rb_store \<Rightarrow> nat \<Rightarrow> 'd rb_store" where
  "free_node s a = s\<lparr>nodes := (nodes s)(a := None)\<rparr>"

definition index_delete :: "'d rb_store \<Rightarrow> 64 word \<Rightarrow> 'd rb_store option" where
  "index_delete s k = do {
     (s, deleted) \<leftarrow> rb_delete s k;
     Some (case deleted of None \<Rightarrow> s | Some a \<Rightarrow> free_node s a)
   }"

text \<open>
  A store holds the entries \<open>es\<close> when its nodes, and no others, form a red-black tree with
  strictly increasing keys whose in-order traversal is \<open>es\<close>.
\<close>

definition rb_index :: "'d rb_store \<Rightarrow> (64 word \<times> 'd) list \<Rightarrow> bool" where
  "rb_index s es \<longleftrightarrow>
     (\<exists>t. rep Map.empty s t [] \<and> rbt_inv t \<and> skeys (entries t) \<and> entries t = es)"

declare insert_block_loop.simps [code]

section \<open>The interface\<close>

text \<open>
  What a client of the index relies on: each operation returns on a store that holds
  entries, insertion never overwrites, the look-up gives the entry of the largest key not
  above the given one, and removal removes exactly the key.
\<close>

locale ordered_index =
  fixes holds :: "'h \<Rightarrow> ('k::linorder \<times> 'd) list \<Rightarrow> bool"
    and avail :: "'h \<Rightarrow> nat \<Rightarrow> bool"
    and ins :: "'h \<Rightarrow> 'k \<Rightarrow> 'd \<Rightarrow> nat \<Rightarrow> 'h option"
    and leq :: "'h \<Rightarrow> 'k \<Rightarrow> 'd option option"
    and del :: "'h \<Rightarrow> 'k \<Rightarrow> 'h option"
  assumes holds_sorted: "holds h es \<Longrightarrow> skeys es"
    and ins_law: "holds h es \<Longrightarrow> avail h a \<Longrightarrow>
      \<exists>h'. ins h k d a = Some h' \<and> holds h' (ins_entry k d es)"
    and leq_law: "holds h es \<Longrightarrow> leq h k = Some (map_option snd (leq_entry k es))"
    and del_law: "holds h es \<Longrightarrow> \<exists>h'. del h k = Some h' \<and> holds h' (del_entry k es)"
begin

lemma leq_after_ins:
  assumes "holds h es" "avail h a" "k \<notin> fst ` set es"
  shows "\<exists>h'. ins h k d a = Some h' \<and> leq h' k = Some (Some d)"
proof -
  obtain h' where h': "ins h k d a = Some h'" "holds h' (ins_entry k d es)"
    using ins_law assms(1,2) by blast
  have "leq_entry k (ins_entry k d es) = Some (k, d)"
    using assms holds_sorted [OF assms(1)] holds_sorted [OF h'(2)]
    by (simp add: leq_entry_Some set_ins_entry)
  with h' leq_law [OF h'(2)] show ?thesis by simp
qed

lemma ins_present:
  assumes "holds h es" "avail h a" "k \<in> fst ` set es"
  shows "\<exists>h'. ins h k d a = Some h' \<and> holds h' es"
proof -
  have "ins_entry k d es = es"
    using holds_sorted [OF assms(1)] assms(3)
  proof (induction es)
    case (Cons e es)
    then have "fst e < k" if "k \<in> fst ` set es" using that by auto
    with Cons show ?case by (cases e) auto
  qed simp
  with ins_law [OF assms(1,2)] show ?thesis by metis
qed

end

section \<open>The laws on the pointer structure\<close>

lemma get_link_of: "rep F s t fs \<Longrightarrow> get_link s (link_of fs) = Some (root_ptr t)"
proof (cases fs)
  case (Cons f gs)
  then show "rep F s t fs \<Longrightarrow> ?thesis"
    by (cases f) (auto simp: rep_def get_link_def deref_def)
qed (simp add: rep_def get_link_def)

lemma insert_block_loop_rep:
  "rep F s t fs \<Longrightarrow> descend k t fs = (t', fs') \<Longrightarrow>
   insert_block_loop s k (link_of fs) (ctx_ptr fs) =
     Some (if t' = Leaf then Some (ctx_ptr fs', link_of fs') else None) \<and> rep F s t' fs'"
proof (induction k t fs rule: descend.induct)
  case (1 k fs)
  then show ?case
    by (subst insert_block_loop.simps) (auto simp: get_link_of)
next
  case (2 k c l a k' d r fs)
  have d: "deref s (Some a) = Some \<lparr>n_parent = ctx_ptr fs, n_left = root_ptr l,
      n_right = root_ptr r, n_color = c, n_key = k', n_data = d\<rparr>"
    using rep_deref [of F s c l a k' d r "[]" fs] "2.prems"(1) by simp
  have g: "get_link s (link_of fs) = Some (Some a)"
    using get_link_of [OF "2.prems"(1)] by simp
  have lr: "rep F s l (InL c a k' d r # fs)" "rep F s r (InR c l a k' d # fs)"
    using "2.prems"(1) by (simp_all add: rep_focus)
  have "insert_block_loop s k (link_of fs) (ctx_ptr fs) =
      (if k < k' then insert_block_loop s k (LeftLink (Some a)) (Some a)
       else if k' < k then insert_block_loop s k (RightLink (Some a)) (Some a)
       else Some None)"
    by (subst insert_block_loop.simps) (simp add: g d)
  with 2 lr show ?case by (auto split: if_splits)
qed

lemma rep_tree_alloc:
  "a \<in> set (addrs t) \<Longrightarrow> rep_tree h p t \<Longrightarrow> \<exists>n. h a = Some n"
  by (induction t arbitrary: p) auto

lemma rep_ctx_alloc:
  "a \<in> set (ctx_addrs fs) \<Longrightarrow> rep_ctx h r q fs \<Longrightarrow> \<exists>n. h a = Some n"
proof (induction fs arbitrary: q)
  case (Cons f fs)
  then show ?case by (cases f) (auto dest: rep_tree_alloc)
qed simp

lemma rep_alloc:
  assumes "rep F s t fs" "nodes s a = None"
  shows "rep (F(a \<mapsto> n)) (s\<lparr>nodes := (nodes s)(a \<mapsto> n)\<rparr>) t fs" and "a \<notin> set (ctx_addrs fs)"
proof -
  show "a \<notin> set (ctx_addrs fs)"
    using assms rep_ctx_alloc by (force simp: rep_def)
  moreover have "a \<notin> set (addrs t)"
    using assms rep_tree_alloc by (force simp: rep_def)
  ultimately show "rep (F(a \<mapsto> n)) (s\<lparr>nodes := (nodes s)(a \<mapsto> n)\<rparr>) t fs"
    using assms by (auto simp: rep_def rep_tree_upd rep_ctx_upd)
qed

lemma rep_frame: "rep (F(a \<mapsto> n)) s t fs \<Longrightarrow> a \<in> set (addrs t) \<Longrightarrow> rep F s t fs"
  by (auto simp: rep_def)

lemma rb_index_sorted: "rb_index s es \<Longrightarrow> skeys es"
  by (auto simp: rb_index_def)

lemma index_insert_law:
  assumes "rb_index s es" "nodes s a = None"
  shows "\<exists>s'. index_insert s k d a = Some s' \<and> rb_index s' (ins_entry k d es)"
proof -
  obtain t where t: "rep Map.empty s t []" "rbt_inv t" "skeys (entries t)" "entries t = es"
    using assms(1) by (auto simp: rb_index_def)
  obtain t' fs where ds: "descend k t [] = (t', fs)" by (cases "descend k t []")
  from insert_block_loop_rep [OF t(1) ds]
  have lp: "insert_block_loop s k RootLink None =
      Some (if t' = Leaf then Some (ctx_ptr fs, link_of fs) else None)"
    and r: "rep Map.empty s t' fs" by simp_all
  show ?thesis
  proof (cases t')
    case (Node c l b k' d' x)
    with descend_found(3) [OF t(3), of k c l b k' d' x fs d] ds lp t show ?thesis
      by (auto simp: index_insert_def rb_index_def)
  next
    case Leaf
    define n where "n = \<lparr>n_parent = None, n_left = None, n_right = None, n_color = RED,
      n_key = k, n_data = d\<rparr>"
    define s0 where "s0 = s\<lparr>nodes := (nodes s)(a \<mapsto> n)\<rparr>"
    have r0: "rep (Map.empty(a \<mapsto> n)) s0 Leaf fs" and fr: "a \<notin> set (ctx_addrs fs)"
      using rep_alloc [OF r assms(2)] Leaf by (simp_all add: s0_def)
    from rb_link_node_rep [OF r0 fr] obtain s1
      where s1: "rb_link_node s0 (Some a) (ctx_ptr fs) (link_of fs) = Some s1"
        "rep (Map.empty(a \<mapsto> n)) s1 (Node RED Leaf a k d Leaf) fs"
      by (auto simp: s0_def n_def)
    have "plug Leaf fs = t" using descend_plug [OF ds] Leaf by simp
    with t(2) rbt_inv_sub [of Leaf fs] have "ctx_ok BLACK 0 fs" by simp
    from rb_insert_color_rep [OF s1(2) this] obtain s2 t2
      where s2: "rb_insert_color s1 (Some a) = Some s2" "rep (Map.empty(a \<mapsto> n)) s2 t2 []"
        "rbt_inv t2" "entries t2 = entries (plug (Node RED Leaf a k d Leaf) fs)"
        "set (addrs t2) = set (addrs (plug (Node RED Leaf a k d Leaf) fs))"
      by blast
    have "rep Map.empty s2 t2 []"
      using rep_frame [OF s2(2)] s2(5) by (simp add: set_addrs_plug)
    moreover have e: "entries t2 = ins_entry k d es"
      using descend_ins(1) [OF t(3), of k fs d RED a] ds Leaf s2(4) t(4) by simp
    moreover have "skeys (entries t2)" using t(3,4) e by (simp add: skeys_ins_entry)
    ultimately show ?thesis
      using lp s1(1) s2(1,3) Leaf
      by (auto simp: index_insert_def rb_index_def s0_def n_def)
  qed
qed

lemma index_leq_law:
  assumes "rb_index s es"
  shows "index_leq s k = Some (map_option snd (leq_entry k es))"
proof -
  obtain t where t: "rep Map.empty s t []" "skeys (entries t)" "entries t = es"
    using assms by (auto simp: rb_index_def)
  then have rt: "rep_tree (nodes s) None t" and rr: "root s = root_ptr t"
    by (simp_all add: rep_def)
  from rb_search_leq_loop_rep [OF rt] rr
  have "rb_search_leq s k = Some (leq_ptr k t None)"
    by (simp add: rb_search_leq_def)
  with leq_ptr_entry [OF rt t(2), of k None] t(3) show ?thesis
    by (auto simp: index_leq_def deref_def split: option.splits)
qed

lemma index_delete_law:
  assumes "rb_index s es"
  shows "\<exists>s'. index_delete s k = Some s' \<and> rb_index s' (del_entry k es)"
proof -
  obtain t where t: "rep Map.empty s t []" "rbt_inv t" "skeys (entries t)" "entries t = es"
    using assms by (auto simp: rb_index_def)
  show ?thesis
  proof (cases "map_of (entries t) k")
    case None
    then have "del_entry k es = es"
      using t(4) by (simp add: del_entry_absent map_of_eq_None_iff)
    with rb_delete_absent [OF t(1,3) None] assms show ?thesis
      by (simp add: index_delete_def)
  next
    case (Some d)
    from rb_delete_present [OF t(1-3) Some] obtain s' t' a zn
      where d: "rb_delete s k = Some (s', Some a)" "rep (Map.empty(a \<mapsto> zn)) s' t' []"
        "rbt_inv t'" "entries t' = del_entry k (entries t)" "a \<notin> set (addrs t')"
      by auto
    from rep_free [OF d(2,5)] have "rep Map.empty (free_node s' a) t' []"
      by (simp add: free_node_def)
    with d t show ?thesis
      by (auto simp: index_delete_def rb_index_def skeys_del_entry)
  qed
qed

interpretation rbi: ordered_index rb_index "\<lambda>s a. nodes s a = None"
    index_insert index_leq index_delete
  by unfold_locales
    (simp_all add: index_insert_law index_leq_law index_delete_law rb_index_sorted)

section \<open>Runs of the index\<close>

datatype 'd index_op = IndexInsert "64 word" 'd nat | IndexDelete "64 word"

fun index_step :: "'d rb_store \<Rightarrow> 'd index_op \<Rightarrow> 'd rb_store option" where
  "index_step s (IndexInsert k d a) = index_insert s k d a"
| "index_step s (IndexDelete k) = index_delete s k"

fun index_spec :: "(64 word \<times> 'd) list \<Rightarrow> 'd index_op \<Rightarrow> (64 word \<times> 'd) list" where
  "index_spec es (IndexInsert k d a) = ins_entry k d es"
| "index_spec es (IndexDelete k) = del_entry k es"

text \<open>\<^verbatim>\<open>VG_(malloc)\<close> gives an address that is not in use.\<close>

fun index_fresh :: "'d rb_store \<Rightarrow> 'd index_op \<Rightarrow> bool" where
  "index_fresh s (IndexInsert k d a) = (nodes s a = None)"
| "index_fresh s (IndexDelete k) = True"

interpretation rbr: simulation index_step index_spec rb_index index_fresh
proof
  show "rb_index s es \<Longrightarrow> index_fresh s x \<Longrightarrow>
    \<exists>s'. index_step s x = Some s' \<and> rb_index s' (index_spec es x)" for s es and x :: "'d index_op"
    by (cases x) (auto intro: rbi.ins_law rbi.del_law)
qed

lemma rb_index_empty: "rb_index RB_ROOT []"
  unfolding rb_index_def
  by (rule exI [of _ Leaf]) (simp add: rep_def RB_ROOT_def rbt_inv_def)

lemma rb_index_card: "rb_index s es \<Longrightarrow> finite (dom (nodes s)) \<and> card (dom (nodes s)) = length es"
proof -
  assume "rb_index s es"
  then obtain t where t: "rep Map.empty s t []" "entries t = es" by (auto simp: rb_index_def)
  have len: "length (addrs u) = length (entries u)" for u :: "'a rbt"
    by (induction u) auto
  have "dom (nodes s) = set (addrs t)"
    using t(1) rep_tree_alloc by (fastforce simp: rep_def)
  with t len [of t] show ?thesis by (simp add: rep_def distinct_card)
qed

text \<open>A small concrete run, the input of the evaluated instances below.\<close>

definition sample_ops :: "char index_op list" where
  "sample_ops = [IndexInsert 5 CHR ''a'' 1, IndexInsert 3 CHR ''b'' 2, IndexInsert 1 CHR ''c'' 3,
     IndexDelete 3, IndexInsert 9 CHR ''d'' 2, IndexInsert 7 CHR ''e'' 4]"

definition sample_store :: "char rb_store" where
  "sample_store = the (run_ops index_step RB_ROOT sample_ops)"

lemma sample_run_ok: "run_ok index_step index_fresh RB_ROOT sample_ops"
  by code_simp

lemma sample_spec:
  "foldl index_spec [] sample_ops = [(1, CHR ''c''), (5, CHR ''a''), (7, CHR ''e''), (9, CHR ''d'')]"
  by (simp add: sample_ops_def)

lemma sample_index:
  "rb_index sample_store [(1, CHR ''c''), (5, CHR ''a''), (7, CHR ''e''), (9, CHR ''d'')]"
  using rbr.run_sim [OF rb_index_empty sample_run_ok]
  by (auto simp: sample_store_def sample_spec)

section \<open>The cost of a search\<close>

text \<open>The search loops with at most \<open>n\<close> iterations: no result when the bound is reached.\<close>

fun leq_within :: "nat \<Rightarrow> 'd rb_store \<Rightarrow> ptr \<Rightarrow> ptr \<Rightarrow> 64 word \<Rightarrow> ptr option" where
  "leq_within n s None best k = Some best"
| "leq_within 0 s (Some a) best k = None"
| "leq_within (Suc n) s (Some a) best k = do {
     nn \<leftarrow> deref s (Some a);
     if n_key nn \<le> k then leq_within n s (n_right nn) (Some a) k else leq_within n s (n_left nn) best k
   }"

fun search_within :: "nat \<Rightarrow> 'd rb_store \<Rightarrow> ptr \<Rightarrow> 64 word \<Rightarrow> ptr option" where
  "search_within n s None k = Some None"
| "search_within 0 s (Some a) k = None"
| "search_within (Suc n) s (Some a) k = do {
     nn \<leftarrow> deref s (Some a);
     if n_key nn = k then Some (Some a)
     else if k < n_key nn then search_within n s (n_left nn) k else search_within n s (n_right nn) k
   }"

lemma leq_within_height:
  "rep_tree (nodes s) p t \<Longrightarrow> theight t \<le> n \<Longrightarrow> leq_within n s (root_ptr t) best k = Some (leq_ptr k t best)"
proof (induction t arbitrary: p best n)
  case (Node c l a k' d r)
  then obtain m where "n = Suc m" by (cases n) auto
  with Node show ?case by (auto simp: deref_def)
qed simp

lemma search_within_height:
  "rep_tree (nodes s) p t \<Longrightarrow> theight t \<le> n \<Longrightarrow>
   search_within n s (root_ptr t) k = rb_search_loop s (root_ptr t) k \<and> rb_search_loop s (root_ptr t) k \<noteq> None"
proof (induction t arbitrary: p n)
  case Leaf
  then show ?case by (simp add: rb_search_loop.simps)
next
  case (Node c l a k' d r)
  then obtain m where n: "n = Suc m" "theight l \<le> m" "theight r \<le> m" by (cases n) auto
  from Node.prems(1) have l: "rep_tree (nodes s) (Some a) l" and r: "rep_tree (nodes s) (Some a) r"
    and a: "\<exists>nn. nodes s a = Some nn \<and> n_key nn = k' \<and> n_left nn = root_ptr l \<and> n_right nn = root_ptr r"
    by auto
  from Node.IH(1) [OF l n(2)] Node.IH(2) [OF r n(3)] a show ?case
    by (subst (1 2) rb_search_loop.simps) (auto simp: deref_def n(1))
qed

section \<open>Properties\<close>

text \<open>
  C8. Any sequence of insertions and removals on the empty tree runs to its end: no \<^verbatim>\<open>NULL\<close>
  or dangling node is dereferenced and every loop ends, provided only that the allocator
  hands out addresses that are not in use. The final store is a red-black tree whose
  in-order traversal is what the same operations give on a sorted association list, and
  the nearest-below look-up answers from that list.
\<close>

theorem rb_index_run:
  assumes "run_ok index_step index_fresh RB_ROOT ops"
  shows "\<exists>s. run_ops index_step RB_ROOT ops = Some s \<and> rb_index s (foldl index_spec [] ops) \<and>
     (\<forall>k. index_leq s k = Some (map_option snd (leq_entry k (foldl index_spec [] ops))))"
  using rbr.run_sim [OF rb_index_empty assms] rbi.leq_law by blast

theorem rb_index_run_witness:
  "\<exists>s. run_ops index_step RB_ROOT sample_ops = Some s \<and> index_leq s 6 = Some (Some CHR ''a'')"
  using rb_index_run [OF sample_run_ok] by (auto simp: sample_spec)

text \<open>
  C9. Inserting into a tree that holds the entries \<open>es\<close> succeeds and adds the entry in order,
  or changes nothing when the key is there; in both cases the store afterwards has exactly
  one node per entry, so the insertion neither loses nor leaks a node.
\<close>

theorem rb_insert_correct:
  assumes "rb_index s es" "nodes s a = None"
  shows "\<exists>s'. index_insert s k d a = Some s' \<and> rb_index s' (ins_entry k d es) \<and>
     card (dom (nodes s')) = length (ins_entry k d es)"
  using rbi.ins_law [OF assms] rb_index_card by blast

theorem rb_insert_correct_witness:
  "\<exists>s'. index_insert sample_store 6 CHR ''z'' 9 = Some s' \<and>
     rb_index s' [(1, CHR ''c''), (5, CHR ''a''), (6, CHR ''z''), (7, CHR ''e''), (9, CHR ''d'')]"
proof -
  have "nodes sample_store 9 = None" by code_simp
  from rb_insert_correct [OF sample_index this, of 6 "CHR ''z''"] show ?thesis by auto
qed

text \<open>
  C10. \<^verbatim>\<open>rb_delete\<close> returns \<^verbatim>\<open>NULL\<close> and leaves the tree as it is when the key is absent. When it
  is present it returns the very node that holds the key and its data, detached: after that
  node is released the store is a red-black tree with exactly that key removed.
\<close>

theorem rb_delete_correct:
  assumes "rb_index s es"
  shows "case map_of es k of
     None \<Rightarrow> rb_delete s k = Some (s, None)
   | Some d \<Rightarrow> \<exists>s' a n. rb_delete s k = Some (s', Some a) \<and> nodes s' a = Some n \<and>
       n_key n = k \<and> n_data n = d \<and> rb_index (free_node s' a) (del_entry k es)"
proof -
  obtain t where t: "rep Map.empty s t []" "rbt_inv t" "skeys (entries t)" "entries t = es"
    using assms by (auto simp: rb_index_def)
  show ?thesis
  proof (cases "map_of es k")
    case None
    with rb_delete_absent [OF t(1,3)] t(4) show ?thesis by simp
  next
    case (Some d)
    from rb_delete_present [OF t(1-3)] Some t(4) obtain s' t' a zn
      where d: "rb_delete s k = Some (s', Some a)" "n_key zn = k" "n_data zn = d"
        "rep (Map.empty(a \<mapsto> zn)) s' t' []" "rbt_inv t'" "entries t' = del_entry k es"
        "a \<notin> set (addrs t')"
      by blast
    have "nodes s' a = Some zn" using d(4,7) by (simp add: rep_def)
    moreover have "rb_index (free_node s' a) (del_entry k es)"
      using rep_free [OF d(4,7)] d(5,6) t(3,4)
      by (auto simp: rb_index_def free_node_def skeys_del_entry)
    ultimately show ?thesis using Some d by auto
  qed
qed

theorem rb_delete_correct_witness:
  "\<exists>s' a n. rb_delete sample_store 5 = Some (s', Some a) \<and> nodes s' a = Some n \<and>
     n_key n = 5 \<and> n_data n = CHR ''a'' \<and>
     rb_index (free_node s' a) [(1, CHR ''c''), (7, CHR ''e''), (9, CHR ''d'')]"
  using rb_delete_correct [OF sample_index, of 5] by simp

text \<open>
  C11. \<^verbatim>\<open>rb_search_leq\<close> returns the node with the largest key that is not above the given one,
  and \<^verbatim>\<open>NULL\<close> exactly when every key is above it.
\<close>

theorem rb_search_leq_correct:
  assumes "rb_index s es"
  shows "case rb_search_leq s k of
     None \<Rightarrow> False
   | Some None \<Rightarrow> (\<forall>e\<in>set es. k < fst e)
   | Some (Some a) \<Rightarrow> \<exists>n. nodes s a = Some n \<and> (n_key n, n_data n) \<in> set es \<and> n_key n \<le> k \<and>
       (\<forall>e\<in>set es. fst e \<le> k \<longrightarrow> fst e \<le> n_key n)"
proof -
  obtain t where t: "rep Map.empty s t []" "skeys (entries t)" "entries t = es"
    using assms by (auto simp: rb_index_def)
  then have rt: "rep_tree (nodes s) None t" and rr: "root s = root_ptr t"
    by (simp_all add: rep_def)
  have q: "rb_search_leq s k = Some (leq_ptr k t None)"
    using rb_search_leq_loop_rep [OF rt] rr by (simp add: rb_search_leq_def)
  show ?thesis
  proof (cases "leq_entry k es")
    case None
    with leq_ptr_entry [OF rt t(2), of k None] q t show ?thesis
      by (simp add: leq_entry_None)
  next
    case (Some e)
    then have e: "e \<in> set es" "fst e \<le> k" "\<forall>e'\<in>set es. fst e' \<le> k \<longrightarrow> fst e' \<le> fst e"
      using leq_entry_Some [of es k e] t by simp_all
    from leq_ptr_entry [OF rt t(2), of k None] Some t(3) obtain a n
      where "leq_ptr k t None = Some a" "nodes s a = Some n" "n_key n = fst e" "n_data n = snd e"
      by auto
    with q e show ?thesis by auto
  qed
qed

theorem rb_search_leq_correct_witness:
  "case rb_search_leq sample_store 6 of
     None \<Rightarrow> False | Some None \<Rightarrow> False
   | Some (Some a) \<Rightarrow> \<exists>n. nodes sample_store a = Some n \<and> n_key n = 5"
  using rb_search_leq_correct [OF sample_index, of 6]
  by (auto simp: word_le_nat_alt split: option.splits)

text \<open>
  C12. The index stays balanced under its operations. After any sequence of insertions and removals on
  the empty tree there is an \<open>n\<close> with \<open>2 ^ n \<le> (e + 1)\<^sup>2\<close>, for \<open>e\<close> the number of entries, such that
  the loops of \<^verbatim>\<open>rb_search_leq\<close> and \<^verbatim>\<open>rb_search\<close> end with their result within \<open>n\<close> iterations, whatever the key:
  a look-up visits at most \<open>2 log (e + 1)\<close> nodes.
\<close>

theorem rb_search_logarithmic:
  assumes "run_ok index_step index_fresh RB_ROOT ops"
  shows "\<exists>s n. run_ops index_step RB_ROOT ops = Some s \<and>
     2 ^ n \<le> (Suc (length (foldl index_spec [] ops)))\<^sup>2 \<and>
     (\<forall>k. \<exists>p q. rb_search_leq s k = Some p \<and> leq_within n s (root s) None k = Some p \<and>
        rb_search s k = Some q \<and> search_within n s (root s) k = Some q)"
proof -
  obtain s where s: "run_ops index_step RB_ROOT ops = Some s" "rb_index s (foldl index_spec [] ops)"
    using rbr.run_sim [OF rb_index_empty assms] by blast
  then obtain t where t: "rep Map.empty s t []" "rbt_inv t" "entries t = foldl index_spec [] ops"
    by (auto simp: rb_index_def)
  then have rt: "rep_tree (nodes s) None t" and rr: "root s = root_ptr t" by (simp_all add: rep_def)
  have "\<exists>p q. rb_search_leq s k = Some p \<and> leq_within (theight t) s (root s) None k = Some p \<and>
      rb_search s k = Some q \<and> search_within (theight t) s (root s) k = Some q" for k
    using rb_search_leq_loop_rep [OF rt] leq_within_height [OF rt order_refl] search_within_height [OF rt order_refl, of k]
    by (auto simp: rb_search_leq_def rb_search_def rr)
  with s(1) theight_bound [OF t(2)] t(3) show ?thesis by auto
qed

theorem rb_search_logarithmic_witness:
  "\<exists>s n. run_ops index_step RB_ROOT sample_ops = Some s \<and> 2 ^ n \<le> (25 :: nat) \<and>
     (\<exists>p. rb_search_leq s 6 = Some p \<and> leq_within n s (root s) None 6 = Some p)"
proof -
  from rb_search_logarithmic [OF sample_run_ok] obtain s n where
    "run_ops index_step RB_ROOT sample_ops = Some s" "2 ^ n \<le> (Suc (length (foldl index_spec [] sample_ops)))\<^sup>2"
    "\<exists>p. rb_search_leq s 6 = Some p \<and> leq_within n s (root s) None 6 = Some p" by blast
  moreover have "(Suc (length (foldl index_spec [] sample_ops)))\<^sup>2 = 25"
    by (simp add: sample_spec power2_eq_square)
  ultimately show ?thesis by metis
qed

end
