(* ===== verification/Vg_Strings.thy ===== *)
theory Vg_Strings
  imports Ml_Prelude
begin

text \<open>
  The character and string functions of \<^verbatim>\<open>coregrind/m_libcbase.c\<close> that only read. A pointer
  into a NUL-terminated string is the list of the characters from there up to the
  terminator, so \<^verbatim>\<open>*s\<close> is \<open>cur s\<close>, \<^verbatim>\<open>s + 1\<close> is the tail, and a result that points into the
  argument is a suffix of it. \<^verbatim>\<open>HChar\<close> is a signed byte, as on the amd64 target.
\<close>

section \<open>Characters\<close>

definition NUL :: char where
  "NUL = CHR 0x00"

definition cur :: "string \<Rightarrow> char" where
  "cur s = (case s of [] \<Rightarrow> NUL | c # _ \<Rightarrow> c)"

text \<open>The value of a character read as \<^verbatim>\<open>HChar\<close> and as \<^verbatim>\<open>UChar\<close>.\<close>

definition schar :: "char \<Rightarrow> int" where
  "schar c = (if of_char c < (128::int) then of_char c else of_char c - 256)"

definition uchar :: "char \<Rightarrow> nat" where
  "uchar c = of_char c"

text \<open>A list stands for a C string when it has no embedded terminator.\<close>

definition cstring :: "string \<Rightarrow> bool" where
  "cstring s \<longleftrightarrow> NUL \<notin> set s"

definition isspace :: "char \<Rightarrow> bool" where
  "isspace c \<longleftrightarrow> c = CHR '' '' \<or> c = CHR 0x0A \<or> c = CHR 0x09 \<or>
     c = CHR 0x0C \<or> c = CHR 0x0B \<or> c = CHR 0x0D"

definition isdigit :: "char \<Rightarrow> bool" where
  "isdigit c \<longleftrightarrow> schar c \<ge> schar (CHR ''0'') \<and> schar c \<le> schar (CHR ''9'')"

text \<open>\<^verbatim>\<open>*digit\<close> is written exactly when the test succeeds.\<close>

definition is_dec_digit :: "char \<Rightarrow> int option" where
  "is_dec_digit c =
     (if schar c \<ge> schar (CHR ''0'') \<and> schar c \<le> schar (CHR ''9'')
      then Some (schar c - schar (CHR ''0'')) else None)"

definition is_hex_digit :: "char \<Rightarrow> int option" where
  "is_hex_digit c =
     (if schar c \<ge> schar (CHR ''0'') \<and> schar c \<le> schar (CHR ''9'')
      then Some (schar c - schar (CHR ''0''))
      else if schar c \<ge> schar (CHR ''A'') \<and> schar c \<le> schar (CHR ''F'')
      then Some (schar c - schar (CHR ''A'') + 10)
      else if schar c \<ge> schar (CHR ''a'') \<and> schar c \<le> schar (CHR ''f'')
      then Some (schar c - schar (CHR ''a'') + 10)
      else None)"

definition vg_tolower :: "char \<Rightarrow> char" where
  "vg_tolower c =
     (if schar c \<ge> schar (CHR ''A'') \<and> schar c \<le> schar (CHR ''Z'')
      then char_of (schar c - schar (CHR ''A'') + schar (CHR ''a'')) else c)"

section \<open>Strings to numbers\<close>

text \<open>
  \<^verbatim>\<open>while (VG_(isspace)( *str )) str++\<close>, and the digit loops: the value so far, whether a
  digit was converted, and the rest of the string. \<^verbatim>\<open>Long\<close> and \<^verbatim>\<open>ULong\<close> are 64-bit words, the
  former read by \<open>sint\<close>.
\<close>

fun skip_space :: "string \<Rightarrow> string" where
  "skip_space [] = []"
| "skip_space (c # cs) = (if isspace c then skip_space cs else c # cs)"

fun dec_loop :: "64 word \<Rightarrow> bool \<Rightarrow> string \<Rightarrow> 64 word \<times> bool \<times> string" where
  "dec_loop n converted [] = (n, converted, [])"
| "dec_loop n converted (c # cs) =
     (case is_dec_digit c of
        None \<Rightarrow> (n, converted, c # cs)
      | Some digit \<Rightarrow> dec_loop (10 * n + word_of_int digit) True cs)"

fun hex_loop :: "64 word \<Rightarrow> bool \<Rightarrow> string \<Rightarrow> 64 word \<times> bool \<times> string" where
  "hex_loop n converted [] = (n, converted, [])"
| "hex_loop n converted (c # cs) =
     (case is_hex_digit c of
        None \<Rightarrow> (n, converted, c # cs)
      | Some digit \<Rightarrow> hex_loop (16 * n + word_of_int digit) True cs)"

text \<open>
  Each conversion returns the value and \<^verbatim>\<open>*endptr\<close>. The accumulator of the signed conversions is a
  \<^verbatim>\<open>Long\<close>: a value that does not fit is an overflow that C leaves undefined, and it is modelled by the
  two's complement arithmetic of the machine.
\<close>

definition vg_strtoll10 :: "string \<Rightarrow> 64 word \<times> string" where
  "vg_strtoll10 str0 =
     (let str = skip_space str0;
          neg = (cur str = CHR ''-'');
          str = (if cur str = CHR ''-'' then tl str
                 else if cur str = CHR ''+'' then tl str else str);
          (n, converted, str) = dec_loop 0 False str;
          str = (if converted then str else str0);
          n = (if neg then - n else n)
      in (n, str))"

definition vg_strtoull10 :: "string \<Rightarrow> 64 word \<times> string" where
  "vg_strtoull10 str0 =
     (let str = skip_space str0;
          str = (if cur str = CHR ''+'' then tl str else str);
          (n, converted, str) = dec_loop 0 False str;
          str = (if converted then str else str0)
      in (n, str))"

text \<open>The optional \<^verbatim>\<open>0x\<close>, taken only when a hexadecimal digit follows.\<close>

definition skip_0x :: "string \<Rightarrow> string" where
  "skip_0x str =
     (if cur str = CHR ''0'' \<and>
         (cur (drop 1 str) = CHR ''x'' \<or> cur (drop 1 str) = CHR ''X'') \<and>
         is_hex_digit (cur (drop 2 str)) \<noteq> None
      then drop 2 str else str)"

definition vg_strtoll16 :: "string \<Rightarrow> 64 word \<times> string" where
  "vg_strtoll16 str0 =
     (let str = skip_space str0;
          neg = (cur str = CHR ''-'');
          str = (if cur str = CHR ''-'' then tl str
                 else if cur str = CHR ''+'' then tl str else str);
          str = skip_0x str;
          (n, converted, str) = hex_loop 0 False str;
          str = (if converted then str else str0);
          n = (if neg then - n else n)
      in (n, str))"

definition vg_strtoull16 :: "string \<Rightarrow> 64 word \<times> string" where
  "vg_strtoull16 str0 =
     (let str = skip_space str0;
          str = (if cur str = CHR ''+'' then tl str else str);
          str = skip_0x str;
          (n, converted, str) = hex_loop 0 False str;
          str = (if converted then str else str0)
      in (n, str))"

section \<open>String functions\<close>

fun vg_strlen :: "string \<Rightarrow> nat" where
  "vg_strlen [] = 0"
| "vg_strlen (c # cs) = Suc (vg_strlen cs)"

lemma tl_shorter [termination_simp]: "cur s \<noteq> NUL \<Longrightarrow> length s - Suc 0 < length s"
  by (cases s) (auto simp: cur_def)

lemma uchar_NUL [simp]: "uchar NUL = 0"
  by (simp add: uchar_def NUL_def)

lemma tolower_NUL [simp]: "vg_tolower NUL = NUL"
  by (simp add: vg_tolower_def schar_def NUL_def)

lemma tl_shorter_lower [termination_simp]:
  "0 < uchar (vg_tolower (cur s)) \<Longrightarrow> length s - Suc 0 < length s"
  by (rule tl_shorter) auto

fun vg_strcmp :: "string \<Rightarrow> string \<Rightarrow> int" where
  "vg_strcmp s1 s2 =
     (if uchar (cur s1) < uchar (cur s2) then -1
      else if uchar (cur s1) > uchar (cur s2) then 1
      else if cur s1 = NUL then 0
      else vg_strcmp (tl s1) (tl s2))"

fun vg_strcasecmp :: "string \<Rightarrow> string \<Rightarrow> int" where
  "vg_strcasecmp s1 s2 =
     (let c1 = uchar (vg_tolower (cur s1)); c2 = uchar (vg_tolower (cur s2))
      in if c1 < c2 then -1
         else if c1 > c2 then 1
         else if c1 = 0 then 0
         else vg_strcasecmp (tl s1) (tl s2))"

text \<open>The counter \<^verbatim>\<open>n\<close> running up to \<^verbatim>\<open>nmax\<close> is the number of characters still to compare.\<close>

fun vg_strncmp :: "string \<Rightarrow> string \<Rightarrow> nat \<Rightarrow> int" where
  "vg_strncmp s1 s2 0 = 0"
| "vg_strncmp s1 s2 (Suc k) =
     (if uchar (cur s1) < uchar (cur s2) then -1
      else if uchar (cur s1) > uchar (cur s2) then 1
      else if cur s1 = NUL then 0
      else vg_strncmp (tl s1) (tl s2) k)"

fun vg_strncasecmp :: "string \<Rightarrow> string \<Rightarrow> nat \<Rightarrow> int" where
  "vg_strncasecmp s1 s2 0 = 0"
| "vg_strncasecmp s1 s2 (Suc k) =
     (let c1 = uchar (vg_tolower (cur s1)); c2 = uchar (vg_tolower (cur s2))
      in if c1 < c2 then -1
         else if c1 > c2 then 1
         else if c1 = 0 then 0
         else vg_strncasecmp (tl s1) (tl s2) k)"

definition VG_STREQ :: "string \<Rightarrow> string \<Rightarrow> bool" where
  "VG_STREQ s1 s2 \<longleftrightarrow> vg_strcmp s1 s2 = 0"

definition VG_STREQN :: "nat \<Rightarrow> string \<Rightarrow> string \<Rightarrow> bool" where
  "VG_STREQN n s1 s2 \<longleftrightarrow> vg_strncmp s1 s2 n = 0"

text \<open>A \<^verbatim>\<open>NULL\<close> haystack is \<open>None\<close>, and so is a \<^verbatim>\<open>NULL\<close> result.\<close>

fun strstr_loop :: "string \<Rightarrow> string \<Rightarrow> nat \<Rightarrow> string option" where
  "strstr_loop haystack needle n =
     (if cur haystack = NUL then None
      else if vg_strncmp haystack needle n = 0 then Some haystack
      else strstr_loop (tl haystack) needle n)"

definition vg_strstr :: "string option \<Rightarrow> string \<Rightarrow> string option" where
  "vg_strstr haystack needle = (case haystack of
     None \<Rightarrow> None | Some h \<Rightarrow> strstr_loop h needle (vg_strlen needle))"

fun strcasestr_loop :: "string \<Rightarrow> string \<Rightarrow> nat \<Rightarrow> string option" where
  "strcasestr_loop haystack needle n =
     (if cur haystack = NUL then None
      else if vg_strncasecmp haystack needle n = 0 then Some haystack
      else strcasestr_loop (tl haystack) needle n)"

definition vg_strcasestr :: "string option \<Rightarrow> string \<Rightarrow> string option" where
  "vg_strcasestr haystack needle = (case haystack of
     None \<Rightarrow> None | Some h \<Rightarrow> strcasestr_loop h needle (vg_strlen needle))"

fun vg_strchr :: "string \<Rightarrow> char \<Rightarrow> string option" where
  "vg_strchr s c =
     (if cur s = c then Some s
      else if cur s = NUL then None
      else vg_strchr (tl s) c)"

text \<open>
  \<^verbatim>\<open>while (--n > 0)\<close>: the counter is decremented before the test, so the index \<open>0\<close> is never
  looked at.
\<close>

fun strrchr_loop :: "string \<Rightarrow> char \<Rightarrow> nat \<Rightarrow> string option" where
  "strrchr_loop s c 0 = None"
| "strrchr_loop s c (Suc n) =
     (if n > 0 then (if s ! n = c then Some (drop n s) else strrchr_loop s c n) else None)"

definition vg_strrchr :: "string \<Rightarrow> char \<Rightarrow> string option" where
  "vg_strrchr s c = strrchr_loop s c (nat (sint (word_of_nat (vg_strlen s) :: 32 word)))"

text \<open>The inner loop of \<^verbatim>\<open>strpbrk\<close> and of \<^verbatim>\<open>strspn\<close>: is the character in the set?\<close>

fun in_set :: "char \<Rightarrow> string \<Rightarrow> bool" where
  "in_set c [] = False"
| "in_set c (a # as) = (if a = c then True else in_set c as)"

fun vg_strpbrk :: "string \<Rightarrow> string \<Rightarrow> string option" where
  "vg_strpbrk [] accpt = None"
| "vg_strpbrk (c # cs) accpt = (if in_set c accpt then Some (c # cs) else vg_strpbrk cs accpt)"

fun vg_strspn :: "string \<Rightarrow> string \<Rightarrow> nat" where
  "vg_strspn [] accpt = 0"
| "vg_strspn (c # cs) accpt = (if in_set c accpt then Suc (vg_strspn cs accpt) else 0)"

fun vg_strcspn :: "string \<Rightarrow> string \<Rightarrow> nat" where
  "vg_strcspn [] reject = 0"
| "vg_strcspn (c # cs) reject =
     (if vg_strchr reject c = None then Suc (vg_strcspn cs reject) else 0)"

text \<open>
  \<^verbatim>\<open>strtok_r\<close> overwrites the delimiter after the token with NUL, so the token is the list up
  to it, and the saved pointer is what follows it. The result is the token and \<^verbatim>\<open>*saveptr\<close>.
\<close>

definition vg_strtok_r :: "string option \<Rightarrow> string \<Rightarrow> string \<Rightarrow> string option \<times> string" where
  "vg_strtok_r s delim saveptr =
     (let s = (case s of None \<Rightarrow> saveptr | Some s \<Rightarrow> s);
          s = drop (vg_strspn s delim) s
      in if cur s = NUL then (None, s)
         else (case vg_strpbrk s delim of
             None \<Rightarrow> (Some s, drop (vg_strlen s) s)
           | Some e \<Rightarrow> (Some (take (length s - length e) s), tl e)))"

section \<open>Parsing addresses and numbers\<close>

definition isHex :: "char \<Rightarrow> bool" where
  "isHex c \<longleftrightarrow>
     (schar c \<ge> schar (CHR ''0'') \<and> schar c \<le> schar (CHR ''9'')) \<or>
     (schar c \<ge> schar (CHR ''a'') \<and> schar c \<le> schar (CHR ''f'')) \<or>
     (schar c \<ge> schar (CHR ''A'') \<and> schar c \<le> schar (CHR ''F''))"

definition fromHex :: "char \<Rightarrow> 32 word" where
  "fromHex c =
     (if schar c \<ge> schar (CHR ''0'') \<and> schar c \<le> schar (CHR ''9'')
      then word_of_int (schar c) - word_of_int (schar (CHR ''0''))
      else if schar c \<ge> schar (CHR ''a'') \<and> schar c \<le> schar (CHR ''f'')
      then 10 + word_of_int (schar c) - word_of_int (schar (CHR ''a''))
      else if schar c \<ge> schar (CHR ''A'') \<and> schar c \<le> schar (CHR ''F'')
      then 10 + word_of_int (schar c) - word_of_int (schar (CHR ''A''))
      else 0)"

text \<open>The result is the Boolean returned, \<^verbatim>\<open>*ppc\<close> and \<^verbatim>\<open>*result\<close> afterwards.\<close>

fun parse_Addr_loop :: "string \<Rightarrow> Addr \<Rightarrow> nat \<Rightarrow> bool \<times> string \<times> Addr" where
  "parse_Addr_loop [] result used = (used \<noteq> 0, [], result)"
| "parse_Addr_loop (c # cs) result used =
     (if isHex c then
        let result = push_bit 4 result OR ucast (fromHex c);
            used = used + 1
        in if used > 16 then (False, cs, result) else parse_Addr_loop cs result used
      else (used \<noteq> 0, c # cs, result))"

definition vg_parse_Addr :: "string \<Rightarrow> Addr \<Rightarrow> bool \<times> string \<times> Addr" where
  "vg_parse_Addr ppc result =
     (if cur ppc \<noteq> CHR ''0'' then (False, ppc, result)
      else let ppc = tl ppc
      in if cur ppc \<noteq> CHR ''x'' then (False, ppc, result)
      else parse_Addr_loop (tl ppc) 0 0)"

fun parse_UInt_loop :: "string \<Rightarrow> ULong \<Rightarrow> nat \<Rightarrow> bool \<times> string \<times> ULong" where
  "parse_UInt_loop [] res64 used = (used \<noteq> 0, [], res64)"
| "parse_UInt_loop (c # cs) res64 used =
     (if isdigit c then
        let res64 = res64 * 10 + word_of_int (schar c) - word_of_int (schar (CHR ''0''));
            used = used + 1
        in if used > 10 then (False, cs, res64) else parse_UInt_loop cs res64 used
      else (used \<noteq> 0, c # cs, res64))"

definition vg_parse_UInt :: "string \<Rightarrow> 32 word \<Rightarrow> bool \<times> string \<times> 32 word" where
  "vg_parse_UInt ppc result =
     (let (ok, ppc, res64) = parse_UInt_loop ppc 0 0
      in if \<not> ok then (False, ppc, result)
         else if drop_bit 32 res64 \<noteq> 0 then (False, ppc, result)
         else (True, ppc, ucast res64))"


declare vg_strcmp.simps [simp del] vg_strcasecmp.simps [simp del] strstr_loop.simps [simp del]
  strcasestr_loop.simps [simp del] vg_strchr.simps [simp del]

section \<open>Tokenising\<close>

lemma in_set_iff [simp]: "in_set c s \<longleftrightarrow> c \<in> set s"
  by (induction s) auto

lemma vg_strlen_length [simp]: "vg_strlen s = length s"
  by (induction s) auto

lemma strspn_takeWhile: "vg_strspn s d = length (takeWhile (\<lambda>c. c \<in> set d) s)"
  by (induction s) auto

lemma strspn_drop: "drop (vg_strspn s d) s = dropWhile (\<lambda>c. c \<in> set d) s"
  by (simp add: strspn_takeWhile dropWhile_eq_drop)

lemma strpbrk_dropWhile:
  "vg_strpbrk s d = (let e = dropWhile (\<lambda>c. c \<notin> set d) s in if e = [] then None else Some e)"
  by (induction s) (auto simp: Let_def)

lemma strtok_r_Some:
  "vg_strtok_r (Some s) delim saveptr =
     (let t = dropWhile (\<lambda>c. c \<in> set delim) s
      in if cur t = NUL then (None, t)
         else (Some (takeWhile (\<lambda>c. c \<notin> set delim) t), tl (dropWhile (\<lambda>c. c \<notin> set delim) t)))"
proof -
  define t where "t = dropWhile (\<lambda>c. c \<in> set delim) s"
  define e where "e = dropWhile (\<lambda>c. c \<notin> set delim) t"
  have t: "takeWhile (\<lambda>c. c \<notin> set delim) t @ e = t" by (simp add: e_def)
  then have "take (length t - length e) t = takeWhile (\<lambda>c. c \<notin> set delim) t"
    by (metis add_diff_cancel_right' append_eq_conv_conj length_append)
  moreover have "e = [] \<Longrightarrow> t = takeWhile (\<lambda>c. c \<notin> set delim) t"
    by (metis t append_Nil2)
  ultimately show ?thesis
    by (auto simp: vg_strtok_r_def strspn_drop strpbrk_dropWhile Let_def t_def [symmetric]
        e_def [symmetric] simp del: takeWhile_eq_all_conv)
qed

lemma strtok_r_None: "vg_strtok_r None delim saveptr = vg_strtok_r (Some saveptr) delim saveptr"
  by (simp add: vg_strtok_r_def)

lemma strtok_r_shorter:
  "vg_strtok_r (Some s) delim saveptr = (Some tok, s') \<Longrightarrow> length s' < length s"
proof -
  assume a: "vg_strtok_r (Some s) delim saveptr = (Some tok, s')"
  let ?t = "dropWhile (\<lambda>c. c \<in> set delim) s"
  from a have t: "cur ?t \<noteq> NUL" "s' = tl (dropWhile (\<lambda>c. c \<notin> set delim) ?t)"
    by (auto simp: strtok_r_Some Let_def split: if_splits)
  then obtain c cs where c: "?t = c # cs" by (cases ?t) (auto simp: cur_def)
  have "length s' \<le> length (dropWhile (\<lambda>c. c \<notin> set delim) ?t) - 1" using t by simp
  also have "\<dots> < length ?t"
    using length_dropWhile_le [of "\<lambda>c. c \<notin> set delim" ?t] c by simp
  also have "\<dots> \<le> length s" by (rule length_dropWhile_le)
  finally show ?thesis .
qed

text \<open>
  The loop \<^verbatim>\<open>for (tok = strtok_r(s, delim, &save); tok; tok = strtok_r(NULL, delim, &save))\<close>:
  the tokens it visits, in order.
\<close>

function strtok_all :: "string \<Rightarrow> string \<Rightarrow> string list" where
  "strtok_all delim s =
     (case vg_strtok_r (Some s) delim [] of
        (None, _) \<Rightarrow> []
      | (Some tok, save) \<Rightarrow> tok # strtok_all delim save)"
  by auto
termination
  by (relation "measure (length \<circ> snd)") (auto dest: strtok_r_shorter [OF sym])

declare strtok_all.simps [simp del]


lemma strtok_all_unfold:
  "strtok_all delim s =
     (let t = dropWhile (\<lambda>c. c \<in> set delim) s
      in if cur t = NUL then []
         else takeWhile (\<lambda>c. c \<notin> set delim) t #
              strtok_all delim (tl (dropWhile (\<lambda>c. c \<notin> set delim) t)))"
  by (subst strtok_all.simps) (simp add: strtok_r_Some Let_def)

definition token :: "string \<Rightarrow> string \<Rightarrow> bool" where
  "token delim t \<longleftrightarrow> t \<noteq> [] \<and> cstring t \<and> set t \<inter> set delim = {}"

lemma cstring_append [simp]: "cstring (a @ b) \<longleftrightarrow> cstring a \<and> cstring b"
  by (auto simp: cstring_def)

lemma cstring_Cons [simp]: "cstring (c # s) \<longleftrightarrow> c \<noteq> NUL \<and> cstring s"
  by (auto simp: cstring_def)

lemma cstring_Nil [simp]: "cstring []"
  by (simp add: cstring_def)

lemma cur_Cons [simp]: "cur (c # s) = c"
  by (simp add: cur_def)

lemma cur_Nil [simp]: "cur [] = NUL"
  by (simp add: cur_def)

lemma cur_append: "s \<noteq> [] \<Longrightarrow> cur (s @ t) = cur s"
  by (cases s) auto

lemma cur_NUL_iff: "cstring s \<Longrightarrow> cur s = NUL \<longleftrightarrow> s = []"
  by (cases s) auto

lemma set_tl_sub: "set (tl xs) \<subseteq> set xs"
  by (cases xs) auto

lemma strtok_all_token:
  assumes "cstring s" "t \<in> set (strtok_all delim s)"
  shows "token delim t"
  using assms
proof (induction delim s rule: strtok_all.induct)
  case (1 delim s)
  let ?t = "dropWhile (\<lambda>c. c \<in> set delim) s"
  let ?r = "tl (dropWhile (\<lambda>c. c \<notin> set delim) ?t)"
  have sub: "set ?t \<subseteq> set s" "set ?r \<subseteq> set s"
    by (auto dest: set_dropWhileD set_tl_sub [THEN subsetD])
  then have cs: "cstring ?t" "cstring ?r" using "1.prems"(1) by (auto simp: cstring_def)
  show ?case
  proof (cases "cur ?t = NUL")
    case True
    with "1.prems"(2) show ?thesis by (simp add: strtok_all_unfold [of delim s])
  next
    case False
    have ih: "t \<in> set (strtok_all delim ?r) \<Longrightarrow> token delim t"
      using "1.IH" [of "Some (takeWhile (\<lambda>c. c \<notin> set delim) ?t)" ?r] False cs(2)
      by (simp add: strtok_r_Some Let_def)
    have "hd ?t \<notin> set delim"
      using False hd_dropWhile [of "\<lambda>c. c \<in> set delim" s] by (cases ?t) auto
    with False cs(1) have "token delim (takeWhile (\<lambda>c. c \<notin> set delim) ?t)"
      unfolding token_def cstring_def
      by (cases ?t) (auto dest: set_takeWhileD)
    with ih "1.prems"(2) False show ?thesis
      by (auto simp: strtok_all_unfold [of delim s] Let_def)
  qed
qed

lemma strtok_all_join:
  assumes "d \<in> set delim" "\<forall>t\<in>set ts. token delim t"
  shows "strtok_all delim (concat (map (\<lambda>t. t @ [d]) ts)) = ts"
  using assms(2)
proof (induction ts)
  case Nil
  show ?case by (simp add: strtok_all_unfold)
next
  case (Cons t ts)
  then have t: "t \<noteq> []" "cstring t" "set t \<inter> set delim = {}" by (auto simp: token_def)
  have dw: "dropWhile (\<lambda>c. c \<in> set delim) (t @ x) = t @ x" for x
    using t by (cases t) auto
  have "cur (t @ x) \<noteq> NUL" for x using t by (cases t) auto
  moreover have "takeWhile (\<lambda>c. c \<notin> set delim) (t @ d # x) = t"
      "dropWhile (\<lambda>c. c \<notin> set delim) (t @ d # x) = d # x" for x
    using t(3) assms(1) by (induction t) auto
  ultimately show ?case
    using Cons by (subst strtok_all_unfold) (simp add: dw Let_def)
qed

text \<open>A string cut at the delimiters.\<close>

fun split_at :: "string \<Rightarrow> string \<Rightarrow> string list" where
  "split_at delim [] = [[]]"
| "split_at delim (c # cs) =
     (if c \<in> set delim then [] # split_at delim cs else (c # hd (split_at delim cs)) # tl (split_at delim cs))"

lemma split_at_not_Nil [simp]: "split_at delim s \<noteq> []"
  by (cases s) auto

lemma split_at_set: "l \<in> set (split_at delim s) \<Longrightarrow> set l \<subseteq> set s"
proof (induction s arbitrary: l)
  case (Cons c cs)
  have h: "set (hd (split_at delim cs)) \<subseteq> set cs" by (rule Cons.IH) simp
  have t: "set l' \<subseteq> set cs" if "l' \<in> set (tl (split_at delim cs))" for l'
    by (rule Cons.IH) (rule list.set_sel(2) [OF split_at_not_Nil that])
  from Cons.prems consider "l = []" | "l \<in> set (split_at delim cs)" | "l = c # hd (split_at delim cs)"
    | "l \<in> set (tl (split_at delim cs))" by (auto split: if_splits)
  then show ?case using h t Cons.IH [of l] by cases auto
qed simp

lemma split_at_word: "set w \<inter> set delim = {} \<Longrightarrow> split_at delim w = [w]"
  by (induction w) auto

lemma split_at_delim: "set w \<inter> set delim = {} \<Longrightarrow> d \<in> set delim \<Longrightarrow> split_at delim (w @ d # r) = w # split_at delim r"
  by (induction w) auto

lemma split_at_leading:
  "filter (\<lambda>w. w \<noteq> []) (split_at delim (dropWhile (\<lambda>c. c \<in> set delim) s)) = filter (\<lambda>w. w \<noteq> []) (split_at delim s)"
  by (induction s) auto

lemma strtok_all_split:
  "cstring s \<Longrightarrow> strtok_all delim s = filter (\<lambda>w. w \<noteq> []) (split_at delim s)"
proof (induction "length s" arbitrary: s rule: less_induct)
  case less
  define t where "t = dropWhile (\<lambda>c. c \<in> set delim) s"
  define w where "w = takeWhile (\<lambda>c. c \<notin> set delim) t"
  define e where "e = dropWhile (\<lambda>c. c \<notin> set delim) t"
  have t: "t = w @ e" by (simp add: w_def e_def)
  have c: "cstring t" using less.prems set_dropWhileD by (fastforce simp: t_def cstring_def)
  have w: "set w \<inter> set delim = {}" using set_takeWhileD by (fastforce simp: w_def)
  note lead = split_at_leading [of delim s, folded t_def]
  show ?case
  proof (cases t)
    case Nil
    then show ?thesis using lead by (subst strtok_all_unfold) (simp add: t_def [symmetric] cur_def)
  next
    case (Cons x xs)
    then have x: "x \<notin> set delim" using hd_dropWhile [of "\<lambda>c. c \<in> set delim" s] by (simp add: t_def)
    have n: "cur t \<noteq> NUL" using c by (auto simp: Cons cur_def cstring_def)
    have w1: "w \<noteq> []" using x by (simp add: w_def Cons)
    have u: "strtok_all delim s = w # strtok_all delim (tl e)"
      using n by (subst strtok_all_unfold) (simp add: t_def [symmetric] w_def e_def)
    have "length t \<le> length s" unfolding t_def by (rule length_dropWhile_le)
    moreover have "length t = length w + length e" by (simp add: t)
    moreover have "0 < length w" using w1 by simp
    ultimately have l: "length (tl e) < length s" by (simp del: length_greater_0_conv)
    have ih: "strtok_all delim (tl e) = filter (\<lambda>w. w \<noteq> []) (split_at delim (tl e))"
      using c by (intro less.hyps l) (cases e; auto simp: t cstring_def)
    show ?thesis
    proof (cases e)
      case Nil
      then show ?thesis using u lead w w1 by (simp add: t split_at_word strtok_all_unfold [of delim "[]"] cur_def)
    next
      case (Cons y ys)
      then have "y \<in> set delim" using hd_dropWhile [of "\<lambda>c. c \<notin> set delim" t] by (simp add: e_def)
      with Cons u lead ih w w1 show ?thesis by (simp add: t split_at_delim)
    qed
  qed
qed

section \<open>Comparison and search\<close>

lemma uchar_eq [simp]: "uchar a = uchar b \<longleftrightarrow> a = b"
  by (simp add: uchar_def)

lemma uchar_0 [simp]: "uchar a = 0 \<longleftrightarrow> a = NUL" "0 < uchar a \<longleftrightarrow> a \<noteq> NUL"
  using uchar_eq [of a NUL] by auto

lemma uchar_not_less: "\<not> uchar a < uchar b \<Longrightarrow> \<not> uchar b < uchar a \<Longrightarrow> a = b"
  using uchar_eq [of a b] by linarith

lemma strcmp_step:
  "vg_strcmp [] [] = 0"
  "a \<noteq> NUL \<Longrightarrow> vg_strcmp (a # s) [] = 1"
  "b \<noteq> NUL \<Longrightarrow> vg_strcmp [] (b # t) = -1"
  "a \<noteq> NUL \<Longrightarrow> vg_strcmp (a # s) (b # t) =
     (if a = b then vg_strcmp s t else if uchar a < uchar b then -1 else 1)"
  by (subst vg_strcmp.simps, auto dest: uchar_not_less)+

lemma strcmp_eq_0: "cstring s \<Longrightarrow> cstring t \<Longrightarrow> vg_strcmp s t = 0 \<longleftrightarrow> s = t"
proof (induction s arbitrary: t)
  case Nil
  then show ?case by (cases t) (auto simp: strcmp_step)
next
  case (Cons a s)
  then show ?case
    by (cases t) (auto simp: strcmp_step)
qed

lemma strncmp_eq_0:
  "cstring s \<Longrightarrow> cstring t \<Longrightarrow> vg_strncmp s t n = 0 \<longleftrightarrow> take n s = take n t"
proof (induction s t n rule: vg_strncmp.induct)
  case (2 s t n)
  show ?case
  proof (cases s; cases t)
    fix a s' b t'
    assume st: "s = a # s'" "t = b # t'"
    then have "vg_strncmp s' t' n = 0 \<longleftrightarrow> take n s' = take n t'" if "a = b"
      using 2 that by simp
    with st 2 show ?thesis by (auto dest: uchar_not_less)
  qed (use 2 in auto)
qed simp

lemma strcmp_lexord:
  "cstring s \<Longrightarrow> cstring t \<Longrightarrow>
   vg_strcmp s t < 0 \<longleftrightarrow> (s, t) \<in> lexord {(a, b). uchar a < uchar b}"
proof (induction s arbitrary: t)
  case Nil
  then show ?case by (cases t) (auto simp: strcmp_step)
next
  case (Cons a s)
  then show ?case by (cases t) (auto simp: strcmp_step)
qed

lemma strcmp_flip: "cstring s \<Longrightarrow> cstring t \<Longrightarrow> vg_strcmp t s = - vg_strcmp s t"
proof (induction s arbitrary: t)
  case Nil
  then show ?case by (cases t) (auto simp: strcmp_step)
next
  case (Cons a s)
  then show ?case by (cases t) (auto simp: strcmp_step)
qed

lemma STREQ_iff: "cstring s \<Longrightarrow> cstring t \<Longrightarrow> VG_STREQ s t \<longleftrightarrow> s = t"
  by (simp add: VG_STREQ_def strcmp_eq_0)

lemma STREQN_iff:
  "cstring s \<Longrightarrow> cstring t \<Longrightarrow> VG_STREQN n s t \<longleftrightarrow> take n s = take n t"
  by (simp add: VG_STREQN_def strncmp_eq_0)

text \<open>\<^verbatim>\<open>strstr\<close> finds the first occurrence of a non-empty needle.\<close>

lemma strstr_loop_simps:
  "strstr_loop [] n k = None"
  "c \<noteq> NUL \<Longrightarrow> strstr_loop (c # s) n k =
     (if vg_strncmp (c # s) n k = 0 then Some (c # s) else strstr_loop s n k)"
  by (subst strstr_loop.simps, simp)+

lemma strstr_loop_spec:
  assumes "cstring h" "cstring n" "n \<noteq> []"
  shows "case strstr_loop h n (length n) of
     None \<Rightarrow> (\<forall>p r. h \<noteq> p @ n @ r)
   | Some s \<Rightarrow> \<exists>p r. h = p @ s \<and> s = n @ r \<and> (\<forall>p' r'. h = p' @ n @ r' \<longrightarrow> length p \<le> length p')"
  using assms(1)
proof (induction h)
  case Nil
  then show ?case using assms by (simp add: strstr_loop_simps)
next
  case (Cons c h)
  show ?case
  proof (cases "take (length n) (c # h) = n")
    case True
    then obtain r where "c # h = n @ r" by (metis append_take_drop_id)
    moreover have "vg_strncmp (c # h) n (length n) = 0"
      using True Cons.prems assms(2) by (subst strncmp_eq_0) simp_all
    moreover from this have "strstr_loop (c # h) n (length n) = Some (c # h)"
      using Cons.prems by (simp only: strstr_loop_simps(2) cstring_Cons if_True simp_thms)
    ultimately show ?thesis by auto
  next
    case False
    have st: "strstr_loop (c # h) n (length n) = strstr_loop h n (length n)"
      using False Cons.prems assms(2) strncmp_eq_0 [of "c # h" n "length n"]
      by (simp add: strstr_loop_simps)
    have no: "c # h \<noteq> n @ r" for r using False by auto
    have shift: "(\<exists>p'. c # h = p @ n @ r \<longleftrightarrow> p = c # p' \<and> h = p' @ n @ r)" if "p \<noteq> []" for p r
      using that by (cases p) auto
    have occ: "c # h = p @ n @ r \<Longrightarrow> \<exists>p'. p = c # p' \<and> h = p' @ n @ r" for p r
      using no by (cases p) auto
    show ?thesis
    proof (cases "strstr_loop h n (length n)")
      case None
      with Cons st occ show ?thesis by fastforce
    next
      case (Some s)
      with Cons.IH Cons.prems obtain p r where pr: "h = p @ s" "s = n @ r"
        "\<forall>p' r'. h = p' @ n @ r' \<longrightarrow> length p \<le> length p'" by auto
      have "length (c # p) \<le> length p'" if "c # h = p' @ n @ r'" for p' r'
        using occ [OF that] pr(3) by auto
      with pr(1,2) Some st show ?thesis
        by (auto intro!: exI [of _ "c # p"])
    qed
  qed
qed

lemma strrchr_loop_spec:
  "n \<le> length s \<Longrightarrow> strrchr_loop s c n =
     (if \<exists>i. 0 < i \<and> i < n \<and> s ! i = c then Some (drop (GREATEST i. 0 < i \<and> i < n \<and> s ! i = c) s) else None)"
proof (induction n)
  case (Suc n)
  show ?case
  proof (cases "n > 0 \<and> s ! n = c")
    case True
    then have "(GREATEST i. 0 < i \<and> i < Suc n \<and> s ! i = c) = n"
      by (intro Greatest_equality) auto
    with True show ?thesis by auto
  next
    case False
    then have "(0 < i \<and> i < Suc n \<and> s ! i = c) \<longleftrightarrow> (0 < i \<and> i < n \<and> s ! i = c)" for i
      by (auto simp: less_Suc_eq)
    with False Suc show ?thesis by (cases "n > 0") auto
  qed
qed simp

section \<open>Enumeration sets\<close>

text \<open>
  The inner loop of \<^verbatim>\<open>parse_enum_set\<close>: the number of the token, the set of all tokens and the
  set and count of the recognised ones. \<^verbatim>\<open>1 << token_nr\<close> is a 32-bit shift.
\<close>

fun enum_tokens ::
  "string \<Rightarrow> string list \<Rightarrow> nat \<Rightarrow> 32 word \<Rightarrow> 32 word \<Rightarrow> nat \<Rightarrow> 32 word \<times> 32 word \<times> nat" where
  "enum_tokens word [] token_nr all_set enum_set known_words = (all_set, enum_set, known_words)"
| "enum_tokens word (tok # tokens) token_nr all_set enum_set known_words =
     (if vg_strcmp tok ''-'' \<noteq> 0 then
        let hit = (vg_strcmp word tok = 0);
            enum_set = (if hit then enum_set OR push_bit token_nr 1 else enum_set);
            known_words = (if hit then known_words + 1 else known_words);
            all_set = all_set OR push_bit token_nr 1
        in enum_tokens word tokens (token_nr + 1) all_set enum_set known_words
      else enum_tokens word tokens (token_nr + 1) all_set enum_set known_words)"

record enum_state =
  word_nr :: nat
  known_words :: nat
  seen_all_kw :: bool
  seen_none_kw :: bool
  es_all :: "32 word"
  es_enum :: "32 word"

definition enum_word :: "bool \<Rightarrow> string list \<Rightarrow> enum_state \<Rightarrow> string \<Rightarrow> enum_state" where
  "enum_word allow_all tokens st input_word =
     (let st = st\<lparr>word_nr := word_nr st + 1\<rparr>;
          st = (if allow_all \<and> vg_strcmp input_word ''all'' = 0
                then st\<lparr>seen_all_kw := True, known_words := known_words st + 1\<rparr>
                else if vg_strcmp input_word ''none'' = 0
                then st\<lparr>seen_none_kw := True, known_words := known_words st + 1\<rparr>
                else st);
          (a, e, k) = enum_tokens input_word tokens 0 0 (es_enum st) (known_words st)
      in st\<lparr>es_all := a, es_enum := e, known_words := k\<rparr>)"

text \<open>The Boolean returned and \<^verbatim>\<open>*enum_set\<close> afterwards.\<close>

definition vg_parse_enum_set :: "string \<Rightarrow> bool \<Rightarrow> string \<Rightarrow> 32 word \<Rightarrow> bool \<times> 32 word" where
  "vg_parse_enum_set tokens allow_all input enum_set =
     (if vg_strlen tokens > 1000 then (False, enum_set)
      else if vg_strlen input > 1000 then (False, enum_set)
      else
        let st = foldl (enum_word allow_all (strtok_all '','' tokens))
               \<lparr>word_nr = 0, known_words = 0, seen_all_kw = False, seen_none_kw = False,
                es_all = 0, es_enum = 0\<rparr> (strtok_all '','' input)
        in if known_words st \<noteq> word_nr st then (False, es_enum st)
           else if seen_all_kw st then
             (if seen_none_kw st \<or> es_enum st \<noteq> 0 then (False, es_enum st) else (True, es_all st))
           else if seen_none_kw st then
             (if seen_all_kw st \<or> es_enum st \<noteq> 0 then (False, es_enum st) else (True, 0))
           else (es_enum st \<noteq> 0, es_enum st))"

lemma enum_tokens_spec:
  assumes "cstring w" "\<forall>t\<in>set ts. cstring t" "n + length ts \<le> 32"
    "enum_tokens w ts n a e k = (a', e', k')"
  shows "bit e' i \<longleftrightarrow> bit e i \<or> (n \<le> i \<and> i < n + length ts \<and> ts ! (i - n) = w \<and> w \<noteq> ''-'')"
    and "bit a' i \<longleftrightarrow> bit a i \<or> (n \<le> i \<and> i < n + length ts \<and> ts ! (i - n) \<noteq> ''-'')"
    and "k' = k + (if w = ''-'' then 0 else count_list ts w)"
proof -
  have "(bit e' i \<longleftrightarrow> bit e i \<or> (n \<le> i \<and> i < n + length ts \<and> ts ! (i - n) = w \<and> w \<noteq> ''-'')) \<and>
    (bit a' i \<longleftrightarrow> bit a i \<or> (n \<le> i \<and> i < n + length ts \<and> ts ! (i - n) \<noteq> ''-'')) \<and>
    k' = k + (if w = ''-'' then 0 else count_list ts w)"
    using assms
  proof (induction w ts n a e k rule: enum_tokens.induct)
    case (2 w t ts n a e k)
    have eqs: "vg_strcmp t ''-'' = 0 \<longleftrightarrow> t = ''-''" "vg_strcmp w t = 0 \<longleftrightarrow> w = t"
      using "2.prems"(1,2) by (simp_all add: strcmp_eq_0 NUL_def)
    have bp: "bit (x OR 2 ^ n :: 32 word) j \<longleftrightarrow> bit x j \<or> j = n" for x j
      using "2.prems"(3) by (auto simp: bit_or_iff bit_exp_iff)
    define e1 where "e1 = (if w = t \<and> t \<noteq> ''-'' then e OR 2 ^ n else e)"
    define a1 where "a1 = (if t = ''-'' then a else a OR 2 ^ n)"
    define k1 where "k1 = (if w = t \<and> t \<noteq> ''-'' then k + 1 else k)"
    have "enum_tokens w ts (Suc n) a1 e1 k1 = (a', e', k')"
      using "2.prems"(4) eqs by (auto simp: Let_def e1_def k1_def a1_def split: if_splits)
    with "2.IH" "2.prems" eqs
    have ih: "bit e' i \<longleftrightarrow> bit e1 i \<or> (Suc n \<le> i \<and> i < Suc (n + length ts) \<and> ts ! (i - Suc n) = w \<and> w \<noteq> ''-'')"
      "bit a' i \<longleftrightarrow> bit a1 i \<or> (Suc n \<le> i \<and> i < Suc (n + length ts) \<and> ts ! (i - Suc n) \<noteq> ''-'')"
      "k' = k1 + (if w = ''-'' then 0 else count_list ts w)"
      by (auto simp: e1_def k1_def a1_def split: if_splits)
    have k: "k' = k + (if w = ''-'' then 0 else count_list (t # ts) w)"
      using ih(3) by (auto simp: k1_def)
    consider "i < n" | "i = n" | "Suc n \<le> i" by linarith
    then show ?case
    proof cases
      case 1
      then show ?thesis using ih(1,2) k by (simp add: e1_def a1_def bp)
    next
      case 2
      then show ?thesis using ih(1,2) k by (auto simp: e1_def a1_def bp)
    next
      case 3
      then have "(t # ts) ! (i - n) = ts ! (i - Suc n)" "i \<noteq> n" "n \<le> i" by (simp_all add: nth_Cons')
      with 3 show ?thesis using ih(1,2) k by (simp add: e1_def a1_def bp)
    qed
  qed auto
  then show "bit e' i \<longleftrightarrow> bit e i \<or> (n \<le> i \<and> i < n + length ts \<and> ts ! (i - n) = w \<and> w \<noteq> ''-'')"
    and "bit a' i \<longleftrightarrow> bit a i \<or> (n \<le> i \<and> i < n + length ts \<and> ts ! (i - n) \<noteq> ''-'')"
    and "k' = k + (if w = ''-'' then 0 else count_list ts w)"
    by blast+
qed

lemma count_list_1: "distinct xs \<Longrightarrow> x \<in> set xs \<Longrightarrow> count_list xs x = 1"
  by (induction xs) (auto simp: count_list_0_iff)

definition enum_words_ok :: "string list \<Rightarrow> string list \<Rightarrow> bool" where
  "enum_words_ok ts ws \<longleftrightarrow> (\<forall>w\<in>set ws. w \<in> set ts \<and> w \<noteq> ''-'' \<and> w \<noteq> ''all'' \<and> w \<noteq> ''none'')"

lemma enum_word_step:
  fixes allow_all st ts w
  defines "st' \<equiv> enum_word allow_all ts st w"
  assumes "distinct ts" "\<forall>t\<in>set ts. cstring t" "length ts \<le> 32" "enum_words_ok ts [w]"
  shows "word_nr st' = word_nr st + 1" "known_words st' = known_words st + 1"
    "seen_all_kw st' = seen_all_kw st" "seen_none_kw st' = seen_none_kw st"
    "bit (es_enum st') i \<longleftrightarrow> bit (es_enum st) i \<or> (i < length ts \<and> ts ! i = w)"
proof -
  have w: "w \<in> set ts" "w \<noteq> ''-''" "w \<noteq> ''all''" "w \<noteq> ''none''" "cstring w"
    using assms(3,5) by (auto simp: enum_words_ok_def)
  have kw: "vg_strcmp w ''all'' \<noteq> 0" "vg_strcmp w ''none'' \<noteq> 0"
    using w by (simp_all add: strcmp_eq_0 NUL_def)
  obtain a e k where r: "enum_tokens w ts 0 0 (es_enum st) (known_words st) = (a, e, k)"
    by (cases "enum_tokens w ts 0 0 (es_enum st) (known_words st)")
  note sp = enum_tokens_spec [OF w(5) assms(3) _ r, simplified]
  have "k = known_words st + 1"
    using sp(3) assms(2,4) w(1,2) by (simp add: count_list_1)
  moreover have "bit e i \<longleftrightarrow> bit (es_enum st) i \<or> (i < length ts \<and> ts ! i = w)"
    using sp(1) [of i] assms(4) w(2) by simp
  ultimately show "word_nr st' = word_nr st + 1" "known_words st' = known_words st + 1"
    "seen_all_kw st' = seen_all_kw st" "seen_none_kw st' = seen_none_kw st"
    "bit (es_enum st') i \<longleftrightarrow> bit (es_enum st) i \<or> (i < length ts \<and> ts ! i = w)"
    using r kw by (simp_all add: st'_def enum_word_def Let_def)
qed

lemma enum_words_run:
  assumes "distinct ts" "\<forall>t\<in>set ts. cstring t" "length ts \<le> 32" "enum_words_ok ts ws"
  shows "word_nr (foldl (enum_word al ts) st ws) = word_nr st + length ws"
    and "known_words (foldl (enum_word al ts) st ws) = known_words st + length ws"
    and "seen_all_kw (foldl (enum_word al ts) st ws) = seen_all_kw st"
    and "seen_none_kw (foldl (enum_word al ts) st ws) = seen_none_kw st"
    and "bit (es_enum (foldl (enum_word al ts) st ws)) i \<longleftrightarrow>
       bit (es_enum st) i \<or> (i < length ts \<and> ts ! i \<in> set ws)"
proof -
  have "word_nr (foldl (enum_word al ts) st ws) = word_nr st + length ws \<and>
    known_words (foldl (enum_word al ts) st ws) = known_words st + length ws \<and>
    seen_all_kw (foldl (enum_word al ts) st ws) = seen_all_kw st \<and>
    seen_none_kw (foldl (enum_word al ts) st ws) = seen_none_kw st \<and>
    (bit (es_enum (foldl (enum_word al ts) st ws)) i \<longleftrightarrow>
       bit (es_enum st) i \<or> (i < length ts \<and> ts ! i \<in> set ws))"
    using assms(4)
  proof (induction ws arbitrary: st)
    case (Cons w ws)
    then have "enum_words_ok ts [w]" "enum_words_ok ts ws" by (auto simp: enum_words_ok_def)
    note step = enum_word_step [OF assms(1-3) this(1), of al st] and this(2)
    with Cons.IH [of "enum_word al ts st w"] show ?case by auto
  qed simp
  then show "word_nr (foldl (enum_word al ts) st ws) = word_nr st + length ws"
    and "known_words (foldl (enum_word al ts) st ws) = known_words st + length ws"
    and "seen_all_kw (foldl (enum_word al ts) st ws) = seen_all_kw st"
    and "seen_none_kw (foldl (enum_word al ts) st ws) = seen_none_kw st"
    and "bit (es_enum (foldl (enum_word al ts) st ws)) i \<longleftrightarrow>
       bit (es_enum st) i \<or> (i < length ts \<and> ts ! i \<in> set ws)"
    by blast+
qed

lemma parse_enum_set_words:
  assumes "length tokens \<le> 1000" "length input \<le> 1000" "cstring tokens"
    "distinct (strtok_all '','' tokens)" "length (strtok_all '','' tokens) \<le> 32"
    "strtok_all '','' input \<noteq> []"
    "enum_words_ok (strtok_all '','' tokens) (strtok_all '','' input)"
  shows "\<exists>e. vg_parse_enum_set tokens allow_all input e0 = (True, e) \<and>
     (\<forall>i. bit e i \<longleftrightarrow> i < length (strtok_all '','' tokens) \<and>
        strtok_all '','' tokens ! i \<in> set (strtok_all '','' input))"
proof -
  define ts ws where tw: "ts = strtok_all '','' tokens" "ws = strtok_all '','' input"
  define st where "st = foldl (enum_word allow_all ts)
    \<lparr>word_nr = 0, known_words = 0, seen_all_kw = False, seen_none_kw = False, es_all = 0, es_enum = 0\<rparr> ws"
  have cs: "\<forall>t\<in>set ts. cstring t"
    using strtok_all_token [OF assms(3)] by (auto simp: token_def tw)
  have run: "word_nr st = length ws" "known_words st = length ws" "\<not> seen_all_kw st"
    "\<not> seen_none_kw st" "bit (es_enum st) i \<longleftrightarrow> i < length ts \<and> ts ! i \<in> set ws" for i
    using enum_words_run [OF assms(4) [folded tw] cs assms(5) [folded tw] assms(7) [folded tw]]
    by (simp_all add: st_def)
  from assms(6) obtain w where "w \<in> set ws" by (cases ws) (auto simp: tw)
  moreover from this have "w \<in> set ts" using assms(7) by (simp add: enum_words_ok_def tw)
  ultimately obtain i where "i < length ts" "ts ! i \<in> set ws" by (metis in_set_conv_nth)
  then have "es_enum st \<noteq> 0" using run(5) [of i] by auto
  then have "vg_parse_enum_set tokens allow_all input e0 = (True, es_enum st)"
    using assms(1,2) run(1-4)
    by (simp add: vg_parse_enum_set_def tw [symmetric] st_def [symmetric])
  with run(5) show ?thesis by (simp add: tw)
qed

section \<open>Properties\<close>

text \<open>
  \<^verbatim>\<open>VG_(strcmp)\<close> is a three-way comparison of C strings: it returns zero exactly on equal
  strings, it is negative exactly when the first string is smaller in the lexicographic
  order of unsigned bytes, and exchanging the arguments negates the result.
\<close>

theorem strcmp_correct:
  assumes "cstring s" "cstring t"
  shows "(vg_strcmp s t = 0 \<longleftrightarrow> s = t) \<and>
     (vg_strcmp s t < 0 \<longleftrightarrow> (s, t) \<in> lexord {(a, b). uchar a < uchar b}) \<and>
     vg_strcmp t s = - vg_strcmp s t"
  using assms strcmp_flip [OF assms] by (simp add: strcmp_eq_0 strcmp_lexord)

theorem strcmp_correct_witness:
  "vg_strcmp ''abc'' ''abd'' < 0 \<longleftrightarrow> (''abc'', ''abd'') \<in> lexord {(a, b). uchar a < uchar b}"
  using strcmp_correct [of "''abc''" "''abd''"] by (simp add: NUL_def)

text \<open>
  C38. \<^verbatim>\<open>VG_(strstr)\<close> returns \<^verbatim>\<open>NULL\<close> exactly when a non-empty needle does not occur, and
  otherwise a pointer to its first occurrence.
\<close>

theorem strstr_correct:
  assumes "cstring h" "cstring n" "n \<noteq> []"
  shows "case vg_strstr (Some h) n of
     None \<Rightarrow> (\<forall>p r. h \<noteq> p @ n @ r)
   | Some s \<Rightarrow> \<exists>p r. h = p @ s \<and> s = n @ r \<and> (\<forall>p' r'. h = p' @ n @ r' \<longrightarrow> length p \<le> length p')"
  using strstr_loop_spec [OF assms] by (simp add: vg_strstr_def)

theorem strstr_correct_witness:
  "case vg_strstr (Some (''operator '' @ ''new'' @ ''[]'')) ''new'' of
     None \<Rightarrow> False | Some s \<Rightarrow> \<exists>r. s = ''new'' @ r"
proof -
  define h n where hn: "h = ''operator '' @ ''new'' @ ''[]''" "n = ''new''"
  have "cstring h" "cstring n" "n \<noteq> []" by (simp_all add: hn NUL_def)
  note T = strstr_correct [OF this]
  have "\<exists>p r. h = p @ n @ r" unfolding hn by blast
  with T have "case vg_strstr (Some h) n of None \<Rightarrow> False | Some s \<Rightarrow> \<exists>r. s = n @ r"
    by (cases "vg_strstr (Some h) n") (simp only: option.case, blast)+
  then show ?thesis unfolding hn .
qed

text \<open>
  C40. \<^verbatim>\<open>VG_(strrchr)\<close> on a string shorter than 2 GiB finds the last occurrence of the character among
  the positions \<open>1\<close> and up; because the loop stops before it looks at position \<open>0\<close>, a string in
  which the character occurs only at the start gives \<^verbatim>\<open>NULL\<close>. (The length is converted to a
  32-bit \<^verbatim>\<open>Int\<close>; a longer string can give \<^verbatim>\<open>NULL\<close> without any position being looked at.)
\<close>

theorem strrchr_skips_first:
  assumes "length s < 2 ^ 31"
  shows "vg_strrchr s c =
     (if \<exists>i. 0 < i \<and> i < length s \<and> s ! i = c
      then Some (drop (GREATEST i. 0 < i \<and> i < length s \<and> s ! i = c) s) else None)"
proof -
  have "sint (word_of_nat (length s) :: 32 word) = int (length s)"
    using assms by (simp add: sint_of_nat_small)
  then show ?thesis by (simp add: vg_strrchr_def strrchr_loop_spec)
qed

theorem strrchr_skips_first_witness: "vg_strrchr ''/usr'' (CHR ''/'') = None"
  using strrchr_skips_first [of "''/usr''" "CHR ''/''"] by (auto simp: less_Suc_eq nth_Cons')

text \<open>
  C39. \<^verbatim>\<open>VG_(parse_enum_set)\<close> accepts an input whose words are all among the tokens (and none of
  them a keyword or \<^verbatim>\<open>-\<close>), and sets exactly the bits of the tokens that occur in it.
\<close>

theorem parse_enum_set_correct:
  assumes "length tokens \<le> 1000" "length input \<le> 1000" "cstring tokens"
    "distinct (strtok_all '','' tokens)" "length (strtok_all '','' tokens) \<le> 32"
    "strtok_all '','' input \<noteq> []"
    "enum_words_ok (strtok_all '','' tokens) (strtok_all '','' input)"
  shows "\<exists>e. vg_parse_enum_set tokens allow_all input e0 = (True, e) \<and>
     (\<forall>i. bit e i \<longleftrightarrow> i < length (strtok_all '','' tokens) \<and>
        strtok_all '','' tokens ! i \<in> set (strtok_all '','' input))"
  using assms by (rule parse_enum_set_words)

theorem parse_enum_set_correct_witness:
  "\<exists>e. vg_parse_enum_set ''gdb,mem,'' True ''mem,'' 0 = (True, e) \<and> bit e 1 \<and> \<not> bit e 0"
proof -
  have t: "strtok_all '','' ''gdb,mem,'' = [''gdb'', ''mem'']"
    using strtok_all_join [of "CHR '',''" "'',''" "[''gdb'', ''mem'']"] by (simp add: token_def NUL_def)
  have i: "strtok_all '','' ''mem,'' = [''mem'']"
    using strtok_all_join [of "CHR '',''" "'',''" "[''mem'']"] by (simp add: token_def NUL_def)
  have "\<exists>e. vg_parse_enum_set ''gdb,mem,'' True ''mem,'' 0 = (True, e) \<and>
     (\<forall>i. bit e i \<longleftrightarrow> i < length (strtok_all '','' ''gdb,mem,'') \<and>
        strtok_all '','' ''gdb,mem,'' ! i \<in> set (strtok_all '','' ''mem,''))"
    by (rule parse_enum_set_correct) (simp_all add: t i NUL_def enum_words_ok_def)
  then show ?thesis by (force simp: t i)
qed

end
