(* ===== verification/Vg_Format.thy ===== *)
theory Vg_Format
  imports Vg_Strings
begin

text \<open>
  The formatting engine of \<^verbatim>\<open>coregrind/m_debuglog.c\<close>: \<^verbatim>\<open>VG_(debugLog_vprintf)\<close> and the
  routines that print strings and 64-bit integers. The characters passed to \<^verbatim>\<open>send\<close> are
  returned as a list, in order, together with the count \<^verbatim>\<open>ret\<close> that the C code returns.
  Arguments come as a list of tagged values: \<open>VaInt\<close> is \<^verbatim>\<open>int\<close> or \<^verbatim>\<open>UInt\<close>, \<open>VaLong\<close> is any
  64-bit integer or pointer, \<open>VaStr\<close> a string pointer. \<open>None\<close> stands for undefined
  behaviour: an argument of another type, a format string that is read past its end, or a
  field width that overflows its \<^verbatim>\<open>Int\<close>. Strings are shorter than 2 GiB, so that their length is an
  \<^verbatim>\<open>Int\<close>.
  \<^verbatim>\<open>%f\<close> works on \<^verbatim>\<open>Double\<close> and is outside the model: it has no argument form.
\<close>

datatype va_arg = VaInt "32 word" | VaLong "64 word" | VaStr "string option"

definition VG_MSG_SIGNED :: "32 word" where "VG_MSG_SIGNED = 1"

definition VG_MSG_ZJUSTIFY :: "32 word" where "VG_MSG_ZJUSTIFY = 2"

definition VG_MSG_LJUSTIFY :: "32 word" where "VG_MSG_LJUSTIFY = 4"

definition VG_MSG_PAREN :: "32 word" where "VG_MSG_PAREN = 8"

definition VG_MSG_COMMA :: "32 word" where "VG_MSG_COMMA = 16"

definition VG_MSG_ALTFORMAT :: "32 word" where "VG_MSG_ALTFORMAT = 32"

text \<open>\<open>flags & bit\<close> as a condition.\<close>

definition has :: "32 word \<Rightarrow> 32 word \<Rightarrow> bool" where
  "has flags b \<longleftrightarrow> flags AND b \<noteq> 0"

definition local_toupper :: "char \<Rightarrow> char" where
  "local_toupper c =
     (if schar c \<ge> schar (CHR ''a'') \<and> schar c \<le> schar (CHR ''z'')
      then char_of (schar c + (schar (CHR ''A'') - schar (CHR ''a''))) else c)"

section \<open>Printing a string\<close>

definition myvprintf_str ::
  "32 word \<Rightarrow> int \<Rightarrow> string \<Rightarrow> bool \<Rightarrow> string \<times> 32 word" where
  "myvprintf_str flags width str capitalise =
     (let up = (\<lambda>c. if capitalise then local_toupper c else c);
          len = int (vg_strlen str)
      in if width = 0 then (map up str, word_of_int len)
         else if len > width then (map up (take (nat width) str), word_of_int width)
         else let extra = width - len; pad = replicate (nat extra) CHR '' ''
              in ((if has flags VG_MSG_LJUSTIFY then [] else pad) @ map up str @
                    (if has flags VG_MSG_LJUSTIFY then pad else []),
                  (if has flags VG_MSG_LJUSTIFY then 0 else word_of_int extra) +
                    word_of_int len +
                    (if has flags VG_MSG_LJUSTIFY then word_of_int extra else 0)))"

definition xml_alt :: "char \<Rightarrow> string" where
  "xml_alt c = (if c = CHR ''&'' then ''&amp;'' else if c = CHR ''<'' then ''&lt;''
     else if c = CHR ''>'' then ''&gt;'' else [c])"

fun myvprintf_str_XML_simplistic :: "string \<Rightarrow> string \<times> 32 word" where
  "myvprintf_str_XML_simplistic [] = ([], 0)"
| "myvprintf_str_XML_simplistic (c # cs) =
     (let alt = xml_alt c; (out, ret) = myvprintf_str_XML_simplistic cs
      in (alt @ out, of_nat (length alt) + ret))"

section \<open>Printing an integer\<close>

definition digit_chars :: "bool \<Rightarrow> string" where
  "digit_chars capitalised = (if capitalised then ''0123456789ABCDEF'' else ''0123456789abcdef'')"

text \<open>
  The loop that writes the digits, least significant first; \<open>buf\<close> is \<^verbatim>\<open>buf[0 .. ind - 1]\<close>,
  so \<^verbatim>\<open>ind\<close> is its length, and \<open>nc\<close> counts the commas.
\<close>

function int64_loop :: "32 word \<Rightarrow> nat \<Rightarrow> string \<Rightarrow> nat \<Rightarrow> nat \<Rightarrow> string \<Rightarrow> string" where
  "int64_loop flags base digits p nc buf =
     (if p > 0 \<and> base \<ge> 2 then
        let comma = (has flags VG_MSG_COMMA \<and> 10 = base \<and>
               (length buf - nc) mod 3 = 0 \<and> length buf \<noteq> 0);
            nc = (if comma then nc + 1 else nc);
            buf = (if comma then buf @ '','' else buf);
            buf = buf @ [digits ! (p mod base)]
        in int64_loop flags base digits (p div base) nc buf
      else buf)"
  by auto
termination
  by (relation "measure (\<lambda>(flags, base, digits, p, nc, buf). p)") auto

declare int64_loop.simps [simp del]

text \<open>
  \<^verbatim>\<open>buf\<close> when it is complete: digits, sign and padding on the left. The array has
  \<open>int64_bufsize width\<close> elements.
\<close>

definition int64_bufsize :: "int \<Rightarrow> int" where
  "int64_bufsize width = (if width + 1 > 90 then width + 1 else 90)"

definition int64_buf :: "32 word \<Rightarrow> nat \<Rightarrow> int \<Rightarrow> bool \<Rightarrow> ULong \<Rightarrow> string" where
  "int64_buf flags base width capitalised p =
     (let neg = (has flags VG_MSG_SIGNED \<and> sint p < 0);
          p = (if neg then - p else p);
          buf = (if p = 0 then ''0''
                 else int64_loop flags base (digit_chars capitalised) (unat p) 0 []);
          buf = (if neg then buf @ ''-'' else buf)
      in if width > 0 \<and> \<not> has flags VG_MSG_LJUSTIFY
         then buf @ replicate (nat width - length buf)
                      (if has flags VG_MSG_ZJUSTIFY then CHR ''0'' else CHR '' '')
         else buf)"

definition myvprintf_int64 ::
  "32 word \<Rightarrow> nat \<Rightarrow> int \<Rightarrow> bool \<Rightarrow> ULong \<Rightarrow> string \<times> 32 word" where
  "myvprintf_int64 flags base width capitalised p =
     (if base < 2 \<or> base > 16 then ([], 0)
      else
        let buf = int64_buf flags base width capitalised p;
            pad = (if width > 0 \<and> has flags VG_MSG_LJUSTIFY then nat width - length buf else 0)
        in (rev buf @ replicate pad CHR '' '', of_nat (length buf) + of_nat pad))"

section \<open>The format string\<close>

fun parse_flags :: "string \<Rightarrow> 32 word \<Rightarrow> 32 word \<times> string" where
  "parse_flags [] flags = (flags, [])"
| "parse_flags (c # cs) flags =
     (if c = CHR ''('' then parse_flags cs (flags OR VG_MSG_PAREN)
      else if c = CHR '','' \<or> c = CHR 0x27 then parse_flags cs (flags OR VG_MSG_COMMA)
      else if c = CHR ''-'' then parse_flags cs (flags OR VG_MSG_LJUSTIFY)
      else if c = CHR ''0'' then parse_flags cs (flags OR VG_MSG_ZJUSTIFY)
      else if c = CHR ''#'' then parse_flags cs (flags OR VG_MSG_ALTFORMAT)
      else (flags, c # cs))"

text \<open>
  The digits of a field width or precision. The value is kept in an \<^verbatim>\<open>Int\<close>: signed overflow is
  undefined, so \<open>None\<close>.
\<close>

fun parse_digits :: "string \<Rightarrow> int \<Rightarrow> (int \<times> string) option" where
  "parse_digits [] n = Some (n, [])"
| "parse_digits (c # cs) n =
     (if schar c \<ge> schar (CHR ''0'') \<and> schar c \<le> schar (CHR ''9'')
      then let n = n * 10 + (schar c - schar (CHR ''0'')) in if n < 2 ^ 31 then parse_digits cs n else None
      else Some (n, c # cs))"

text \<open>The field width, from the next argument or from the digits.\<close>

definition parse_width :: "string \<Rightarrow> va_arg list \<Rightarrow> (int \<times> string \<times> va_arg list) option" where
  "parse_width f vargs =
     (if cur f = CHR ''*'' then
        (case vargs of VaInt w # vargs \<Rightarrow> Some (sint w, tl f, vargs) | _ \<Rightarrow> None)
      else map_option (\<lambda>(width, f). (width, f, vargs)) (parse_digits f 0))"

definition parse_precision ::
  "string \<Rightarrow> va_arg list \<Rightarrow> (int \<times> string \<times> va_arg list) option" where
  "parse_precision f vargs =
     (if cur f = CHR ''.'' then parse_width (tl f) vargs else Some (-1, f, vargs))"

fun parse_ls :: "string \<Rightarrow> nat \<Rightarrow> nat \<times> string" where
  "parse_ls [] n_ls = (n_ls, [])"
| "parse_ls (c # cs) n_ls =
     (if c = CHR ''l'' then parse_ls cs (n_ls + 1) else (n_ls, c # cs))"

text \<open>\<^verbatim>\<open>is_sizet\<close>, \<^verbatim>\<open>is_long\<close> on a target with 64-bit pointers, and the rest.\<close>

definition parse_size :: "string \<Rightarrow> bool \<times> bool \<times> string" where
  "parse_size f =
     (if cur f = CHR ''z'' then (True, False, tl f)
      else let (n_ls, f) = parse_ls f 0 in (False, n_ls \<noteq> 0, f))"

text \<open>\<^verbatim>\<open>va_arg\<close> at the types the conversions use, and the widening to \<^verbatim>\<open>ULong\<close>.\<close>

definition arg_unsigned :: "bool \<Rightarrow> va_arg list \<Rightarrow> (ULong \<times> va_arg list) option" where
  "arg_unsigned long vargs = (case vargs of
     VaLong x # vargs \<Rightarrow> if long then Some (x, vargs) else None
   | VaInt x # vargs \<Rightarrow> if long then None else Some (ucast x, vargs)
   | _ \<Rightarrow> None)"

definition arg_signed :: "bool \<Rightarrow> va_arg list \<Rightarrow> (ULong \<times> va_arg list) option" where
  "arg_signed long vargs = (case vargs of
     VaLong x # vargs \<Rightarrow> if long then Some (x, vargs) else None
   | VaInt x # vargs \<Rightarrow> if long then None else Some (scast x, vargs)
   | _ \<Rightarrow> None)"

definition arg_str :: "va_arg list \<Rightarrow> (string \<times> va_arg list) option" where
  "arg_str vargs = (case vargs of
     VaStr s # vargs \<Rightarrow> Some (case s of None \<Rightarrow> ''(null)'' | Some s \<Rightarrow> s, vargs)
   | _ \<Rightarrow> None)"

text \<open>
  The switch on the conversion character: what is sent, what is added to \<^verbatim>\<open>ret\<close>, how many
  characters of the format the conversion takes, and the arguments left.
\<close>

definition conv_int ::
  "32 word \<Rightarrow> nat \<Rightarrow> int \<Rightarrow> bool \<Rightarrow> string \<Rightarrow> 32 word \<Rightarrow> (ULong \<times> va_arg list) option \<Rightarrow>
   (string \<times> 32 word \<times> nat \<times> va_arg list) option" where
  "conv_int flags base width caps prefix added arg = do {
     (x, vargs) \<leftarrow> arg;
     let (out, ret) = myvprintf_int64 flags base width caps x;
     if width + 1 < 2 ^ 31 then Some (prefix @ out, added + ret, 1, vargs) else None
   }"

definition conversion ::
  "bool \<Rightarrow> 32 word \<Rightarrow> int \<Rightarrow> bool \<Rightarrow> bool \<Rightarrow> string \<Rightarrow> va_arg list \<Rightarrow>
   (string \<times> 32 word \<times> nat \<times> va_arg list) option" where
  "conversion xml flags width is_sizet is_long f vargs =
     (let c = cur f; alt = has flags VG_MSG_ALTFORMAT in
      if c = NUL then None
      else if c = CHR ''o'' then
        conv_int flags 8 width False (if alt then ''0'' else []) (if alt then 2 else 0)
          (arg_unsigned (is_sizet \<or> is_long) vargs)
      else if c = CHR ''d'' then
        conv_int (flags OR VG_MSG_SIGNED) 10 width False [] 0 (arg_signed is_long vargs)
      else if c = CHR ''u'' then
        conv_int flags 10 width False [] 0 (arg_unsigned (is_sizet \<or> is_long) vargs)
      else if c = CHR ''p'' then
        if cur (tl f) = CHR ''S'' then do {
          (str, vargs) \<leftarrow> arg_str vargs;
          let (out, ret) = myvprintf_str_XML_simplistic str;
          Some (out, ret, 2, vargs)
        }
        else if cur (tl f) = CHR ''s'' then do {
          (str, vargs) \<leftarrow> arg_str vargs;
          let (out, ret) = (if xml then myvprintf_str_XML_simplistic str
                            else myvprintf_str flags width str False);
          Some (out, ret, 2, vargs)
        }
        else conv_int flags 16 width True ''0x'' 2 (arg_unsigned True vargs)
      else if c = CHR ''x'' \<or> c = CHR ''X'' then
        conv_int flags 16 width (\<not> is_sizet \<and> c = CHR ''X'')
          (if alt then ''0x'' else []) (if alt then 2 else 0)
          (arg_unsigned (is_sizet \<or> is_long) vargs)
      else if c = CHR ''c'' then
        (case vargs of VaInt x # vargs \<Rightarrow> Some ([char_of (uint x)], 1, 1, vargs) | _ \<Rightarrow> None)
      else if c = CHR ''s'' \<or> c = CHR ''S'' then do {
        (str, vargs) \<leftarrow> arg_str vargs;
        let (out, ret) = myvprintf_str flags width str (c = CHR ''S'');
        Some (out, ret, 1, vargs)
      }
      else if c = CHR ''f'' then None
      else Some ([], 0, 1, vargs))"

text \<open>
  One directive after its \<^verbatim>\<open>%\<close>: flags, width, precision (which no conversion here uses), size
  and conversion. The result has the format after the directive.
\<close>

definition directive ::
  "bool \<Rightarrow> string \<Rightarrow> va_arg list \<Rightarrow> (string \<times> 32 word \<times> string \<times> va_arg list) option" where
  "directive xml f vargs = do {
     let (flags, f) = parse_flags f 0;
     (width, f, vargs) \<leftarrow> parse_width f vargs;
     (precision, f, vargs) \<leftarrow> parse_precision f vargs;
     let (is_sizet, is_long, f) = parse_size f;
     (out, ret, n, vargs) \<leftarrow> conversion xml flags width is_sizet is_long f vargs;
     Some (out, ret, drop n f, vargs)
   }"


lemma parse_flags_le: "parse_flags f fl = (fl', f') \<Longrightarrow> length f' \<le> length f"
  by (induction f fl rule: parse_flags.induct) (auto split: if_splits)

lemma parse_digits_le: "parse_digits f n = Some (n', f') \<Longrightarrow> length f' \<le> length f"
  by (induction f n rule: parse_digits.induct) (auto simp: Let_def split: if_splits)

lemma parse_width_le: "parse_width f v = Some (w, f', v') \<Longrightarrow> length f' \<le> length f"
  by (auto simp: parse_width_def dest: parse_digits_le
      split: if_splits list.splits va_arg.splits prod.splits)

lemma parse_precision_le: "parse_precision f v = Some (w, f', v') \<Longrightarrow> length f' \<le> length f"
  by (auto simp: parse_precision_def dest: parse_width_le split: if_splits)

lemma parse_ls_le: "parse_ls f n = (n', f') \<Longrightarrow> length f' \<le> length f"
  by (induction f n rule: parse_ls.induct) (auto split: if_splits)

lemma parse_size_le: "parse_size f = (z, l, f') \<Longrightarrow> length f' \<le> length f"
  by (auto simp: parse_size_def dest: parse_ls_le split: if_splits prod.splits)

lemma conversion_takes:
  "conversion xml flags width z l f v = Some (out, ret, n, v') \<Longrightarrow> f \<noteq> [] \<and> n > 0"
  by (auto simp: conversion_def conv_int_def bind_eq_Some_conv Let_def case_prod_unfold
      split: if_splits list.splits va_arg.splits)

lemma directive_shorter:
  assumes "directive xml f v = Some (out, ret, f', v')"
  shows "length f' < length f"
proof -
  obtain fl f1 where fl: "parse_flags f 0 = (fl, f1)" by (cases "parse_flags f 0")
  with assms obtain w f2 v2 p f3 v3
    where p: "parse_width f1 v = Some (w, f2, v2)" "parse_precision f2 v2 = Some (p, f3, v3)"
    by (auto simp: directive_def bind_eq_Some_conv)
  obtain z l f4 where sz: "parse_size f3 = (z, l, f4)" by (cases "parse_size f3")
  with fl p assms obtain n
    where c: "conversion xml fl w z l f4 v3 = Some (out, ret, n, v')" "f' = drop n f4"
    by (auto simp: directive_def bind_eq_Some_conv)
  from conversion_takes [OF c(1)] c(2) have "length f' < length f4"
    by (cases f4) auto
  with parse_flags_le [OF fl] parse_width_le [OF p(1)] parse_precision_le [OF p(2)]
    parse_size_le [OF sz] show ?thesis by linarith
qed

text \<open>
  The loop over the format. The count is accumulated in \<^verbatim>\<open>ret\<close>, what is sent in \<open>out\<close>.
\<close>

function debugLog_vprintf ::
  "bool \<Rightarrow> string \<Rightarrow> va_arg list \<Rightarrow> (string \<times> 32 word) option" where
  "debugLog_vprintf xml f vargs =
     (if cur f = NUL then Some ([], 0)
      else if cur f \<noteq> CHR ''%'' then
        map_option (\<lambda>(out, ret). (cur f # out, 1 + ret)) (debugLog_vprintf xml (tl f) vargs)
      else if cur (tl f) = NUL then Some ([], 0)
      else if cur (tl f) = CHR ''%'' then
        map_option (\<lambda>(out, ret). (CHR ''%'' # out, 1 + ret))
          (debugLog_vprintf xml (tl (tl f)) vargs)
      else (case directive xml (tl f) vargs of
          None \<Rightarrow> None
        | Some (out, ret, f', vargs') \<Rightarrow>
            map_option (\<lambda>(out', ret'). (out @ out', ret + ret')) (debugLog_vprintf xml f' vargs')))"
  by auto
termination
proof (relation "measure (\<lambda>(xml, f, v). length f)", goal_cases)
  case (4 xml f v x z xa y xb ya)
  then show ?case by (cases f) (auto dest!: directive_shorter)
qed (auto simp: cur_def split: list.splits)

declare debugLog_vprintf.simps [simp del]


section \<open>Digits\<close>

text \<open>The digits of a number in a base, least significant first.\<close>

function rdigits :: "nat \<Rightarrow> nat \<Rightarrow> nat list" where
  "rdigits b p = (if p > 0 \<and> b \<ge> 2 then p mod b # rdigits b (p div b) else [])"
  by auto
termination by (relation "measure snd") auto

declare rdigits.simps [simp del]

lemma rdigits_0 [simp]: "rdigits b 0 = []"
  by (simp add: rdigits.simps)

lemma rdigits_step: "p > 0 \<Longrightarrow> b \<ge> 2 \<Longrightarrow> rdigits b p = p mod b # rdigits b (p div b)"
  by (subst rdigits.simps) simp

lemma int64_loop_plain:
  "\<not> (has flags VG_MSG_COMMA \<and> base = 10) \<Longrightarrow>
   int64_loop flags base ds p nc buf = buf @ map (\<lambda>d. ds ! d) (rdigits base p)"
proof (induction base p arbitrary: buf rule: rdigits.induct)
  case (1 b p)
  show ?case
  proof (cases "p > 0 \<and> b \<ge> 2")
    case True
    have "int64_loop flags b ds p nc buf = int64_loop flags b ds (p div b) nc (buf @ [ds ! (p mod b)])"
      using True "1.prems" by (subst int64_loop.simps) (auto simp: Let_def)
    with 1 True show ?thesis by (simp add: rdigits_step)
  next
    case False
    then show ?thesis by (subst int64_loop.simps, subst rdigits.simps) auto
  qed
qed

lemma rdigits_less: "b \<ge> 2 \<Longrightarrow> d \<in> set (rdigits b p) \<Longrightarrow> d < b"
proof (induction b p rule: rdigits.induct)
  case (1 b p)
  then show ?case by (cases "p > 0") (auto simp: rdigits_step)
qed

lemma rdigits_value: "b \<ge> 2 \<Longrightarrow> foldl (\<lambda>v d. b * v + d) 0 (rev (rdigits b p)) = p"
proof (induction b p rule: rdigits.induct)
  case (1 b p)
  then show ?case by (cases "p > 0") (auto simp: rdigits_step)
qed

lemma rdigits_length: "b \<ge> 2 \<Longrightarrow> p < b ^ n \<Longrightarrow> length (rdigits b p) \<le> n"
proof (induction n arbitrary: p)
  case (Suc n)
  then have "p div b < b ^ n"
    by (simp add: less_mult_imp_div_less mult.commute)
  with Suc show ?case by (cases "p > 0") (auto simp: rdigits_step)
qed simp

lemma rdigits_Nil_iff: "b \<ge> 2 \<Longrightarrow> rdigits b p = [] \<longleftrightarrow> p = 0"
  by (cases "p > 0") (auto simp: rdigits_step)

text \<open>What is printed for an unsigned number without padding and commas.\<close>

definition dlist :: "nat \<Rightarrow> nat \<Rightarrow> nat list" where
  "dlist b p = (if p = 0 then [0] else rev (rdigits b p))"

definition num :: "nat \<Rightarrow> bool \<Rightarrow> nat \<Rightarrow> string" where
  "num b caps p = map (\<lambda>d. digit_chars caps ! d) (dlist b p)"

lemma dlist_less: "b \<ge> 2 \<Longrightarrow> \<forall>d\<in>set (dlist b p). d < b"
  by (auto simp: dlist_def rdigits_less)

lemma dlist_value: "b \<ge> 2 \<Longrightarrow> foldl (\<lambda>v d. b * v + d) 0 (dlist b p) = p"
  by (auto simp: dlist_def rdigits_value)

lemma dlist_length: "b \<ge> 2 \<Longrightarrow> p < b ^ n \<Longrightarrow> n > 0 \<Longrightarrow> length (dlist b p) \<le> n"
  by (auto simp: dlist_def rdigits_length)

lemma dlist_not_Nil [simp]: "b \<ge> 2 \<Longrightarrow> dlist b p \<noteq> []"
  by (auto simp: dlist_def rdigits_Nil_iff)

lemma int64_unsigned:
  assumes "2 \<le> b" "b \<le> 16" "\<not> has flags VG_MSG_SIGNED" "\<not> (has flags VG_MSG_COMMA \<and> b = 10)"
  shows "myvprintf_int64 flags b 0 caps p = (num b caps (unat p), of_nat (length (num b caps (unat p))))"
  using assms
  by (auto simp: myvprintf_int64_def int64_buf_def num_def dlist_def int64_loop_plain rev_map unat_eq_0
      digit_chars_def)

lemma digit_chars_length [simp]: "length (digit_chars caps) = 16"
  by (simp add: digit_chars_def)

lemma digit_chars_upto: "\<forall>d\<in>set [0..<16]. is_hex_digit (digit_chars caps ! d) = Some (int d) \<and>
    isHex (digit_chars caps ! d) \<and> fromHex (digit_chars caps ! d) = word_of_nat d \<and> digit_chars caps ! d \<noteq> NUL"
  by (cases caps) (simp_all add: digit_chars_def is_hex_digit_def isHex_def fromHex_def schar_def NUL_def upt_rec)

lemma dec_chars_upto: "\<forall>d\<in>set [0..<10]. is_dec_digit (digit_chars caps ! d) = Some (int d) \<and> isdigit (digit_chars caps ! d)"
  by (cases caps) (simp_all add: digit_chars_def is_dec_digit_def isdigit_def schar_def upt_rec)

lemma foldl_of_nat:
  "foldl (\<lambda>v d. of_nat b * v + of_nat d) (of_nat n) ds =
     (of_nat (foldl (\<lambda>v d. b * v + d) n ds) :: 'a::len word)"
  by (induction ds arbitrary: n) (auto simp flip: of_nat_mult of_nat_add)

lemma dlist_word:
  "b \<ge> 2 \<Longrightarrow> foldl (\<lambda>v d. of_nat b * v + of_nat d) 0 (dlist b p) = (of_nat p :: 'a::len word)"
proof -
  assume "b \<ge> 2"
  then show ?thesis
    using foldl_of_nat [of b 0 "dlist b p", where 'a = 'a] dlist_value [of b p] by simp
qed

lemma hex_loop_digits:
  "\<forall>d\<in>set ds. d < 16 \<Longrightarrow> is_hex_digit (cur rest) = None \<Longrightarrow>
   hex_loop n b (map (\<lambda>d. digit_chars caps ! d) ds @ rest) =
     (foldl (\<lambda>v d. 16 * v + of_nat d) n ds, b \<or> ds \<noteq> [], rest)"
proof (induction ds arbitrary: n b)
  case Nil
  then show ?case by (cases rest) auto
next
  case (Cons d ds)
  then have "is_hex_digit (digit_chars caps ! d) = Some (int d)"
    using digit_chars_upto by simp
  with Cons show ?case by simp
qed

lemma dec_loop_digits:
  "\<forall>d\<in>set ds. d < 10 \<Longrightarrow> is_dec_digit (cur rest) = None \<Longrightarrow>
   dec_loop n b (map (\<lambda>d. digit_chars caps ! d) ds @ rest) =
     (foldl (\<lambda>v d. 10 * v + of_nat d) n ds, b \<or> ds \<noteq> [], rest)"
proof (induction ds arbitrary: n b)
  case Nil
  then show ?case by (cases rest) auto
next
  case (Cons d ds)
  then have "is_dec_digit (digit_chars caps ! d) = Some (int d)"
    using dec_chars_upto by simp
  with Cons show ?case by simp
qed

lemma shift_or_digit:
  assumes "d < 16"
  shows "push_bit 4 v OR of_nat d = 16 * v + (of_nat d :: 64 word)"
proof -
  have "\<not> bit (of_nat d :: 64 word) n" if "n \<ge> 4" for n
  proof -
    have "(16::nat) \<le> 2 ^ n" using power_increasing [of 4 n "2::nat"] that by simp
    with assms have "d div 2 ^ n = 0" by simp
    then have "\<not> bit d n" by (simp only: bit_iff_odd even_zero not_not)
    then show ?thesis by (simp add: bit_of_nat_iff)
  qed
  then have "push_bit 4 v AND (of_nat d :: 64 word) = 0"
    by (intro bit_eqI) (auto simp: bit_and_iff bit_push_bit_iff)
  then have "push_bit 4 v + (of_nat d :: 64 word) = push_bit 4 v OR of_nat d"
    by (rule disjunctive_add_eq_or)
  then show ?thesis by (simp add: push_bit_eq_mult mult.commute)
qed

lemma parse_Addr_loop_digits:
  "\<forall>d\<in>set ds. d < 16 \<Longrightarrow> \<not> isHex (cur rest) \<Longrightarrow> used + length ds \<le> 16 \<Longrightarrow>
   parse_Addr_loop (map (\<lambda>d. digit_chars caps ! d) ds @ rest) r used =
     (used + length ds \<noteq> 0, rest, foldl (\<lambda>v d. 16 * v + of_nat d) r ds)"
proof (induction ds arbitrary: r used)
  case Nil
  then show ?case by (cases rest) auto
next
  case (Cons d ds)
  then have "isHex (digit_chars caps ! d)" "fromHex (digit_chars caps ! d) = of_nat d"
    using digit_chars_upto by simp_all
  moreover have "ucast (of_nat d :: 32 word) = (of_nat d :: 64 word)"
    using Cons.prems(1) by (simp add: unsigned_of_nat take_bit_nat_eq_self)
  ultimately show ?case using Cons by (simp add: Let_def shift_or_digit)
qed

lemma hex_loop_num:
  assumes "is_hex_digit (cur rest) = None"
  shows "hex_loop 0 False (num 16 caps (unat a) @ rest) = (a, True, rest)"
  using hex_loop_digits [OF dlist_less assms] dlist_word [of 16 "unat a", where 'a = 64] by (simp add: num_def)

lemma dec_loop_nat:
  assumes "is_dec_digit (cur rest) = None"
  shows "dec_loop 0 False (num 10 caps n @ rest) = (of_nat n, True, rest)"
  using dec_loop_digits [OF dlist_less assms] dlist_word [of 10 n, where 'a = 64] by (simp add: num_def)

lemma dec_loop_num:
  assumes "is_dec_digit (cur rest) = None"
  shows "dec_loop 0 False (num 10 caps (unat a) @ rest) = (a, True, rest)"
  using dec_loop_nat [OF assms, of caps "unat a"] by simp

lemma parse_Addr_num:
  assumes "\<not> isHex (cur rest)"
  shows "vg_parse_Addr (''0x'' @ num 16 caps (unat a) @ rest) r = (True, rest, a)"
proof -
  have "length (dlist 16 (unat a)) \<le> 16"
    by (rule dlist_length) (use unsigned_less [of a] in simp_all)
  moreover have "\<forall>d\<in>set (dlist 16 (unat a)). d < 16" by (rule dlist_less) simp
  ultimately show ?thesis
    using parse_Addr_loop_digits [of "dlist 16 (unat a)" rest 0 caps 0] assms
      dlist_word [of 16 "unat a", where 'a = 64]
    by (simp add: num_def vg_parse_Addr_def)
qed

section \<open>Signed numbers\<close>

lemma num_head:
  assumes "2 \<le> b" "b \<le> 10"
  shows "num b caps p \<noteq> []" "isdigit (cur (num b caps p @ rest))"
proof -
  obtain d ds where d: "dlist b p = d # ds" using dlist_not_Nil [OF assms(1), of p] by (cases "dlist b p") auto
  moreover have "d < 10" using dlist_less [OF assms(1), of p] assms(2) d by auto
  ultimately show "num b caps p \<noteq> []" "isdigit (cur (num b caps p @ rest))"
    using dec_chars_upto [of caps] by (auto simp: num_def)
qed

lemma isdigit_not:
  "isdigit c \<Longrightarrow> \<not> isspace c" "isdigit c \<Longrightarrow> c \<noteq> CHR ''-''" "isdigit c \<Longrightarrow> c \<noteq> CHR ''+''"
  by (auto simp: isdigit_def isspace_def schar_def)

lemma skip_space_id: "\<not> isspace (cur s) \<Longrightarrow> skip_space s = s"
  by (cases s) auto

lemma int64_signed:
  assumes "has flags VG_MSG_SIGNED" "\<not> has flags VG_MSG_COMMA"
  shows "fst (myvprintf_int64 flags 10 0 caps p) =
     (if sint p < 0 then CHR ''-'' # num 10 caps (unat (- p)) else num 10 caps (unat p))"
  using assms
  by (auto simp: myvprintf_int64_def int64_buf_def num_def dlist_def int64_loop_plain rev_map
      unat_eq_0 digit_chars_def)

lemma strtoll10_print:
  assumes "has flags VG_MSG_SIGNED" "\<not> has flags VG_MSG_COMMA" "is_dec_digit (cur rest) = None"
  shows "vg_strtoll10 (fst (myvprintf_int64 flags 10 0 caps x) @ rest) = (x, rest)"
proof (cases "sint x < 0")
  case True
  have "\<not> isspace (CHR ''-'')" by (simp add: isspace_def)
  with True assms show ?thesis
    by (simp add: int64_signed vg_strtoll10_def dec_loop_num)
next
  case False
  have d: "isdigit (cur (num 10 caps (unat x) @ rest))" by (rule num_head) simp_all
  with False assms show ?thesis
    by (simp add: int64_signed vg_strtoll10_def dec_loop_num skip_space_id isdigit_not)
qed

text \<open>
  The decimal notation of an integer of any size. \<^verbatim>\<open>strtoll10\<close> reads it modulo \<^verbatim>\<open>2 ^ 64\<close>.
\<close>

definition decimal :: "int \<Rightarrow> string" where
  "decimal k = (if k < 0 then ''-'' else []) @ num 10 False (nat \<bar>k\<bar>)"

lemma strtoll10_decimal:
  assumes "is_dec_digit (cur rest) = None"
  shows "vg_strtoll10 (decimal k @ rest) = (word_of_int k, rest)"
proof (cases "k < 0")
  case True
  have "\<not> isspace (CHR ''-'')" by (simp add: isspace_def)
  moreover have "- (word_of_nat (nat \<bar>k\<bar>) :: 64 word) = word_of_int k"
    using True of_int_of_nat_eq [of "nat \<bar>k\<bar>", where 'a = "64 word"] by simp
  ultimately show ?thesis using True assms by (simp add: decimal_def vg_strtoll10_def dec_loop_nat)
next
  case False
  have d: "isdigit (cur (num 10 False (nat k) @ rest))" by (rule num_head) simp_all
  moreover have "(word_of_nat (nat k) :: 64 word) = word_of_int k"
    using False of_int_of_nat_eq [of "nat k", where 'a = "64 word"] by simp
  ultimately show ?thesis using False assms
    by (simp add: decimal_def vg_strtoll10_def dec_loop_nat skip_space_id isdigit_not)
qed

section \<open>The buffer\<close>

lemma int64_loop_length:
  "length (int64_loop flags base ds p nc buf) \<le>
     length buf + (if base = 10 then 2 else 1) * length (rdigits base p)"
proof (induction base p arbitrary: nc buf rule: rdigits.induct)
  case (1 b p)
  show ?case
  proof (cases "p > 0 \<and> b \<ge> 2")
    case True
    define comma where "comma \<longleftrightarrow> has flags VG_MSG_COMMA \<and> 10 = b \<and>
      (length buf - nc) mod 3 = 0 \<and> length buf \<noteq> 0"
    have "int64_loop flags b ds p nc buf = int64_loop flags b ds (p div b)
        (if comma then nc + 1 else nc) ((if comma then buf @ '','' else buf) @ [ds ! (p mod b)])"
      using True by (subst int64_loop.simps) (auto simp: Let_def comma_def)
    moreover have "comma \<Longrightarrow> b = 10" by (simp add: comma_def)
    ultimately show ?thesis
      using 1 [OF True, of "if comma then nc + 1 else nc"
        "(if comma then buf @ '','' else buf) @ [ds ! (p mod b)]"] True
      by (auto simp: rdigits_step split: if_splits)
  next
    case False
    then show ?thesis by (subst int64_loop.simps) auto
  qed
qed

lemma int64_loop_short:
  assumes "2 \<le> base"
  shows "length (int64_loop flags base ds (unat (p :: 64 word)) 0 []) \<le> 64"
proof (cases "base = 10")
  case True
  have "unat p < 2 ^ LENGTH(64)" by (rule unsigned_less)
  then have "length (rdigits 10 (unat p)) \<le> 20"
    by (intro rdigits_length) simp_all
  with True int64_loop_length [of flags base ds "unat p" 0 "[]"] show ?thesis by simp
next
  case False
  have "unat p < 2 ^ LENGTH(64)" by (rule unsigned_less)
  also have "\<dots> \<le> base ^ 64" using power_mono [of 2 base 64] assms by simp
  finally have "unat p < base ^ 64" .
  then have "length (rdigits base (unat p)) \<le> 64" by (rule rdigits_length [OF assms])
  with False int64_loop_length [of flags base ds "unat p" 0 "[]"] show ?thesis by simp
qed

lemma int64_buf_fits:
  assumes "2 \<le> base"
  shows "int (length (int64_buf flags base width caps p)) \<le> int64_bufsize width - 1"
  using int64_loop_short [OF assms, of flags "digit_chars caps" p]
    int64_loop_short [OF assms, of flags "digit_chars caps" "- p"]
  by (auto simp: int64_buf_def int64_bufsize_def Let_def)

section \<open>The count\<close>

lemma int64_count: "snd (myvprintf_int64 flags base width caps p) =
    of_nat (length (fst (myvprintf_int64 flags base width caps p)))"
  by (simp add: myvprintf_int64_def Let_def)

lemma str_count:
  "0 \<le> width \<Longrightarrow> snd (myvprintf_str flags width str caps) =
     of_nat (length (fst (myvprintf_str flags width str caps)))"
  by (auto simp: myvprintf_str_def Let_def)

lemma XML_count: "snd (myvprintf_str_XML_simplistic str) =
    of_nat (length (fst (myvprintf_str_XML_simplistic str)))"
  by (induction str) (auto simp: Let_def split: prod.splits)

lemmas counts = int64_count str_count XML_count

lemma parse_flags_set: "parse_flags f fl = (fl', f') \<Longrightarrow> set f' \<subseteq> set f"
  by (induction f fl rule: parse_flags.induct) (auto split: if_splits)

lemma parse_digits_set: "parse_digits f n = Some (n', f') \<Longrightarrow> set f' \<subseteq> set f"
  by (induction f n rule: parse_digits.induct) (auto simp: Let_def split: if_splits)

lemma set_tl_subset: "set (tl f) \<subseteq> set f"
  by (cases f) auto

lemma parse_width_set: "parse_width f v = Some (w, f', v') \<Longrightarrow> set f' \<subseteq> set f"
  using set_tl_subset [of f]
  by (auto simp: parse_width_def dest: parse_digits_set
      split: if_splits list.splits va_arg.splits prod.splits)

lemma parse_precision_set: "parse_precision f v = Some (w, f', v') \<Longrightarrow> set f' \<subseteq> set f"
  using set_tl_subset [of f] by (auto simp: parse_precision_def dest: parse_width_set split: if_splits)

lemma parse_ls_set: "parse_ls f n = (n', f') \<Longrightarrow> set f' \<subseteq> set f"
  by (induction f n rule: parse_ls.induct) (auto split: if_splits)

lemma parse_size_set: "parse_size f = (z, l, f') \<Longrightarrow> set f' \<subseteq> set f"
  using set_tl_subset [of f]
  by (auto simp: parse_size_def dest: parse_ls_set split: if_splits prod.splits)

lemma directive_parts:
  assumes "directive xml f v = Some (out, ret, f', v')"
  obtains fl f1 w f2 v2 p f3 v3 z l f4 n
  where "parse_flags f 0 = (fl, f1)" "parse_width f1 v = Some (w, f2, v2)"
    "parse_precision f2 v2 = Some (p, f3, v3)" "parse_size f3 = (z, l, f4)"
    "conversion xml fl w z l f4 v3 = Some (out, ret, n, v')" "f' = drop n f4"
proof -
  obtain fl f1 where fl: "parse_flags f 0 = (fl, f1)" by (cases "parse_flags f 0")
  with assms obtain w f2 v2 p f3 v3
    where p: "parse_width f1 v = Some (w, f2, v2)" "parse_precision f2 v2 = Some (p, f3, v3)"
    by (auto simp: directive_def bind_eq_Some_conv)
  obtain z l f4 where sz: "parse_size f3 = (z, l, f4)" by (cases "parse_size f3")
  with fl p assms obtain n
    where "conversion xml fl w z l f4 v3 = Some (out, ret, n, v')" "f' = drop n f4"
    by (auto simp: directive_def bind_eq_Some_conv)
  with fl p sz that show ?thesis by blast
qed

lemma directive_set:
  assumes "directive xml f v = Some (out, ret, f', v')"
  shows "set f' \<subseteq> set f"
proof -
  from assms obtain fl f1 w f2 v2 p f3 v3 z l f4 n
    where p: "parse_flags f 0 = (fl, f1)" "parse_width f1 v = Some (w, f2, v2)"
      "parse_precision f2 v2 = Some (p, f3, v3)" "parse_size f3 = (z, l, f4)" "f' = drop n f4"
    by (rule directive_parts)
  have "set f' \<subseteq> set f4" by (simp add: p(5) set_drop_subset)
  also have "\<dots> \<subseteq> set f3" by (rule parse_size_set [OF p(4)])
  also have "\<dots> \<subseteq> set f2" by (rule parse_precision_set [OF p(3)])
  also have "\<dots> \<subseteq> set f1" by (rule parse_width_set [OF p(2)])
  also have "\<dots> \<subseteq> set f" by (rule parse_flags_set [OF p(1)])
  finally show ?thesis .
qed

lemma parse_flags_no_alt:
  "parse_flags f fl = (fl', f') \<Longrightarrow> CHR ''#'' \<notin> set f \<Longrightarrow> \<not> has fl VG_MSG_ALTFORMAT \<Longrightarrow>
   \<not> has fl' VG_MSG_ALTFORMAT"
  by (induction f fl rule: parse_flags.induct)
    (auto simp: has_def VG_MSG_PAREN_def VG_MSG_COMMA_def VG_MSG_LJUSTIFY_def VG_MSG_ZJUSTIFY_def
      VG_MSG_ALTFORMAT_def bit.conj_disj_distrib2 split: if_splits)

lemma parse_digits_nonneg: "parse_digits f n = Some (n', f') \<Longrightarrow> 0 \<le> n \<Longrightarrow> 0 \<le> n'"
  by (induction f n rule: parse_digits.induct) (auto simp: schar_def Let_def split: if_splits)

lemma parse_width_nonneg:
  "parse_width f v = Some (w, f', v') \<Longrightarrow> CHR ''*'' \<notin> set f \<Longrightarrow> 0 \<le> w"
  by (cases f) (auto simp: parse_width_def NUL_def simp del: parse_digits.simps dest: parse_digits_nonneg split: if_splits prod.splits)

lemma conversion_count:
  assumes "conversion xml fl w z l f v = Some (out, ret, n, v')" "\<not> has fl VG_MSG_ALTFORMAT" "0 \<le> w"
  shows "ret = of_nat (length out)"
  using assms
  by (auto simp: conversion_def conv_int_def bind_eq_Some_conv Let_def case_prod_unfold counts
      split: if_splits list.splits va_arg.splits)

lemma directive_count:
  assumes "directive xml f v = Some (out, ret, f', v')" "CHR ''#'' \<notin> set f" "CHR ''*'' \<notin> set f"
  shows "ret = of_nat (length out)"
proof -
  from assms(1) obtain fl f1 w f2 v2 p f3 v3 z l f4 n
    where p: "parse_flags f 0 = (fl, f1)" "parse_width f1 v = Some (w, f2, v2)"
      "conversion xml fl w z l f4 v3 = Some (out, ret, n, v')"
    by (rule directive_parts)
  have "\<not> has fl VG_MSG_ALTFORMAT"
    using parse_flags_no_alt [OF p(1) assms(2)] by (simp add: has_def)
  moreover have "0 \<le> w" using parse_width_nonneg [OF p(2)] parse_flags_set [OF p(1)] assms(3) by blast
  ultimately show ?thesis using conversion_count p(3) by blast
qed

text \<open>One step of the format loop.\<close>

lemma vprintf_end [simp]: "debugLog_vprintf xml [] v = Some ([], 0)"
  by (subst debugLog_vprintf.simps) simp

lemma vprintf_lit:
  "c \<noteq> NUL \<Longrightarrow> c \<noteq> CHR ''%'' \<Longrightarrow> debugLog_vprintf xml (c # f) v =
     map_option (\<lambda>(out, ret). (c # out, 1 + ret)) (debugLog_vprintf xml f v)"
  by (subst debugLog_vprintf.simps) simp

lemma vprintf_directive:
  "cur f \<noteq> NUL \<Longrightarrow> cur f \<noteq> CHR ''%'' \<Longrightarrow> directive xml f v = Some (out, ret, f', v') \<Longrightarrow>
   debugLog_vprintf xml (CHR ''%'' # f) v =
     map_option (\<lambda>(out', ret'). (out @ out', ret + ret')) (debugLog_vprintf xml f' v')"
  by (subst debugLog_vprintf.simps) (simp add: NUL_def)

lemma vprintf_count:
  "debugLog_vprintf xml f v = Some (out, ret) \<Longrightarrow> CHR ''#'' \<notin> set f \<Longrightarrow> CHR ''*'' \<notin> set f \<Longrightarrow>
   ret = of_nat (length out)"
proof (induction xml f v arbitrary: out ret rule: debugLog_vprintf.induct)
  case (1 xml f v)
  have tl: "CHR ''#'' \<notin> set (tl f)" "CHR ''*'' \<notin> set (tl f)"
    "CHR ''#'' \<notin> set (tl (tl f))" "CHR ''*'' \<notin> set (tl (tl f))"
    using "1.prems"(2,3) set_tl_subset [of f] set_tl_subset [of "tl f"] by auto
  consider "cur f = NUL" | "cur f \<noteq> NUL" "cur f \<noteq> CHR ''%''"
    | "cur f = CHR ''%''" "cur f \<noteq> NUL" "cur (tl f) = NUL"
    | "cur f = CHR ''%''" "cur f \<noteq> NUL" "cur (tl f) \<noteq> NUL" "cur (tl f) = CHR ''%''"
    | "cur f = CHR ''%''" "cur f \<noteq> NUL" "cur (tl f) \<noteq> NUL" "cur (tl f) \<noteq> CHR ''%''"
    by metis
  then show ?case
  proof cases
    case 1
    with "1.prems"(1) show ?thesis by (simp add: debugLog_vprintf.simps [of xml f])
  next
    case 2
    with "1.prems"(1) "1.IH"(1) tl show ?thesis
      by (auto simp: debugLog_vprintf.simps [of xml f])
  next
    case 3
    with "1.prems"(1) show ?thesis by (simp add: debugLog_vprintf.simps [of xml f])
  next
    case 4
    with "1.prems"(1) "1.IH"(2) tl show ?thesis
      by (auto simp: debugLog_vprintf.simps [of xml f])
  next
    case 5
    with "1.prems"(1) obtain o1 r1 f' v' o2 r2
      where d: "directive xml (tl f) v = Some (o1, r1, f', v')"
        "debugLog_vprintf xml f' v' = Some (o2, r2)" "out = o1 @ o2" "ret = r1 + r2"
      by (auto simp: debugLog_vprintf.simps [of xml f] split: option.splits)
    have "r2 = of_nat (length o2)"
      using "1.IH"(3) [of "(o1, r1, f', v')" o1 "(r1, f', v')" r1 "(f', v')" f' v' o2 r2] 5 d
        directive_set [OF d(1)] tl by auto
    moreover have "r1 = of_nat (length o1)" by (rule directive_count [OF d(1) tl(1,2)])
    ultimately show ?thesis using d by simp
  qed
qed
section \<open>Properties\<close>

lemma flag_facts [simp]:
  "\<not> has VG_MSG_SIGNED VG_MSG_COMMA" "has VG_MSG_SIGNED VG_MSG_SIGNED"
  "\<not> has VG_MSG_ZJUSTIFY VG_MSG_COMMA" "\<not> has VG_MSG_ZJUSTIFY VG_MSG_SIGNED" "\<not> has 0 b"
  by (simp_all add: has_def VG_MSG_SIGNED_def VG_MSG_COMMA_def VG_MSG_ZJUSTIFY_def)

lemmas directive_defs = directive_def parse_width_def parse_precision_def parse_size_def
  conversion_def conv_int_def arg_signed_def arg_unsigned_def arg_str_def

lemma directive_lx: "directive xml (CHR ''l'' # CHR ''x'' # f) (VaLong x # v) =
   Some (num 16 False (unat x), of_nat (length (num 16 False (unat x))), f, v)"
  by (simp add: directive_defs has_def NUL_def schar_def case_prod_unfold Let_def int64_unsigned)

lemma vprintf_lx: "debugLog_vprintf xml (CHR ''%'' # CHR ''l'' # CHR ''x'' # f) (VaLong x # v) =
   (let r = num 16 False (unat x)
    in map_option (\<lambda>(out, ret). (r @ out, of_nat (length r) + ret)) (debugLog_vprintf xml f v))"
  by (subst vprintf_directive [OF _ _ directive_lx]) (simp_all add: NUL_def Let_def)

lemma directive_lld: "directive xml (CHR ''l'' # CHR ''l'' # CHR ''d'' # f) (VaLong x # v) =
   (let r = myvprintf_int64 VG_MSG_SIGNED 10 0 False x in Some (fst r, snd r, f, v))"
  by (simp add: directive_defs has_def NUL_def schar_def case_prod_unfold Let_def)

lemma vprintf_lld: "debugLog_vprintf xml (CHR ''%'' # CHR ''l'' # CHR ''l'' # CHR ''d'' # f) (VaLong x # v) =
   (let r = myvprintf_int64 VG_MSG_SIGNED 10 0 False x
    in map_option (\<lambda>(out, ret). (fst r @ out, snd r + ret)) (debugLog_vprintf xml f v))"
  by (subst vprintf_directive [OF _ _ directive_lld [unfolded Let_def]]) (simp_all add: NUL_def Let_def)

text \<open>
  The digit buffer of \<^verbatim>\<open>myvprintf_int64\<close>, of 90 bytes or the field width plus one, is never
  overrun: whatever the value, the flags and the base, the digits, commas, sign and left
  padding leave at least one byte free.
\<close>

theorem int64_no_overflow:
  assumes "2 \<le> base"
  shows "int (length (int64_buf flags base width caps p)) \<le> int64_bufsize width - 1"
  using assms by (rule int64_buf_fits)

theorem int64_no_overflow_witness:
  "int (length (int64_buf VG_MSG_COMMA 2 0 False (- 1))) \<le> 89"
  using int64_no_overflow [of 2 VG_MSG_COMMA 0 False "- 1"] by (simp add: int64_bufsize_def)

text \<open>
  C29. \<^verbatim>\<open>VG_(debugLog_vprintf)\<close> returns the number of characters it has sent, as a \<^verbatim>\<open>UInt\<close>, for every
  format without \<^verbatim>\<open>#\<close>, \<^verbatim>\<open>*\<close> and \<^verbatim>\<open>%f\<close> whose directives match their arguments and whose field widths
  do not overflow (otherwise the format has no result here), and string arguments of less
  than 2 GiB.
\<close>

theorem vprintf_counts:
  assumes "debugLog_vprintf xml f v = Some (out, ret)" "CHR ''#'' \<notin> set f" "CHR ''*'' \<notin> set f"
    "\<forall>s. VaStr (Some s) \<in> set v \<longrightarrow> length s < 2 ^ 31"
  shows "ret = of_nat (length out)"
  using assms(1-3) by (rule vprintf_count)

theorem vprintf_counts_witness:
  "debugLog_vprintf False ''0x%lx'' [VaLong 255] = Some (''0x'' @ num 16 False 255, 2 + of_nat (length (num 16 False 255)))"
proof -
  have d: "debugLog_vprintf False ''0x%lx'' [VaLong 255] =
      Some (''0x'' @ num 16 False 255, 1 + (1 + of_nat (length (num 16 False 255))))"
    by (simp add: vprintf_lit vprintf_lx NUL_def Let_def)
  from vprintf_counts [OF d] show ?thesis by (simp add: d)
qed

text \<open>
  C27. What \<^verbatim>\<open>0x%lx\<close> prints, \<^verbatim>\<open>VG_(parse_Addr)\<close> reads back: the address is recovered, whatever
  follows it, as long as that does not start with a hexadecimal digit.
\<close>

theorem print_parse_Addr:
  assumes "\<not> isHex (cur rest)"
  shows "\<exists>s. debugLog_vprintf xml ''0x%lx'' [VaLong a] = Some (s, of_nat (length s)) \<and>
     vg_parse_Addr (s @ rest) r = (True, rest, a)"
  using parse_Addr_num [OF assms, of False a r]
  by (simp add: vprintf_lit vprintf_lx NUL_def Let_def)

theorem print_parse_Addr_witness:
  "\<exists>s. debugLog_vprintf False ''0x%lx'' [VaLong 48879] = Some (s, of_nat (length s)) \<and>
     vg_parse_Addr (s @ '' 0x1'') 0 = (True, '' 0x1'', 48879)"
  by (rule print_parse_Addr) (simp add: isHex_def schar_def)

text \<open>
  C28. What \<^verbatim>\<open>%lld\<close> prints, \<^verbatim>\<open>VG_(strtoll10)\<close> reads back, for every 64-bit value, the most negative
  one included; the end pointer is where the number ends.
\<close>

theorem print_strtoll10:
  assumes "is_dec_digit (cur rest) = None"
  shows "\<exists>s. debugLog_vprintf xml ''%lld'' [VaLong x] = Some (s, of_nat (length s)) \<and>
     vg_strtoll10 (s @ rest) = (x, rest)"
  using strtoll10_print [OF _ _ assms, of VG_MSG_SIGNED False x]
  by (simp add: vprintf_lld Let_def prod_eq_iff int64_count)

theorem print_strtoll10_witness:
  "\<exists>s. debugLog_vprintf False ''%lld'' [VaLong (2 ^ 63)] = Some (s, of_nat (length s)) \<and>
     vg_strtoll10 (s @ '','') = (2 ^ 63, '','')"
  by (rule print_strtoll10) (simp add: is_dec_digit_def schar_def)

end
