(* ===== verification/Vg_Printf.thy ===== *)
theory Vg_Printf
  imports Vg_Format
begin

text \<open>
  The printing front ends of \<^verbatim>\<open>coregrind/m_libcprint.c\<close>. Each of them passes the characters
  of \<^verbatim>\<open>VG_(debugLog_vprintf)\<close> one by one to a sink: the 512-byte buffer of \<^verbatim>\<open>printf\<close>, the
  bounded buffer of \<^verbatim>\<open>snprintf\<close>, the file buffer of \<^verbatim>\<open>fprintf\<close>, and the persistent buffer of
  \<^verbatim>\<open>message\<close> that puts a preamble before each line. A failing \<^verbatim>\<open>vg_assert\<close> is \<open>None\<close>. Every
  sink is shown to simulate its unbuffered meaning.
\<close>

section \<open>Output sinks\<close>

datatype VgLogTo = VgLogTo_Fd | VgLogTo_File | VgLogTo_Socket

record OutputSink =
  sk_fd :: int
  sk_type :: VgLogTo
  sk_fsname :: "string option"

text \<open>
  The sink in use together with the calls that handed characters to it: the descriptor
  (\<open>-2\<close> for gdb), the buffer handed over, and how many of its characters were taken. A send
  to a socket that failed is not among them, since the buffer is then sent again.
\<close>

record out_state =
  snk :: OutputSink
  written :: "(int \<times> string \<times> int) list"

definition revert_sink_to_stderr :: "OutputSink \<Rightarrow> OutputSink" where
  "revert_sink_to_stderr s = s\<lparr>sk_fd := 2, sk_type := VgLogTo_Fd, sk_fsname := None\<rparr>"

text \<open>
  \<open>ws\<close> is the answer of the operating system to \<^verbatim>\<open>VG_(write)\<close> and \<^verbatim>\<open>VG_(write_socket)\<close>: the number of
  characters taken, which may be less than all, or negative for an error. The code looks at
  it only for sockets, and there only for \<open>-1\<close>. \<^verbatim>\<open>VG_(gdb_printf)("%s", msg)\<close> takes the characters up
  to a NUL.
\<close>

definition vg_write :: "(int \<Rightarrow> string \<Rightarrow> int) \<Rightarrow> out_state \<Rightarrow> int \<Rightarrow> string \<Rightarrow> out_state" where
  "vg_write ws io fd msg = io\<lparr>written := written io @ [(fd, msg, ws fd msg)]\<rparr>"

definition vg_gdb_printf :: "out_state \<Rightarrow> string \<Rightarrow> out_state" where
  "vg_gdb_printf io msg = io\<lparr>written := written io @ [(-2, msg, int (length (takeWhile (\<lambda>c. c \<noteq> NUL) msg)))]\<rparr>"

definition send_bytes_to_logging_sink ::
  "(int \<Rightarrow> string \<Rightarrow> int) \<Rightarrow> out_state \<Rightarrow> string \<Rightarrow> out_state" where
  "send_bytes_to_logging_sink ws io msg =
     (if sk_type (snk io) = VgLogTo_Socket then
        let rc = ws (sk_fd (snk io)) msg in
        if rc = -1 then
          let io = io\<lparr>snk := revert_sink_to_stderr (snk io)\<rparr>
          in vg_write ws io (sk_fd (snk io)) msg
        else io\<lparr>written := written io @ [(sk_fd (snk io), msg, rc)]\<rparr>
      else if sk_fd (snk io) \<ge> 0 then vg_write ws io (sk_fd (snk io)) msg
      else if sk_fd (snk io) = -2 \<and> length msg > 0 then vg_gdb_printf io msg
      else io)"

text \<open>The characters handed over, and those taken.\<close>

definition emitted :: "out_state \<Rightarrow> string" where
  "emitted io = concat (map (\<lambda>(fd, msg, n). msg) (written io))"

definition delivered :: "out_state \<Rightarrow> string" where
  "delivered io = concat (map (\<lambda>(fd, msg, n). take (nat n) msg) (written io))"

text \<open>The sink accepts output: the condition of \<^verbatim>\<open>vprintf_to_buf\<close>.\<close>

definition sink_on :: "out_state \<Rightarrow> bool" where
  "sink_on io \<longleftrightarrow> sk_fd (snk io) \<ge> 0 \<or> sk_fd (snk io) = -2"

lemma send_bytes:
  assumes "sink_on io"
  shows "sink_on (send_bytes_to_logging_sink ws io msg)"
    and "emitted (send_bytes_to_logging_sink ws io msg) = emitted io @ msg"
  using assms
  by (auto simp: sink_on_def send_bytes_to_logging_sink_def emitted_def vg_write_def vg_gdb_printf_def
      revert_sink_to_stderr_def Let_def)

text \<open>
  Standard error and the sink take every buffer whole, or the sink is a socket that may break.
\<close>

definition reliable :: "(int \<Rightarrow> string \<Rightarrow> int) \<Rightarrow> out_state \<Rightarrow> bool" where
  "reliable ws io \<longleftrightarrow> (\<forall>msg. ws 2 msg = int (length msg)) \<and>
     (if sk_type (snk io) = VgLogTo_Socket
      then \<forall>msg. ws (sk_fd (snk io)) msg = int (length msg) \<or> ws (sk_fd (snk io)) msg = -1
      else sk_fd (snk io) \<ge> 0 \<longrightarrow> (\<forall>msg. ws (sk_fd (snk io)) msg = int (length msg)))"

lemma send_delivers:
  assumes "sink_on io" "reliable ws io" "sk_fd (snk io) = -2 \<longrightarrow> NUL \<notin> set msg"
  shows "reliable ws (send_bytes_to_logging_sink ws io msg)"
    and "delivered (send_bytes_to_logging_sink ws io msg) = delivered io @ msg"
    and "sk_fd (snk (send_bytes_to_logging_sink ws io msg)) = -2 \<longrightarrow> sk_fd (snk io) = -2"
proof -
  have w: "length (takeWhile (\<lambda>c. c \<noteq> NUL) msg) = length msg" if "sk_fd (snk io) = -2"
  proof -
    have "takeWhile (\<lambda>c. c \<noteq> NUL) msg = msg" using assms(3) that by (auto simp: takeWhile_eq_all_conv)
    then show ?thesis by (rule arg_cong)
  qed
  have t: "ws (sk_fd (snk io)) msg = int (length msg)" if "sk_type (snk io) = VgLogTo_Socket" "ws (sk_fd (snk io)) msg \<noteq> -1"
    using assms(2) that by (auto simp: reliable_def)
  show "reliable ws (send_bytes_to_logging_sink ws io msg)"
    using assms(2) by (auto simp: reliable_def send_bytes_to_logging_sink_def vg_write_def vg_gdb_printf_def revert_sink_to_stderr_def Let_def)
  show "delivered (send_bytes_to_logging_sink ws io msg) = delivered io @ msg"
    using assms(1,2) w t by (cases "sk_type (snk io) = VgLogTo_Socket"; cases "ws (sk_fd (snk io)) msg = -1")
      (auto simp: reliable_def sink_on_def send_bytes_to_logging_sink_def vg_write_def vg_gdb_printf_def
        revert_sink_to_stderr_def delivered_def Let_def)
  show "sk_fd (snk (send_bytes_to_logging_sink ws io msg)) = -2 \<longrightarrow> sk_fd (snk io) = -2"
    by (auto simp: send_bytes_to_logging_sink_def vg_write_def vg_gdb_printf_def revert_sink_to_stderr_def Let_def)
qed

text \<open>Sending a list of characters to a sink, one after the other.\<close>

abbreviation send_all :: "('b \<Rightarrow> char \<Rightarrow> 'b option) \<Rightarrow> 'b \<Rightarrow> string \<Rightarrow> 'b option" where
  "send_all \<equiv> run_ops"

lemma run_ok_True: "run_ok f (\<lambda>s x. True) s xs"
  by (induction xs arbitrary: s) (auto split: option.splits)

lemma foldl_snoc: "foldl (\<lambda>s c. s @ [c]) s cs = s @ cs"
  by (induction cs arbitrary: s) auto

section \<open>printf\<close>

record printf_buf_t =
  pb_buf :: string
  pb_io :: out_state

definition add_to_printf_buf ::
  "(int \<Rightarrow> string \<Rightarrow> int) \<Rightarrow> printf_buf_t \<Rightarrow> char \<Rightarrow> printf_buf_t option" where
  "add_to_printf_buf ws b c =
     (let b = (if length (pb_buf b) > 512 - 2
               then b\<lparr>pb_io := send_bytes_to_logging_sink ws (pb_io b) (pb_buf b), pb_buf := []\<rparr>
               else b);
          b = b\<lparr>pb_buf := pb_buf b @ [c]\<rparr>
      in if length (pb_buf b) < 512 then Some b else None)"

definition vprintf_to_buf ::
  "(int \<Rightarrow> string \<Rightarrow> int) \<Rightarrow> bool \<Rightarrow> printf_buf_t \<Rightarrow> string \<Rightarrow> va_arg list \<Rightarrow>
   (printf_buf_t \<times> 32 word) option" where
  "vprintf_to_buf ws xml b format vargs =
     (if sink_on (pb_io b) then do {
        (out, ret) \<leftarrow> debugLog_vprintf xml format vargs;
        b \<leftarrow> send_all (add_to_printf_buf ws) b out;
        Some (b, ret)
      }
      else Some (b, 0))"

definition vprintf_WRK ::
  "(int \<Rightarrow> string \<Rightarrow> int) \<Rightarrow> bool \<Rightarrow> out_state \<Rightarrow> string \<Rightarrow> va_arg list \<Rightarrow>
   (out_state \<times> 32 word) option" where
  "vprintf_WRK ws xml io format vargs = do {
     (b, ret) \<leftarrow> vprintf_to_buf ws xml \<lparr>pb_buf = [], pb_io = io\<rparr> format vargs;
     Some (if length (pb_buf b) > 0 then send_bytes_to_logging_sink ws (pb_io b) (pb_buf b)
           else pb_io b, ret)
   }"

definition printf_rel :: "printf_buf_t \<Rightarrow> string \<Rightarrow> bool" where
  "printf_rel b s \<longleftrightarrow> length (pb_buf b) \<le> 511 \<and> sink_on (pb_io b) \<and>
     emitted (pb_io b) @ pb_buf b = s"

interpretation psink: simulation "add_to_printf_buf ws" "\<lambda>s c. s @ [c]" printf_rel "\<lambda>b c. True"
  for ws
  by unfold_locales
    (auto simp: add_to_printf_buf_def printf_rel_def send_bytes Let_def)

text \<open>The same for the characters that reach a reliable sink.\<close>

definition printf_got :: "(int \<Rightarrow> string \<Rightarrow> int) \<Rightarrow> bool \<Rightarrow> printf_buf_t \<Rightarrow> string \<Rightarrow> bool" where
  "printf_got ws gdb b s \<longleftrightarrow> length (pb_buf b) \<le> 511 \<and> sink_on (pb_io b) \<and> reliable ws (pb_io b) \<and>
     delivered (pb_io b) @ pb_buf b = s \<and> (sk_fd (snk (pb_io b)) = -2 \<longrightarrow> gdb) \<and> (gdb \<longrightarrow> NUL \<notin> set (pb_buf b))"

interpretation pgot: simulation "add_to_printf_buf ws" "\<lambda>s c. s @ [c]" "printf_got ws gdb" "\<lambda>b c. gdb \<longrightarrow> c \<noteq> NUL"
  for ws gdb
proof
  fix b s c
  assume r: "printf_got ws gdb b s" and c: "gdb \<longrightarrow> c \<noteq> NUL"
  then have "sk_fd (snk (pb_io b)) = -2 \<longrightarrow> NUL \<notin> set (pb_buf b)" by (auto simp: printf_got_def)
  with send_delivers [of "pb_io b" ws "pb_buf b"] r c show "\<exists>b'. add_to_printf_buf ws b c = Some b' \<and> printf_got ws gdb b' (s @ [c])"
    by (auto simp: add_to_printf_buf_def printf_got_def send_bytes Let_def)
qed

lemma run_ok_chars: "\<forall>c\<in>set out. P c \<Longrightarrow> run_ok f (\<lambda>s c. P c) s out"
  by (induction out arbitrary: s) (auto split: option.splits)

lemma vprintf_WRK_delivers:
  assumes "sink_on io" "debugLog_vprintf xml format vargs = Some (out, ret)" "vprintf_WRK ws xml io format vargs = Some (io', r)"
    "reliable ws io" "sk_fd (snk io) = -2 \<longrightarrow> NUL \<notin> set out"
  shows "delivered io' = delivered io @ out"
proof -
  let ?b = "\<lparr>pb_buf = [], pb_io = io\<rparr>" and ?gdb = "sk_fd (snk io) = -2"
  have "printf_got ws ?gdb ?b (delivered io)" using assms(1,4) by (simp add: printf_got_def)
  moreover have "run_ok (add_to_printf_buf ws) (\<lambda>b c. ?gdb \<longrightarrow> c \<noteq> NUL) ?b out"
    using assms(5) by (intro run_ok_chars) auto
  ultimately obtain b where b: "send_all (add_to_printf_buf ws) ?b out = Some b" "printf_got ws ?gdb b (delivered io @ out)"
    using pgot.run_sim [of ws ?gdb ?b "delivered io" out] by (auto simp: foldl_snoc)
  then have "sk_fd (snk (pb_io b)) = -2 \<longrightarrow> NUL \<notin> set (pb_buf b)" by (auto simp: printf_got_def)
  with send_delivers(2) [of "pb_io b" ws "pb_buf b"] b assms(1-3) show ?thesis
    by (auto simp: vprintf_WRK_def vprintf_to_buf_def printf_got_def split: if_splits)
qed

lemma vprintf_WRK_emits:
  assumes "sink_on io" "debugLog_vprintf xml format vargs = Some (out, ret)"
  shows "\<exists>io'. vprintf_WRK ws xml io format vargs = Some (io', ret) \<and>
     emitted io' = emitted io @ out \<and> sink_on io'"
proof -
  let ?b = "\<lparr>pb_buf = [], pb_io = io\<rparr>"
  have "printf_rel ?b (emitted io)" using assms(1) by (simp add: printf_rel_def)
  from psink.run_sim [OF this run_ok_True, of ws out] obtain b
    where b: "send_all (add_to_printf_buf ws) ?b out = Some b" "printf_rel b (emitted io @ out)"
    by (auto simp: foldl_snoc)
  with assms show ?thesis
    by (auto simp: vprintf_WRK_def vprintf_to_buf_def printf_rel_def send_bytes)
qed

section \<open>sprintf\<close>

text \<open>
  \<^verbatim>\<open>vsprintf\<close> writes the characters and the terminator, and then asserts that the string in
  the buffer, read up to its first terminator, has the length that was returned.
\<close>

definition vg_vsprintf :: "bool \<Rightarrow> string \<Rightarrow> va_arg list \<Rightarrow> (string \<times> 32 word) option" where
  "vg_vsprintf xml format vargs = do {
     (out, ret) \<leftarrow> debugLog_vprintf xml format vargs;
     let buf = takeWhile (\<lambda>c. c \<noteq> NUL) out;
     if int (vg_strlen buf) = sint ret then Some (buf, ret) else None
   }"

section \<open>snprintf\<close>

text \<open>
  The buffer of \<^verbatim>\<open>buf_size\<close> bytes as a list of that length, and the number of characters
  offered so far that had room.
\<close>

record snprintf_buf_t =
  sb_buf :: string
  sb_size :: nat
  sb_used :: nat

definition add_to_snprintf_buf :: "snprintf_buf_t \<Rightarrow> char \<Rightarrow> snprintf_buf_t" where
  "add_to_snprintf_buf b c =
     (if sb_size b > 0 \<and> sb_used b < sb_size b then
        let b = b\<lparr>sb_buf := (sb_buf b)[sb_used b := c], sb_used := sb_used b + 1\<rparr>
        in if sb_used b < sb_size b then b\<lparr>sb_buf := (sb_buf b)[sb_used b := NUL]\<rparr>
           else b\<lparr>sb_buf := (sb_buf b)[sb_size b - 1 := NUL]\<rparr>
      else b)"

definition vg_vsnprintf ::
  "bool \<Rightarrow> string \<Rightarrow> int \<Rightarrow> string \<Rightarrow> va_arg list \<Rightarrow> (string \<times> nat) option" where
  "vg_vsnprintf xml buf sz format vargs = do {
     let b = \<lparr>sb_buf = buf, sb_size = (if sz < 0 then 0 else nat sz), sb_used = 0\<rparr>;
     let b = (if sb_size b > 0 then b\<lparr>sb_buf := (sb_buf b)[0 := NUL]\<rparr> else b);
     (out, ret) \<leftarrow> debugLog_vprintf xml format vargs;
     let b = foldl add_to_snprintf_buf b out;
     Some (sb_buf b, sb_used b)
   }"

definition snprintf_rel :: "nat \<Rightarrow> snprintf_buf_t \<Rightarrow> string \<Rightarrow> bool" where
  "snprintf_rel n b s \<longleftrightarrow> sb_size b = n \<and> length (sb_buf b) = n \<and> sb_used b = min n (length s) \<and>
     (n > 0 \<longrightarrow> take (min n (length s + 1)) (sb_buf b) = take (n - 1) s @ [NUL])"

lemma snprintf_step:
  assumes "snprintf_rel n b s"
  shows "snprintf_rel n (add_to_snprintf_buf b c) (s @ [c])"
proof (cases "length s < n")
  case False
  with assms show ?thesis by (auto simp: snprintf_rel_def add_to_snprintf_buf_def)
next
  case True
  then have "min n (length s + 1) = Suc (length s)" "take (n - 1) s = s" by simp_all
  with True assms have b: "sb_size b = n" "length (sb_buf b) = n" "sb_used b = length s"
    "take (Suc (length s)) (sb_buf b) = s @ [NUL]"
    by (auto simp: snprintf_rel_def)
  then have s: "take (length s) (sb_buf b) = s"
    by (metis append_eq_append_conv append_take_drop_id length_append_singleton lessI take_Suc_conv_app_nth
        True butlast_snoc butlast_take diff_Suc_1 nat_less_le Suc_leI)
  show ?thesis
  proof (cases "Suc (length s) < n")
    case True
    then show ?thesis using b(1-3) s
      by (simp add: snprintf_rel_def add_to_snprintf_buf_def take_Suc_conv_app_nth take_update_swap
          list_update_append)
  next
    case False
    with \<open>length s < n\<close> have "n = Suc (length s)" by simp
    moreover from this have "(sb_buf b)[length s := NUL] = s @ [NUL]"
      using b(2) s by (simp add: upd_conv_take_nth_drop)
    ultimately show ?thesis using b(1-3) s
      by (simp add: snprintf_rel_def add_to_snprintf_buf_def)
  qed
qed



lemma snprintf_run: "snprintf_rel n b s \<Longrightarrow> snprintf_rel n (foldl add_to_snprintf_buf b out) (s @ out)"
proof (induction out arbitrary: b s)
  case (Cons c out)
  from Cons.IH [OF snprintf_step [OF Cons.prems, of c]] show ?case by simp
qed simp

section \<open>fprintf\<close>

record VgFile =
  vf_buf :: string
  vf_fd :: int
  vf_written :: string

definition VGFILE_BUFSIZE :: nat where
  "VGFILE_BUFSIZE = 8192"

definition add_to_vgfile :: "VgFile \<Rightarrow> char \<Rightarrow> VgFile option" where
  "add_to_vgfile fp c =
     (if length (vf_buf fp) < VGFILE_BUFSIZE then
        let fp = fp\<lparr>vf_buf := vf_buf fp @ [c]\<rparr>
        in Some (if length (vf_buf fp) = VGFILE_BUFSIZE
                 then fp\<lparr>vf_written := vf_written fp @ vf_buf fp, vf_buf := []\<rparr> else fp)
      else None)"

definition vg_vfprintf :: "bool \<Rightarrow> VgFile \<Rightarrow> string \<Rightarrow> va_arg list \<Rightarrow> (VgFile \<times> 32 word) option" where
  "vg_vfprintf xml fp format vargs = do {
     (out, ret) \<leftarrow> debugLog_vprintf xml format vargs;
     fp \<leftarrow> send_all add_to_vgfile fp out;
     Some (fp, ret)
   }"

text \<open>What the file holds after \<^verbatim>\<open>VG_(fclose)\<close>.\<close>

definition vg_fclose :: "VgFile \<Rightarrow> string" where
  "vg_fclose fp = (if length (vf_buf fp) \<noteq> 0 then vf_written fp @ vf_buf fp else vf_written fp)"

definition vgfile_rel :: "VgFile \<Rightarrow> string \<Rightarrow> bool" where
  "vgfile_rel fp s \<longleftrightarrow> length (vf_buf fp) < VGFILE_BUFSIZE \<and> vf_written fp @ vf_buf fp = s"

interpretation fsink: simulation add_to_vgfile "\<lambda>s c. s @ [c]" vgfile_rel "\<lambda>b c. True"
  by unfold_locales (auto simp: add_to_vgfile_def vgfile_rel_def VGFILE_BUFSIZE_def Let_def)

lemma vfprintf_writes:
  assumes "vgfile_rel fp s" "debugLog_vprintf xml format vargs = Some (out, ret)"
  shows "\<exists>fp'. vg_vfprintf xml fp format vargs = Some (fp', ret) \<and> vgfile_rel fp' (s @ out) \<and>
     vg_fclose fp' = s @ out"
proof -
  from fsink.run_sim [OF assms(1) run_ok_True, of out] obtain fp'
    where "send_all add_to_vgfile fp out = Some fp'" "vgfile_rel fp' (s @ out)"
    by (auto simp: foldl_snoc)
  with assms(2) show ?thesis
    by (auto simp: vg_vfprintf_def vg_fclose_def vgfile_rel_def)
qed

section \<open>message\<close>

datatype VgMsgKind = Vg_FailMsg | Vg_UserMsg | Vg_DebugMsg | Vg_ClientMsg

text \<open>
  What the preamble depends on: \<^verbatim>\<open>RUNNING_ON_VALGRIND\<close>, the simulation hint against the inner
  prefix, \<^verbatim>\<open>VG_(clo_time_stamp)\<close>, the millisecond timer and the process id.
\<close>

record msg_env =
  running_depth :: int
  no_inner_prefix :: bool
  clo_time_stamp :: bool
  ms_timer :: "32 word"
  the_pid :: "32 word"

definition elapsed_wallclock_time :: "32 word \<Rightarrow> string option" where
  "elapsed_wallclock_time t =
     (let ms = t mod 1000; t = t div 1000;
          s = t mod 60; t = t div 60;
          mins = t mod 60; t = t div 60;
          hours = t mod 24; t = t div 24;
          days = t
      in map_option fst (vg_vsprintf False ''%02u:%02u:%02u:%02u.%03u ''
           [VaInt days, VaInt hours, VaInt mins, VaInt s, VaInt ms]))"

definition preamble :: "msg_env \<Rightarrow> VgMsgKind \<Rightarrow> string option" where
  "preamble env kind =
     (let depth = running_depth env;
          inner = (if depth > 0 \<and> \<not> no_inner_prefix env
                   then replicate (nat (if depth > 10 then 10 else depth)) CHR ''>'' else [])
      in if kind = Vg_FailMsg then Some (inner @ ''valgrind: '')
         else do {
           let ch = (case kind of Vg_UserMsg \<Rightarrow> CHR ''='' | Vg_DebugMsg \<Rightarrow> CHR ''-''
                     | Vg_ClientMsg \<Rightarrow> CHR ''*'' | _ \<Rightarrow> CHR ''?'');
           stamp \<leftarrow> (if clo_time_stamp env then elapsed_wallclock_time (ms_timer env) else Some []);
           (pid, _) \<leftarrow> vg_vsprintf False ''%d'' [VaInt (the_pid env)];
           Some (inner @ [ch, ch] @ stamp @ pid @ [ch, ch, CHR '' ''])
         })"

record vmessage_buf_t =
  vb_buf :: string
  vb_atLeft :: bool
  vb_kind :: VgMsgKind
  vb_io :: out_state

definition add_to_vmessage_buf ::
  "(int \<Rightarrow> string \<Rightarrow> int) \<Rightarrow> msg_env \<Rightarrow> vmessage_buf_t \<Rightarrow> char \<Rightarrow> vmessage_buf_t option" where
  "add_to_vmessage_buf ws env b c =
     (if length (vb_buf b) < (512 + 128) - 128 then do {
        b \<leftarrow> (if vb_atLeft b then do {
               pre \<leftarrow> preamble env (vb_kind b);
               let b = b\<lparr>vb_buf := vb_buf b @ pre\<rparr>;
               if length (vb_buf b) < (512 + 128) - 32 then Some b else None
             } else Some b);
        let b = b\<lparr>vb_buf := vb_buf b @ [c]\<rparr>;
        let b = (if length (vb_buf b) \<ge> (512 + 128) - 128
                 then b\<lparr>vb_io := send_bytes_to_logging_sink ws (vb_io b) (vb_buf b), vb_buf := []\<rparr>
                 else b);
        Some (b\<lparr>vb_atLeft := (c = CHR 0x0A)\<rparr>)
      } else None)"

definition vg_vmessage ::
  "(int \<Rightarrow> string \<Rightarrow> int) \<Rightarrow> bool \<Rightarrow> msg_env \<Rightarrow> vmessage_buf_t \<Rightarrow> VgMsgKind \<Rightarrow> string \<Rightarrow>
   va_arg list \<Rightarrow> (vmessage_buf_t \<times> 32 word) option" where
  "vg_vmessage ws xml env b kind format vargs = do {
     let b = b\<lparr>vb_kind := kind\<rparr>;
     (out, ret) \<leftarrow> debugLog_vprintf xml format vargs;
     b \<leftarrow> send_all (add_to_vmessage_buf ws env) b out;
     Some (if vb_atLeft b \<and> length (vb_buf b) > 0
           then b\<lparr>vb_io := send_bytes_to_logging_sink ws (vb_io b) (vb_buf b), vb_buf := []\<rparr>
           else b, ret)
   }"

definition vg_message_flush :: "(int \<Rightarrow> string \<Rightarrow> int) \<Rightarrow> vmessage_buf_t \<Rightarrow> vmessage_buf_t" where
  "vg_message_flush ws b =
     b\<lparr>vb_io := send_bytes_to_logging_sink ws (vb_io b) (vb_buf b), vb_buf := []\<rparr>"

text \<open>
  The state the front ends share: the message buffer, whose sink is the log sink of \<^verbatim>\<open>printf\<close>
  as well, and the sink of the XML channel.
\<close>

record vgp_state =
  ps_msg :: vmessage_buf_t
  ps_xml :: out_state

definition vg_vprintf ::
  "(int \<Rightarrow> string \<Rightarrow> int) \<Rightarrow> bool \<Rightarrow> vgp_state \<Rightarrow> string \<Rightarrow> va_arg list \<Rightarrow>
   (vgp_state \<times> 32 word) option" where
  "vg_vprintf ws xml ps format vargs = do {
     (io, ret) \<leftarrow> vprintf_WRK ws xml (vb_io (ps_msg ps)) format vargs;
     Some (ps\<lparr>ps_msg := (ps_msg ps)\<lparr>vb_io := io\<rparr>\<rparr>, ret)
   }"

definition vg_printf ::
  "(int \<Rightarrow> string \<Rightarrow> int) \<Rightarrow> bool \<Rightarrow> vgp_state \<Rightarrow> string \<Rightarrow> va_arg list \<Rightarrow>
   (vgp_state \<times> 32 word) option" where
  "vg_printf ws xml ps format vargs = vg_vprintf ws xml ps format vargs"

definition vg_vprintf_xml ::
  "(int \<Rightarrow> string \<Rightarrow> int) \<Rightarrow> bool \<Rightarrow> vgp_state \<Rightarrow> string \<Rightarrow> va_arg list \<Rightarrow>
   (vgp_state \<times> 32 word) option" where
  "vg_vprintf_xml ws xml ps format vargs = do {
     (io, ret) \<leftarrow> vprintf_WRK ws xml (ps_xml ps) format vargs;
     Some (ps\<lparr>ps_xml := io\<rparr>, ret)
   }"

definition vg_message ::
  "(int \<Rightarrow> string \<Rightarrow> int) \<Rightarrow> bool \<Rightarrow> msg_env \<Rightarrow> vgp_state \<Rightarrow> VgMsgKind \<Rightarrow> string \<Rightarrow>
   va_arg list \<Rightarrow> (vgp_state \<times> 32 word) option" where
  "vg_message ws xml env ps kind format vargs = do {
     (b, ret) \<leftarrow> vg_vmessage ws xml env (ps_msg ps) kind format vargs;
     Some (ps\<lparr>ps_msg := b\<rparr>, ret)
   }"

definition emit_WRK ::
  "(int \<Rightarrow> string \<Rightarrow> int) \<Rightarrow> bool \<Rightarrow> msg_env \<Rightarrow> vgp_state \<Rightarrow> string \<Rightarrow> va_arg list \<Rightarrow>
   (vgp_state \<times> 32 word) option" where
  "emit_WRK ws xml env ps format vargs =
     (if xml then vg_vprintf_xml ws xml ps format vargs
      else if sk_fd (snk (vb_io (ps_msg ps))) = -2 then vg_vprintf ws xml ps format vargs
      else vg_message ws xml env ps Vg_UserMsg format vargs)"

definition vg_fmsg where
  "vg_fmsg ws xml env ps format vargs = vg_message ws xml env ps Vg_FailMsg format vargs"

definition vg_umsg where
  "vg_umsg ws xml env ps format vargs = vg_message ws xml env ps Vg_UserMsg format vargs"

definition vg_dmsg where
  "vg_dmsg ws xml env ps format vargs = vg_message ws xml env ps Vg_DebugMsg format vargs"

definition revert_to_stderr :: "vgp_state \<Rightarrow> vgp_state" where
  "revert_to_stderr ps = ps\<lparr>ps_msg := (ps_msg ps)\<lparr>vb_io := (vb_io (ps_msg ps))\<lparr>
     snk := revert_sink_to_stderr (snk (vb_io (ps_msg ps)))\<rparr>\<rparr>\<rparr>"

text \<open>
  The complaints about an option. The Boolean of the result says that \<^verbatim>\<open>VG_(exit)(1)\<close> was
  called, which happens in the early and the normal processing mode.
\<close>

definition vg_fmsg_bad_option ::
  "(int \<Rightarrow> string \<Rightarrow> int) \<Rightarrow> bool \<Rightarrow> msg_env \<Rightarrow> bool \<Rightarrow> vgp_state \<Rightarrow> string \<Rightarrow> string \<Rightarrow>
   va_arg list \<Rightarrow> (vgp_state \<times> bool) option" where
  "vg_fmsg_bad_option ws xml env fatal ps opt format vargs = do {
     let mkind = (if fatal then Vg_FailMsg else Vg_UserMsg);
     let ps = (if fatal then revert_to_stderr ps else ps);
     (ps, _) \<leftarrow> vg_message ws xml env ps mkind (''Bad option: %s'' @ [CHR 0x0A]) [VaStr (Some opt)];
     (ps, _) \<leftarrow> vg_message ws xml env ps mkind format vargs;
     (ps, _) \<leftarrow> vg_message ws xml env ps mkind
        (''Use --help for more information or consult the user manual.'' @ [CHR 0x0A]) [];
     Some (ps, fatal)
   }"

definition vg_fmsg_unknown_option ::
  "(int \<Rightarrow> string \<Rightarrow> int) \<Rightarrow> bool \<Rightarrow> msg_env \<Rightarrow> bool \<Rightarrow> vgp_state \<Rightarrow> string \<Rightarrow>
   (vgp_state \<times> bool) option" where
  "vg_fmsg_unknown_option ws xml env fatal ps opt = do {
     let mkind = (if fatal then Vg_FailMsg else Vg_UserMsg);
     let ps = (if fatal then revert_to_stderr ps else ps);
     (ps, _) \<leftarrow> vg_message ws xml env ps mkind (''Unknown option: %s'' @ [CHR 0x0A]) [VaStr (Some opt)];
     (ps, _) \<leftarrow> vg_message ws xml env ps mkind
        (''Use --help for more information or consult the user manual.'' @ [CHR 0x0A]) [];
     Some (ps, fatal)
   }"

definition msg_rel :: "VgMsgKind \<Rightarrow> vmessage_buf_t \<Rightarrow> string \<times> bool \<Rightarrow> bool" where
  "msg_rel kind b a \<longleftrightarrow> length (vb_buf b) < 512 \<and> sink_on (vb_io b) \<and> vb_kind b = kind \<and>
     emitted (vb_io b) @ vb_buf b = fst a \<and> vb_atLeft b = snd a"

text \<open>The unbuffered meaning: each line starts with the preamble.\<close>

definition msg_spec :: "string \<Rightarrow> string \<times> bool \<Rightarrow> char \<Rightarrow> string \<times> bool" where
  "msg_spec pre a c = (fst a @ (if snd a then pre else []) @ [c], c = CHR 0x0A)"

lemma vmessage_step:
  assumes "preamble env kind = Some pre" "length pre < 96" "msg_rel kind b a"
  shows "\<exists>b'. add_to_vmessage_buf ws env b c = Some b' \<and> msg_rel kind b' (msg_spec pre a c)"
  using assms
  by (cases "vb_atLeft b") (auto simp: add_to_vmessage_buf_def msg_rel_def msg_spec_def send_bytes Let_def)


text \<open>The preamble is short: the printed numbers have 32 bits.\<close>

lemma int64_buf_plain:
  "\<not> has flags VG_MSG_COMMA \<Longrightarrow> 2 \<le> base \<Longrightarrow>
   int64_buf flags base width caps p =
     (let neg = has flags VG_MSG_SIGNED \<and> sint p < 0;
          buf = rev (num base caps (unat (if neg then - p else p))) @ (if neg then ''-'' else [])
      in if width > 0 \<and> \<not> has flags VG_MSG_LJUSTIFY
         then buf @ replicate (nat width - length buf)
                      (if has flags VG_MSG_ZJUSTIFY then CHR ''0'' else CHR '' '')
         else buf)"
  by (auto simp: int64_buf_def Let_def num_def dlist_def int64_loop_plain rev_map digit_chars_def
      unat_eq_0)

lemma num_no_NUL: "2 \<le> b \<Longrightarrow> b \<le> 16 \<Longrightarrow> NUL \<notin> set (num b caps p)"
proof
  assume b: "2 \<le> b" "b \<le> 16" and "NUL \<in> set (num b caps p)"
  then obtain d where d: "d \<in> set (dlist b p)" "digit_chars caps ! d = NUL" by (auto simp: num_def)
  then have "d < 16" using dlist_less [OF b(1), of p] b(2) by auto
  with d(2) digit_chars_upto [of caps] show False by simp
qed

lemma int64_no_NUL:
  assumes "\<not> has flags VG_MSG_COMMA"
  shows "NUL \<notin> set (fst (myvprintf_int64 flags base width caps p))"
  using assms num_no_NUL [of base caps]
  by (auto simp: myvprintf_int64_def int64_buf_plain Let_def NUL_def split: if_splits)

lemma num_length: "2 \<le> b \<Longrightarrow> p < b ^ n \<Longrightarrow> n > 0 \<Longrightarrow> length (num b caps p) \<le> n"
  by (simp add: num_def dlist_length)

lemma int64_short:
  assumes "\<not> has flags VG_MSG_COMMA" "2 \<le> base" "base \<le> 16" "n > 0"
    "unat (if has flags VG_MSG_SIGNED \<and> sint p < 0 then - p else p) < base ^ n"
  shows "length (fst (myvprintf_int64 flags base width caps p)) \<le> max (nat width) (Suc n)"
  using assms(1-3) num_length [OF assms(2,5,4), of caps]
  by (auto simp: myvprintf_int64_def int64_buf_plain Let_def)

lemma int32_u: "length (fst (myvprintf_int64 flags 10 width caps (ucast (x :: 32 word)))) \<le> max (nat width) 11"
  if "\<not> has flags VG_MSG_COMMA" "\<not> has flags VG_MSG_SIGNED"
proof -
  have "unat x < 2 ^ LENGTH(32)" by (rule unsigned_less)
  then have "unat (ucast x :: 64 word) < 10 ^ 10" by (simp add: unsigned_ucast_eq take_bit_nat_eq_self)
  with int64_short [of flags 10 10] that show ?thesis by simp
qed

lemma int32_d: "length (fst (myvprintf_int64 flags 10 0 caps (scast (x :: 32 word)))) \<le> 11"
  if fl: "\<not> has flags VG_MSG_COMMA" "has flags VG_MSG_SIGNED"
proof -
  have s: "sint (scast x :: 64 word) = sint x" by (rule sint_up_scast) (simp add: is_up)
  have w: "unat (word_of_int i :: 64 word) = nat i" if "0 \<le> i" "i < 2 ^ 32" for i
    using that by (simp add: unsigned_of_int take_bit_int_eq_self)
  have bd: "- (2 ^ 31) \<le> sint x" "sint x < 2 ^ 31"
    using sint_greater_eq [of x] sint_less [of x] by simp_all
  have "unat (- scast x :: 64 word) = nat (- sint x)" if "sint x < 0"
    using w [of "- sint x"] that bd by simp
  moreover have "unat (scast x :: 64 word) = nat (sint x)" if "\<not> sint x < 0"
    using w [of "sint x"] that bd by simp
  ultimately have "unat (if has flags VG_MSG_SIGNED \<and> sint (scast x :: 64 word) < 0
      then - scast x else scast x :: 64 word) < 10 ^ 10"
    using bd fl by (auto simp: s nat_less_iff)
  with int64_short [of flags 10 10 "scast x" 0] fl show ?thesis by simp
qed

lemma vsprintf_ok:
  assumes "debugLog_vprintf xml f v = Some (out, ret)" "ret = of_nat (length out)" "NUL \<notin> set out" "length out < 2 ^ 31"
  shows "vg_vsprintf xml f v = Some (out, ret)"
proof -
  have "takeWhile (\<lambda>c. c \<noteq> NUL) out = out" using assms(3) by (auto simp: takeWhile_eq_all_conv)
  moreover have "sint ret = int (length out)"
    using assms(2,4) by (simp add: sint_of_nat_small)
  ultimately show ?thesis
    using assms(1) by (simp add: vg_vsprintf_def Let_def del: takeWhile_eq_all_conv)
qed

lemma directive_d: "directive xml (CHR ''d'' # f) (VaInt x # v) =
   (let r = myvprintf_int64 VG_MSG_SIGNED 10 0 False (scast x) in Some (fst r, snd r, f, v))"
  by (simp add: directive_defs has_def NUL_def schar_def case_prod_unfold Let_def)

lemma directive_02u: "directive xml (CHR ''0'' # CHR ''2'' # CHR ''u'' # f) (VaInt x # v) =
   (let r = myvprintf_int64 VG_MSG_ZJUSTIFY 10 2 False (ucast x) in Some (fst r, snd r, f, v))"
  by (simp add: directive_defs has_def NUL_def schar_def case_prod_unfold Let_def)

lemma directive_03u: "directive xml (CHR ''0'' # CHR ''3'' # CHR ''u'' # f) (VaInt x # v) =
   (let r = myvprintf_int64 VG_MSG_ZJUSTIFY 10 3 False (ucast x) in Some (fst r, snd r, f, v))"
  by (simp add: directive_defs has_def NUL_def schar_def case_prod_unfold Let_def)

lemma vprintf_d: "debugLog_vprintf xml (CHR ''%'' # CHR ''d'' # f) (VaInt x # v) =
   (let r = myvprintf_int64 VG_MSG_SIGNED 10 0 False (scast x)
    in map_option (\<lambda>(out, ret). (fst r @ out, snd r + ret)) (debugLog_vprintf xml f v))"
  by (subst vprintf_directive [OF _ _ directive_d [unfolded Let_def]]) (simp_all add: NUL_def Let_def)

lemma vprintf_02u: "debugLog_vprintf xml (CHR ''%'' # CHR ''0'' # CHR ''2'' # CHR ''u'' # f) (VaInt x # v) =
   (let r = myvprintf_int64 VG_MSG_ZJUSTIFY 10 2 False (ucast x)
    in map_option (\<lambda>(out, ret). (fst r @ out, snd r + ret)) (debugLog_vprintf xml f v))"
  by (subst vprintf_directive [OF _ _ directive_02u [unfolded Let_def]]) (simp_all add: NUL_def Let_def)

lemma vprintf_03u: "debugLog_vprintf xml (CHR ''%'' # CHR ''0'' # CHR ''3'' # CHR ''u'' # f) (VaInt x # v) =
   (let r = myvprintf_int64 VG_MSG_ZJUSTIFY 10 3 False (ucast x)
    in map_option (\<lambda>(out, ret). (fst r @ out, snd r + ret)) (debugLog_vprintf xml f v))"
  by (subst vprintf_directive [OF _ _ directive_03u [unfolded Let_def]]) (simp_all add: NUL_def Let_def)

lemma wallclock_short: "\<exists>s. elapsed_wallclock_time t = Some s \<and> length s \<le> 60"
proof -
  define u where "u w x = fst (myvprintf_int64 VG_MSG_ZJUSTIFY 10 w False (ucast (x :: 32 word)))" for w x
  have ln: "length (u w x) \<le> 11" if "w \<le> 11" for w x
    using int32_u [of VG_MSG_ZJUSTIFY w False x] that by (simp add: u_def max_def split: if_splits)
  have nz: "NUL \<notin> set (u w x)" for w x
    by (simp add: u_def int64_no_NUL)
  have "\<exists>s. vg_vsprintf False ''%02u:%02u:%02u:%02u.%03u ''
      [VaInt a, VaInt b, VaInt c, VaInt d, VaInt e] = Some (s, of_nat (length s)) \<and> length s \<le> 60"
    for a b c d e
  proof -
    let ?s = "u 2 a @ '':'' @ u 2 b @ '':'' @ u 2 c @ '':'' @ u 2 d @ ''.'' @ u 3 e @ '' ''"
    have "debugLog_vprintf False ''%02u:%02u:%02u:%02u.%03u ''
        [VaInt a, VaInt b, VaInt c, VaInt d, VaInt e] = Some (?s, of_nat (length ?s))"
      by (simp add: vprintf_02u vprintf_03u vprintf_lit NUL_def int64_count u_def Let_def)
    moreover have "length ?s \<le> 60"
      using ln [of 2 a] ln [of 2 b] ln [of 2 c] ln [of 2 d] ln [of 3 e] by simp
    moreover have "NUL \<notin> set ?s" using nz by (simp add: NUL_def)
    ultimately show ?thesis using vsprintf_ok by fastforce
  qed
  then show ?thesis
    unfolding elapsed_wallclock_time_def Let_def by (metis (no_types, lifting) fst_conv option.map(2))
qed

lemma pid_short: "\<exists>s. vg_vsprintf False ''%d'' [VaInt x] = Some (s, of_nat (length s)) \<and> length s \<le> 11"
proof -
  let ?s = "fst (myvprintf_int64 VG_MSG_SIGNED 10 0 False (scast x))"
  have "debugLog_vprintf False ''%d'' [VaInt x] = Some (?s, of_nat (length ?s))"
    by (simp add: vprintf_d Let_def prod_eq_iff int64_count)
  moreover have "length ?s \<le> 11" by (rule int32_d) simp_all
  moreover have "NUL \<notin> set ?s" by (simp add: int64_no_NUL)
  ultimately show ?thesis using vsprintf_ok by fastforce
qed

lemma preamble_short:
  "\<exists>pre. preamble env kind = Some pre \<and> length pre < 96"
proof -
  obtain t where t: "elapsed_wallclock_time (ms_timer env) = Some t" "length t \<le> 60"
    using wallclock_short by blast
  obtain p where p: "vg_vsprintf False ''%d'' [VaInt (the_pid env)] = Some (p, of_nat (length p))" "length p \<le> 11"
    using pid_short by blast
  show ?thesis
    using t p by (auto simp: preamble_def Let_def)
qed

interpretation msink: simulation "add_to_vmessage_buf ws env"
    "msg_spec (the (preamble env kind))" "msg_rel kind" "\<lambda>b c. True"
  for ws env kind
proof
  fix b a c
  assume "msg_rel kind b a"
  moreover obtain pre where "preamble env kind = Some pre" "length pre < 96"
    using preamble_short by blast
  ultimately show "\<exists>b'. add_to_vmessage_buf ws env b c = Some b' \<and>
      msg_rel kind b' (msg_spec (the (preamble env kind)) a c)"
    using vmessage_step by simp
qed

lemma vmessage_emits:
  assumes "msg_rel kind' b a" "debugLog_vprintf xml format vargs = Some (out, ret)"
  shows "\<exists>b'. vg_vmessage ws xml env b kind format vargs = Some (b', ret) \<and>
     msg_rel kind b' (foldl (msg_spec (the (preamble env kind))) a out) \<and>
     (vb_atLeft b' \<longrightarrow> vb_buf b' = [])"
proof -
  have "msg_rel kind (b\<lparr>vb_kind := kind\<rparr>) a" using assms(1) by (simp add: msg_rel_def)
  from msink.run_sim [OF this run_ok_True, of ws env out] obtain b1
    where b1: "send_all (add_to_vmessage_buf ws env) (b\<lparr>vb_kind := kind\<rparr>) out = Some b1"
      "msg_rel kind b1 (foldl (msg_spec (the (preamble env kind))) a out)"
    by blast
  with assms(2) show ?thesis
    by (auto simp: vg_vmessage_def msg_rel_def send_bytes Let_def)
qed

text \<open>The characters that reach a reliable sink other than gdb.\<close>

definition msg_got :: "(int \<Rightarrow> string \<Rightarrow> int) \<Rightarrow> VgMsgKind \<Rightarrow> vmessage_buf_t \<Rightarrow> string \<times> bool \<Rightarrow> bool" where
  "msg_got ws kind b a \<longleftrightarrow> length (vb_buf b) < 512 \<and> sink_on (vb_io b) \<and> vb_kind b = kind \<and>
     reliable ws (vb_io b) \<and> sk_fd (snk (vb_io b)) \<noteq> -2 \<and>
     delivered (vb_io b) @ vb_buf b = fst a \<and> vb_atLeft b = snd a"

interpretation mgot: simulation "add_to_vmessage_buf ws env"
    "msg_spec (the (preamble env kind))" "msg_got ws kind" "\<lambda>b c. True"
  for ws env kind
proof
  fix b a c
  assume r: "msg_got ws kind b a"
  obtain pre where pre: "preamble env kind = Some pre" "length pre < 96" using preamble_short by blast
  show "\<exists>b'. add_to_vmessage_buf ws env b c = Some b' \<and> msg_got ws kind b' (msg_spec (the (preamble env kind)) a c)"
    using r pre send_delivers [of "vb_io b" ws] by (cases "vb_atLeft b")
      (auto simp: add_to_vmessage_buf_def msg_got_def msg_spec_def send_bytes Let_def)
qed

lemma vmessage_delivered:
  assumes "msg_got ws kind' b a" "debugLog_vprintf xml format vargs = Some (out, ret)"
    "vg_vmessage ws xml env b kind format vargs = Some (b', r)"
  shows "delivered (vb_io b') @ vb_buf b' = fst (foldl (msg_spec (the (preamble env kind))) a out)"
proof -
  have "msg_got ws kind (b\<lparr>vb_kind := kind\<rparr>) a" using assms(1) by (simp add: msg_got_def)
  from mgot.run_sim [OF this run_ok_True, of env out] obtain b1
    where b1: "send_all (add_to_vmessage_buf ws env) (b\<lparr>vb_kind := kind\<rparr>) out = Some b1"
      "msg_got ws kind b1 (foldl (msg_spec (the (preamble env kind))) a out)" by blast
  with assms(2,3) send_delivers(2) [of "vb_io b1" ws "vb_buf b1"] show ?thesis
    by (auto simp: vg_vmessage_def msg_got_def Let_def split: if_splits)
qed

text \<open>What a run of the specification adds, line by line.\<close>

fun with_preambles :: "string \<Rightarrow> bool \<Rightarrow> string \<Rightarrow> string" where
  "with_preambles pre left [] = []"
| "with_preambles pre left (c # cs) =
     (if left then pre else []) @ c # with_preambles pre (c = CHR 0x0A) cs"

lemma msg_spec_run:
  "foldl (msg_spec pre) (s, left) out =
     (s @ with_preambles pre left out, if out = [] then left else last out = CHR 0x0A)"
  by (induction out arbitrary: s left) (auto simp: msg_spec_def)

section \<open>Properties\<close>

text \<open>A sink on standard error, the input of the evaluated instances.\<close>

definition stderr_state :: out_state where
  "stderr_state = \<lparr>snk = \<lparr>sk_fd = 2, sk_type = VgLogTo_Fd, sk_fsname = None\<rparr>, written = []\<rparr>"

lemma stderr_on: "sink_on stderr_state" "emitted stderr_state = []"
  by (simp_all add: stderr_state_def sink_on_def emitted_def)

text \<open>
  C24. \<^verbatim>\<open>VG_(printf)\<close> hands exactly the formatted characters to the sink, in order: its 512-byte buffer
  never overflows (the assertion in \<^verbatim>\<open>add_to__printf_buf\<close> holds), and nothing is left out or
  repeated when the buffer is flushed, also when a socket breaks in between and the sink
  falls back to standard error. They all arrive when the system takes every buffer whole (the
  code does not send the rest of a buffer that was taken in part), and, for output to gdb,
  when no NUL is printed.
\<close>

theorem printf_delivers:
  assumes "sink_on io" "debugLog_vprintf xml format vargs = Some (out, ret)"
  shows "\<exists>io'. vprintf_WRK ws xml io format vargs = Some (io', ret) \<and>
     emitted io' = emitted io @ out \<and> sink_on io' \<and>
     (reliable ws io \<and> (sk_fd (snk io) = -2 \<longrightarrow> NUL \<notin> set out) \<longrightarrow> delivered io' = delivered io @ out)"
  using vprintf_WRK_emits [OF assms, of ws] vprintf_WRK_delivers [OF assms, of ws] by blast

theorem printf_delivers_witness:
  "\<exists>io'. vprintf_WRK (\<lambda>_ msg. int (length msg)) False stderr_state ''0x%lx'' [VaLong 16] =
       Some (io', 1 + (1 + of_nat (length (num 16 False 16)))) \<and> emitted io' = ''0x'' @ num 16 False 16 \<and>
       delivered io' = ''0x'' @ num 16 False 16"
proof -
  have "debugLog_vprintf False ''0x%lx'' [VaLong 16] =
      Some (''0x'' @ num 16 False 16, 1 + (1 + of_nat (length (num 16 False 16))))"
    by (simp add: vprintf_lit vprintf_lx NUL_def Let_def)
  from printf_delivers [OF stderr_on(1) this, of "\<lambda>_ msg. int (length msg)"] show ?thesis
    by (auto simp: stderr_on, auto simp: stderr_state_def reliable_def delivered_def)
qed

text \<open>
  C26. \<^verbatim>\<open>VG_(snprintf)\<close> keeps the contract in its comment: with a buffer of \<open>n > 0\<close> bytes it
  returns the smaller of \<open>n\<close> and the length of the output, and the buffer then starts with
  the first \<open>n - 1\<close> characters of the output and the terminator; it never writes outside
  the buffer.
\<close>

theorem snprintf_contract:
  assumes "debugLog_vprintf xml format vargs = Some (out, ret)" "length buf = n" "n > 0"
  shows "\<exists>buf'. vg_vsnprintf xml buf (int n) format vargs = Some (buf', min n (length out)) \<and>
     length buf' = n \<and> take (min n (length out + 1)) buf' = take (n - 1) out @ [NUL]"
proof -
  let ?b = "\<lparr>sb_buf = buf[0 := NUL], sb_size = n, sb_used = 0\<rparr>"
  have "take (Suc 0) (buf[0 := NUL]) = [NUL]" using assms(2,3) by (cases buf) auto
  moreover have "min n (length [] + 1) = Suc 0" using assms(3) by simp
  ultimately have "snprintf_rel n ?b []" using assms(2) by (simp add: snprintf_rel_def)
  from snprintf_run [OF this, of out] assms show ?thesis
    by (auto simp: vg_vsnprintf_def snprintf_rel_def Let_def)
qed

theorem snprintf_contract_witness:
  "\<exists>buf'. vg_vsnprintf False ''....'' 4 ''0x%lx'' [VaLong 16] = Some (buf', min 4 (length (''0x'' @ num 16 False 16))) \<and>
     length buf' = 4"
proof -
  have "debugLog_vprintf False ''0x%lx'' [VaLong 16] =
      Some (''0x'' @ num 16 False 16, 1 + (1 + of_nat (length (num 16 False 16))))"
    by (simp add: vprintf_lit vprintf_lx NUL_def Let_def)
  from snprintf_contract [OF this, of "''....''" 4] show ?thesis by auto
qed

text \<open>
  C25. \<^verbatim>\<open>VG_(message)\<close> puts the preamble before the first character of every line and hands the rest
  to the sink unchanged. The assertions of \<^verbatim>\<open>add_to__vmessage_buf\<close> hold for every process id,
  timer value, nesting depth and message kind, so the 640-byte buffer cannot overflow; and
  a message that ends a line leaves nothing in the buffer. To a descriptor or a socket, all
  of it arrives when the system takes every buffer whole.
\<close>

theorem vmessage_delivers:
  assumes "msg_rel kind' b (s, left)" "debugLog_vprintf xml format vargs = Some (out, ret)"
  shows "\<exists>b' pre. vg_vmessage ws xml env b kind format vargs = Some (b', ret) \<and>
     preamble env kind = Some pre \<and> length pre < 96 \<and>
     emitted (vb_io b') @ vb_buf b' = s @ with_preambles pre left out \<and>
     (vb_atLeft b' \<longrightarrow> vb_buf b' = []) \<and>
     (reliable ws (vb_io b) \<and> sk_fd (snk (vb_io b)) \<noteq> -2 \<longrightarrow>
        delivered (vb_io b') @ vb_buf b' = delivered (vb_io b) @ vb_buf b @ with_preambles pre left out)"
proof -
  obtain pre where pre: "preamble env kind = Some pre" "length pre < 96"
    using preamble_short by blast
  from vmessage_emits [OF assms, of ws env kind] obtain b' where b':
    "vg_vmessage ws xml env b kind format vargs = Some (b', ret)"
    "msg_rel kind b' (s @ with_preambles pre left out, if out = [] then left else last out = CHR 0x0A)"
    "vb_atLeft b' \<longrightarrow> vb_buf b' = []" by (auto simp: msg_spec_run pre)
  have "delivered (vb_io b') @ vb_buf b' = delivered (vb_io b) @ vb_buf b @ with_preambles pre left out"
    if "reliable ws (vb_io b)" "sk_fd (snk (vb_io b)) \<noteq> -2"
  proof -
    have "msg_got ws kind' b (delivered (vb_io b) @ vb_buf b, left)" using assms(1) that by (auto simp: msg_got_def msg_rel_def)
    from vmessage_delivered [OF this assms(2) b'(1)] show ?thesis by (simp add: msg_spec_run pre)
  qed
  with pre b' show ?thesis by (auto simp: msg_rel_def)
qed

theorem vmessage_delivers_witness:
  "\<exists>b' pre. vg_vmessage (\<lambda>_ _. 0) False
       \<lparr>running_depth = 0, no_inner_prefix = False, clo_time_stamp = True, ms_timer = 1, the_pid = 42\<rparr>
       \<lparr>vb_buf = [], vb_atLeft = True, vb_kind = Vg_UserMsg, vb_io = stderr_state\<rparr>
       Vg_DebugMsg ''0x%lx'' [VaLong 16] = Some (b', 1 + (1 + of_nat (length (num 16 False 16)))) \<and>
     emitted (vb_io b') @ vb_buf b' = with_preambles pre True (''0x'' @ num 16 False 16)"
proof -
  have "debugLog_vprintf False ''0x%lx'' [VaLong 16] =
      Some (''0x'' @ num 16 False 16, 1 + (1 + of_nat (length (num 16 False 16))))"
    by (simp add: vprintf_lit vprintf_lx NUL_def Let_def)
  moreover have "msg_rel Vg_UserMsg
      \<lparr>vb_buf = [], vb_atLeft = True, vb_kind = Vg_UserMsg, vb_io = stderr_state\<rparr> ([], True)"
    by (simp add: msg_rel_def stderr_on)
  ultimately show ?thesis
    using vmessage_delivers [where ws = "\<lambda>_ _. 0" and kind = Vg_DebugMsg] by (metis (no_types, lifting) append_Nil)
qed

text \<open>
  C30. \<^verbatim>\<open>%#o\<close> counts two characters for the single \<open>0\<close> it sends, so \<^verbatim>\<open>VG_(sprintf)\<close> with such a
  format fails its own assertion on the length, whatever the value printed.
\<close>

theorem sprintf_alt_octal_fails: "vg_vsprintf xml ''%#o'' [VaInt x] = None"
proof -
  define d where "d = fst (myvprintf_int64 VG_MSG_ALTFORMAT 8 0 False (ucast x))"
  have fl: "\<not> has VG_MSG_ALTFORMAT VG_MSG_COMMA" "\<not> has VG_MSG_ALTFORMAT VG_MSG_SIGNED"
    by (simp_all add: has_def VG_MSG_ALTFORMAT_def VG_MSG_COMMA_def VG_MSG_SIGNED_def)
  have dir: "directive xml ''#o'' [VaInt x] = Some (''0'' @ d, 2 + of_nat (length d), [], [])"
    using int64_count [of VG_MSG_ALTFORMAT 8 0 False "ucast x"]
    by (simp add: directive_defs has_def VG_MSG_ALTFORMAT_def NUL_def schar_def case_prod_unfold
        Let_def d_def)
  have "debugLog_vprintf xml ''%#o'' [VaInt x] = Some (''0'' @ d, 2 + of_nat (length d))"
    by (subst vprintf_directive [OF _ _ dir]) (simp_all add: NUL_def)
  moreover have "NUL \<notin> set d" using int64_no_NUL [OF fl(1)] by (simp add: d_def)
  then have "takeWhile (\<lambda>c. c \<noteq> NUL) (''0'' @ d) = ''0'' @ d"
    by (auto simp: takeWhile_eq_all_conv NUL_def)
  moreover have "unat x < 2 ^ LENGTH(32)" by (rule unsigned_less)
  then have "unat (ucast x :: 64 word) < 8 ^ 11" by (simp add: unsigned_ucast_eq take_bit_nat_eq_self)
  then have "length d \<le> 12"
    using int64_short [of VG_MSG_ALTFORMAT 8 11 "ucast x" 0 False] fl by (simp add: d_def)
  then have "sint (2 + of_nat (length d) :: 32 word) = 2 + int (length d)"
    using sint_of_nat_small [of "2 + length d"] by simp
  ultimately show ?thesis by (simp add: vg_vsprintf_def Let_def del: takeWhile_eq_all_conv)
qed


end
