(* ===== verification/Vg_Mem.thy ===== *)
theory Vg_Mem
  imports Ml_Prelude
begin

text \<open>
  The functions of \<^verbatim>\<open>coregrind/m_libcbase.c\<close> that write memory: the copying string functions
  and \<^verbatim>\<open>memcpy\<close>, \<^verbatim>\<open>memmove\<close>, \<^verbatim>\<open>memset\<close> and \<^verbatim>\<open>memcmp\<close>. Memory is a partial map from 64-bit
  addresses to bytes; an access to an unmapped address is a fault, \<open>None\<close>. Pointers are
  addresses and wrap around.
\<close>

type_synonym mem = "64 word \<rightharpoonup> 8 word"

section \<open>Access\<close>

definition rd8 :: "mem \<Rightarrow> Addr \<Rightarrow> 8 word option" where
  "rd8 m a = m a"

definition wr8 :: "mem \<Rightarrow> Addr \<Rightarrow> 8 word \<Rightarrow> mem option" where
  "wr8 m a v = (if m a = None then None else Some (m(a \<mapsto> v)))"

text \<open>Little-endian access of two, four and eight bytes.\<close>

fun rd_bytes :: "nat \<Rightarrow> mem \<Rightarrow> Addr \<Rightarrow> 8 word list option" where
  "rd_bytes 0 m a = Some []"
| "rd_bytes (Suc n) m a = do { b \<leftarrow> rd8 m a; bs \<leftarrow> rd_bytes n m (a + 1); Some (b # bs) }"

fun wr_bytes :: "mem \<Rightarrow> Addr \<Rightarrow> 8 word list \<Rightarrow> mem option" where
  "wr_bytes m a [] = Some m"
| "wr_bytes m a (b # bs) = do { m \<leftarrow> wr8 m a b; wr_bytes m (a + 1) bs }"

section \<open>Strings\<close>

text \<open>\<^verbatim>\<open>while (*dest) dest++\<close> and \<^verbatim>\<open>while (*src) *dest++ = *src++\<close>.\<close>

partial_function (option) str_end :: "mem \<Rightarrow> Addr \<Rightarrow> Addr option" where
  "str_end m dest = do {
     c \<leftarrow> rd8 m dest;
     if c \<noteq> 0 then str_end m (dest + 1) else Some dest
   }"

partial_function (option) str_copy :: "mem \<Rightarrow> Addr \<Rightarrow> Addr \<Rightarrow> (mem \<times> Addr) option" where
  "str_copy m dest src = do {
     c \<leftarrow> rd8 m src;
     if c \<noteq> 0 then do { m \<leftarrow> wr8 m dest c; str_copy m (dest + 1) (src + 1) }
     else Some (m, dest)
   }"

definition vg_strcpy :: "mem \<Rightarrow> Addr \<Rightarrow> Addr \<Rightarrow> (mem \<times> Addr) option" where
  "vg_strcpy m dest src = do {
     (m, d) \<leftarrow> str_copy m dest src;
     m \<leftarrow> wr8 m d 0;
     Some (m, dest)
   }"

definition vg_strcat :: "mem \<Rightarrow> Addr \<Rightarrow> Addr \<Rightarrow> (mem \<times> Addr) option" where
  "vg_strcat m dest src = do {
     d \<leftarrow> str_end m dest;
     (m, d) \<leftarrow> str_copy m d src;
     m \<leftarrow> wr8 m d 0;
     Some (m, dest)
   }"

text \<open>The bounded copy of \<^verbatim>\<open>strncat\<close>: \<open>n\<close> is the number of characters still allowed.\<close>

fun str_ncopy :: "mem \<Rightarrow> Addr \<Rightarrow> Addr \<Rightarrow> nat \<Rightarrow> (mem \<times> Addr) option" where
  "str_ncopy m dest src n = do {
     c \<leftarrow> rd8 m src;
     if c \<noteq> 0 \<and> n > 0 then do { m \<leftarrow> wr8 m dest c; str_ncopy m (dest + 1) (src + 1) (n - 1) }
     else Some (m, dest)
   }"

definition vg_strncat :: "mem \<Rightarrow> Addr \<Rightarrow> Addr \<Rightarrow> SizeT \<Rightarrow> (mem \<times> Addr) option" where
  "vg_strncat m dest src n = do {
     d \<leftarrow> str_end m dest;
     (m, d) \<leftarrow> str_ncopy m d src (unat n);
     m \<leftarrow> wr8 m d 0;
     Some (m, dest)
   }"

text \<open>\<^verbatim>\<open>strncpy\<close>: copy up to the limit, and pad with zeroes after the terminator.\<close>

fun zero_fill :: "mem \<Rightarrow> Addr \<Rightarrow> nat \<Rightarrow> mem option" where
  "zero_fill m d 0 = Some m"
| "zero_fill m d (Suc n) = do { m \<leftarrow> wr8 m d 0; zero_fill m (d + 1) n }"

fun strncpy_loop :: "mem \<Rightarrow> Addr \<Rightarrow> Addr \<Rightarrow> nat \<Rightarrow> mem option" where
  "strncpy_loop m dest src 0 = Some m"
| "strncpy_loop m dest src (Suc n) = do {
     c \<leftarrow> rd8 m src;
     m \<leftarrow> wr8 m dest c;
     if c = 0 then zero_fill m (dest + 1) n else strncpy_loop m (dest + 1) (src + 1) n
   }"

definition vg_strncpy :: "mem \<Rightarrow> Addr \<Rightarrow> Addr \<Rightarrow> SizeT \<Rightarrow> (mem \<times> Addr) option" where
  "vg_strncpy m dest src ndest = do {
     m \<leftarrow> strncpy_loop m dest src (unat ndest);
     Some (m, dest)
   }"

text \<open>
  \<^verbatim>\<open>strlcpy\<close>: the loop condition is \<^verbatim>\<open>m < n - 1\<close> on unsigned numbers, so that the loop may run
  \<open>unat (n - 1)\<close> times.
\<close>

fun strlcpy_loop :: "mem \<Rightarrow> Addr \<Rightarrow> Addr \<Rightarrow> nat \<Rightarrow> (mem \<times> Addr \<times> Addr) option" where
  "strlcpy_loop m dst src k =
     (if k > 0 then do {
        c \<leftarrow> rd8 m src;
        if c \<noteq> 0 then do { m \<leftarrow> wr8 m dst c; strlcpy_loop m (dst + 1) (src + 1) (k - 1) }
        else Some (m, dst, src)
      } else Some (m, dst, src))"

definition vg_strlcpy :: "mem \<Rightarrow> Addr \<Rightarrow> Addr \<Rightarrow> SizeT \<Rightarrow> (mem \<times> SizeT) option" where
  "vg_strlcpy m dst src_orig n = do {
     (m, dst, src) \<leftarrow> strlcpy_loop m dst src_orig (unat (n - 1));
     m \<leftarrow> (if n > 0 then wr8 m dst 0 else Some m);
     src \<leftarrow> str_end m src;
     Some (m, src - src_orig)
   }"

section \<open>memcpy, memmove, memset, memcmp\<close>

definition VG_IS_4_ALIGNED :: "Addr \<Rightarrow> bool" where
  "VG_IS_4_ALIGNED a \<longleftrightarrow> a AND 3 = 0"

text \<open>\<^verbatim>\<open>dI[i] = sI[i]\<close> and \<^verbatim>\<open>d[i] = s[i]\<close>.\<close>

definition copy_word :: "mem \<Rightarrow> Addr \<Rightarrow> Addr \<Rightarrow> mem option" where
  "copy_word m d s = do { bs \<leftarrow> rd_bytes 4 m s; wr_bytes m d bs }"

definition copy_byte :: "mem \<Rightarrow> Addr \<Rightarrow> Addr \<Rightarrow> mem option" where
  "copy_byte m d s = do { b \<leftarrow> rd8 m s; wr8 m d b }"

text \<open>The four loops of \<^verbatim>\<open>memcpy\<close>, each with the pointers and the size it leaves.\<close>

fun memcpy_words16 :: "mem \<Rightarrow> Addr \<Rightarrow> Addr \<Rightarrow> nat \<Rightarrow> (mem \<times> Addr \<times> Addr \<times> nat) option" where
  "memcpy_words16 m d s sz =
     (if sz \<ge> 16 then do {
        m \<leftarrow> copy_word m d s;
        m \<leftarrow> copy_word m (d + 4) (s + 4);
        m \<leftarrow> copy_word m (d + 8) (s + 8);
        m \<leftarrow> copy_word m (d + 12) (s + 12);
        memcpy_words16 m (d + 16) (s + 16) (sz - 16)
      } else Some (m, d, s, sz))"

fun memcpy_words4 :: "mem \<Rightarrow> Addr \<Rightarrow> Addr \<Rightarrow> nat \<Rightarrow> (mem \<times> Addr \<times> Addr \<times> nat) option" where
  "memcpy_words4 m d s sz =
     (if sz \<ge> 4 then do {
        m \<leftarrow> copy_word m d s;
        memcpy_words4 m (d + 4) (s + 4) (sz - 4)
      } else Some (m, d, s, sz))"

fun memcpy_bytes4 :: "mem \<Rightarrow> Addr \<Rightarrow> Addr \<Rightarrow> nat \<Rightarrow> (mem \<times> Addr \<times> Addr \<times> nat) option" where
  "memcpy_bytes4 m d s sz =
     (if sz \<ge> 4 then do {
        m \<leftarrow> copy_byte m d s;
        m \<leftarrow> copy_byte m (d + 1) (s + 1);
        m \<leftarrow> copy_byte m (d + 2) (s + 2);
        m \<leftarrow> copy_byte m (d + 3) (s + 3);
        memcpy_bytes4 m (d + 4) (s + 4) (sz - 4)
      } else Some (m, d, s, sz))"

fun memcpy_bytes :: "mem \<Rightarrow> Addr \<Rightarrow> Addr \<Rightarrow> nat \<Rightarrow> mem option" where
  "memcpy_bytes m d s sz =
     (if sz \<ge> 1 then do {
        m \<leftarrow> copy_byte m d s;
        memcpy_bytes m (d + 1) (s + 1) (sz - 1)
      } else Some m)"

definition vg_memcpy :: "mem \<Rightarrow> Addr \<Rightarrow> Addr \<Rightarrow> SizeT \<Rightarrow> mem option" where
  "vg_memcpy m dest src szB = (let sz = unat szB in
     if VG_IS_4_ALIGNED dest \<and> VG_IS_4_ALIGNED src then do {
       (m, d, s, sz) \<leftarrow> memcpy_words16 m dest src sz;
       if sz = 0 then Some m
       else do {
         (m, d, s, sz) \<leftarrow> memcpy_words4 m d s sz;
         if sz = 0 then Some m
         else do {
           (m, d, s, sz) \<leftarrow> memcpy_bytes4 m d s sz;
           memcpy_bytes m d s sz
         }
       }
     }
     else do {
       (m, d, s, sz) \<leftarrow> memcpy_bytes4 m dest src sz;
       memcpy_bytes m d s sz
     })"

text \<open>The upward and the downward loop of \<^verbatim>\<open>memmove\<close>, with \<open>i\<close> the loop counter.\<close>

function memmove_up :: "mem \<Rightarrow> Addr \<Rightarrow> Addr \<Rightarrow> nat \<Rightarrow> nat \<Rightarrow> mem option" where
  "memmove_up m dest src i sz =
     (if i < sz then do {
        m \<leftarrow> copy_byte m (dest + of_nat i) (src + of_nat i);
        memmove_up m dest src (i + 1) sz
      } else Some m)"
  by auto
termination by (relation "measure (\<lambda>(m, d, s, i, sz). sz - i)") auto

function memmove_down :: "mem \<Rightarrow> Addr \<Rightarrow> Addr \<Rightarrow> nat \<Rightarrow> nat \<Rightarrow> mem option" where
  "memmove_down m dest src i sz =
     (if i < sz then do {
        m \<leftarrow> copy_byte m (dest + of_nat (sz - i - 1)) (src + of_nat (sz - i - 1));
        memmove_down m dest src (i + 1) sz
      } else Some m)"
  by auto
termination by (relation "measure (\<lambda>(m, d, s, i, sz). sz - i)") auto

definition vg_memmove :: "mem \<Rightarrow> Addr \<Rightarrow> Addr \<Rightarrow> SizeT \<Rightarrow> mem option" where
  "vg_memmove m dest src sz =
     (if sz = 0 then Some m
      else if dest < src then memmove_up m dest src 0 (unat sz)
      else if dest > src then memmove_down m dest src 0 (unat sz)
      else Some m)"

text \<open>The loops of \<^verbatim>\<open>memset\<close>; \<open>c4\<close> is the byte in all four places of a word.\<close>

fun memset_align :: "mem \<Rightarrow> Addr \<Rightarrow> 8 word \<Rightarrow> nat \<Rightarrow> (mem \<times> Addr \<times> nat) option" where
  "memset_align m d uc sz =
     (if \<not> VG_IS_4_ALIGNED d \<and> sz \<ge> 1 then do {
        m \<leftarrow> wr8 m d uc;
        memset_align m (d + 1) uc (sz - 1)
      } else Some (m, d, sz))"

definition memset_c4 :: "8 word \<Rightarrow> 32 word" where
  "memset_c4 uc =
     (let c4 = ucast uc;
          c4 = c4 OR push_bit 8 c4
      in c4 OR push_bit 16 c4)"

text \<open>The bytes of a 32-bit word, least significant first, as a store writes them.\<close>

definition word_bytes :: "32 word \<Rightarrow> 8 word list" where
  "word_bytes w = map (\<lambda>i. ucast (drop_bit (8 * i) w)) [0..<4]"

fun memset_words16 :: "mem \<Rightarrow> Addr \<Rightarrow> 32 word \<Rightarrow> nat \<Rightarrow> (mem \<times> Addr \<times> nat) option" where
  "memset_words16 m d c4 sz =
     (if sz \<ge> 16 then do {
        m \<leftarrow> wr_bytes m d (word_bytes c4);
        m \<leftarrow> wr_bytes m (d + 4) (word_bytes c4);
        m \<leftarrow> wr_bytes m (d + 8) (word_bytes c4);
        m \<leftarrow> wr_bytes m (d + 12) (word_bytes c4);
        memset_words16 m (d + 16) c4 (sz - 16)
      } else Some (m, d, sz))"

fun memset_words4 :: "mem \<Rightarrow> Addr \<Rightarrow> 32 word \<Rightarrow> nat \<Rightarrow> (mem \<times> Addr \<times> nat) option" where
  "memset_words4 m d c4 sz =
     (if sz \<ge> 4 then do {
        m \<leftarrow> wr_bytes m d (word_bytes c4);
        memset_words4 m (d + 4) c4 (sz - 4)
      } else Some (m, d, sz))"

fun memset_bytes :: "mem \<Rightarrow> Addr \<Rightarrow> 8 word \<Rightarrow> nat \<Rightarrow> mem option" where
  "memset_bytes m d c sz =
     (if sz \<ge> 1 then do {
        m \<leftarrow> wr8 m d c;
        memset_bytes m (d + 1) c (sz - 1)
      } else Some m)"

definition vg_memset :: "mem \<Rightarrow> Addr \<Rightarrow> 32 word \<Rightarrow> SizeT \<Rightarrow> mem option" where
  "vg_memset m destV c szB = (let uc = ucast c in do {
     (m, d, sz) \<leftarrow> memset_align m destV uc (unat szB);
     if sz = 0 then Some m
     else do {
       let c4 = memset_c4 uc;
       (m, d, sz) \<leftarrow> memset_words16 m d c4 sz;
       (m, d, sz) \<leftarrow> memset_words4 m d c4 sz;
       memset_bytes m d (ucast c) sz
     }
   })"

fun vg_memcmp_loop :: "mem \<Rightarrow> Addr \<Rightarrow> Addr \<Rightarrow> nat \<Rightarrow> int option" where
  "vg_memcmp_loop m p1 p2 0 = Some 0"
| "vg_memcmp_loop m p1 p2 (Suc n) = do {
     a0 \<leftarrow> rd8 m p1;
     b0 \<leftarrow> rd8 m p2;
     let res = uint a0 - uint b0;
     if res \<noteq> 0 then Some res else vg_memcmp_loop m (p1 + 1) (p2 + 1) n
   }"

definition vg_memcmp :: "mem \<Rightarrow> Addr \<Rightarrow> Addr \<Rightarrow> SizeT \<Rightarrow> int option" where
  "vg_memcmp m s1 s2 n = vg_memcmp_loop m s1 s2 (unat n)"

declare str_end.simps [code] str_copy.simps [code]

declare str_ncopy.simps [simp del] strlcpy_loop.simps [simp del] memcpy_words16.simps [simp del]
  memcpy_words4.simps [simp del] memcpy_bytes4.simps [simp del] memcpy_bytes.simps [simp del]
  memmove_up.simps [simp del] memmove_down.simps [simp del] memset_align.simps [simp del]
  memset_words16.simps [simp del] memset_words4.simps [simp del] memset_bytes.simps [simp del]

section \<open>Regions\<close>

text \<open>
  \<open>over m a bs\<close> is the memory after the bytes \<open>bs\<close> have been written from \<open>a\<close> on.
\<close>

definition over :: "mem \<Rightarrow> Addr \<Rightarrow> 8 word list \<Rightarrow> mem" where
  "over m a bs = (\<lambda>x. if unat (x - a) < length bs then Some (bs ! unat (x - a)) else m x)"

definition mapped :: "mem \<Rightarrow> Addr \<Rightarrow> nat \<Rightarrow> bool" where
  "mapped m a n \<longleftrightarrow> (\<forall>i<n. m (a + of_nat i) \<noteq> None)"

definition holds_bytes :: "mem \<Rightarrow> Addr \<Rightarrow> 8 word list \<Rightarrow> bool" where
  "holds_bytes m a bs \<longleftrightarrow> (\<forall>i<length bs. m (a + of_nat i) = Some (bs ! i))"

definition apart :: "Addr \<Rightarrow> nat \<Rightarrow> Addr \<Rightarrow> nat \<Rightarrow> bool" where
  "apart a n b k \<longleftrightarrow> (\<forall>i<n. \<forall>j<k. a + of_nat i \<noteq> b + of_nat j)"

lemma unat64 [simp]: "n < 2 ^ 64 \<Longrightarrow> unat (of_nat n :: 64 word) = n"
  by (simp add: unat_of_nat)

lemma unat64_less: "unat (x :: 64 word) < 2 ^ 64"
  using unsigned_less [of x, where 'a = nat] by simp

lemma unat_add64: "unat a + n < 2 ^ 64 \<Longrightarrow> unat (a + of_nat n :: 64 word) = unat a + n"
  by (simp add: unat_plus_if')

lemma unat_diff64: "unat (x - a :: 64 word) =
    (if unat a \<le> unat x then unat x - unat a else unat x + 2 ^ 64 - unat a)"
  by (simp add: unat_sub_if')

lemma over_Nil [simp]: "over m a [] = m"
  by (simp add: over_def)

lemma over_Some: "over m a bs x \<noteq> None \<longleftrightarrow> unat (x - a) < length bs \<or> m x \<noteq> None"
  by (simp add: over_def)

lemma mapped_over: "mapped m b n \<Longrightarrow> mapped (over m a bs) b n"
  unfolding mapped_def over_Some by blast

lemma add_of_nat: "a + of_nat n + of_nat k = a + (of_nat (n + k) :: 64 word)"
  by simp

lemma all_less_add: "(\<forall>i < n + k. P i) \<longleftrightarrow> (\<forall>i<n. P i) \<and> (\<forall>i<k. P (n + i))" for n k :: nat
  by (metis add_less_cancel_left less_diff_conv2 linorder_not_le nat_add_left_cancel_less
      le_add_diff_inverse trans_less_add1)

lemma mapped_append: "mapped m a (n + k) \<longleftrightarrow> mapped m a n \<and> mapped m (a + of_nat n) k"
  unfolding mapped_def all_less_add add_of_nat ..

lemma holds_append:
  "holds_bytes m a (xs @ ys) \<longleftrightarrow>
     holds_bytes m a xs \<and> holds_bytes m (a + of_nat (length xs)) ys"
  unfolding holds_bytes_def length_append all_less_add add_of_nat by (simp add: nth_append)

lemma over_append:
  assumes "length xs + length ys \<le> 2 ^ 64"
  shows "over (over m a xs) (a + of_nat (length xs)) ys = over m a (xs @ ys)"
proof
  fix x
  define k where "k = unat (x - a)"
  have x: "x - (a + of_nat (length xs)) = of_nat k - of_nat (length xs)"
    by (simp add: k_def)
  have k: "k < 2 ^ 64" unfolding k_def by (rule unat64_less)
  show "over (over m a xs) (a + of_nat (length xs)) ys x = over m a (xs @ ys) x"
  proof (cases "length xs \<le> k")
    case True
    then have "x - (a + of_nat (length xs)) = of_nat (k - length xs)" by (simp add: x of_nat_diff)
    then have "unat (x - (a + of_nat (length xs))) = k - length xs" using k by simp
    with True show ?thesis by (auto simp: over_def k_def [symmetric] nth_append)
  next
    case False
    define j where "j = unat (x - (a + of_nat (length xs)))"
    have "\<not> j < length ys"
    proof
      assume j: "j < length ys"
      have "x - a = of_nat (length xs + j)" by (simp add: j_def)
      moreover have "length xs + j < 2 ^ 64" using j assms by linarith
      ultimately have "k = length xs + j" unfolding k_def by (simp only: unat64)
      with False show False by simp
    qed
    with False show ?thesis by (simp add: over_def k_def [symmetric] j_def [symmetric] nth_append)
  qed
qed

lemma over_one: "over m a [b] = m(a \<mapsto> b)"
proof
  fix x show "over m a [b] x = (m(a \<mapsto> b)) x"
    by (cases "x = a") (auto simp: over_def unat_eq_0)
qed

lemma wr_bytes_over:
  "mapped m a (length bs) \<Longrightarrow> length bs \<le> 2 ^ 64 \<Longrightarrow> wr_bytes m a bs = Some (over m a bs)"
proof (induction bs arbitrary: m a)
  case (Cons b bs)
  have "mapped m a 1" "mapped m (a + 1) (length bs)"
    using Cons.prems(1) mapped_append [of m a 1 "length bs"] by simp_all
  moreover from this have "wr8 m a b = Some (over m a [b])"
    by (simp add: wr8_def mapped_def over_one)
  ultimately show ?case
    using Cons over_append [of "[b]" bs m a] by (simp add: mapped_over)
qed simp

lemma rd_bytes_holds: "holds_bytes m a bs \<Longrightarrow> rd_bytes (length bs) m a = Some bs"
proof (induction bs arbitrary: a)
  case (Cons b bs)
  then have "m a = Some b" "holds_bytes m (a + 1) bs"
    using holds_append [of m a "[b]" bs] by (simp_all add: holds_bytes_def)
  with Cons.IH show ?case by (simp add: rd8_def)
qed simp

lemma holds_over_apart:
  assumes "apart s (length bs) d (length xs)" "holds_bytes m s bs" "length xs \<le> 2 ^ 64"
  shows "holds_bytes (over m d xs) s bs"
proof -
  have "\<not> unat (s + of_nat i - d) < length xs" if "i < length bs" for i
  proof
    assume j: "unat (s + of_nat i - d) < length xs"
    have "s + of_nat i = d + of_nat (unat (s + of_nat i - d))" by simp
    with j that assms(1) show False unfolding apart_def by blast
  qed
  with assms(2) show ?thesis by (simp add: holds_bytes_def over_def)
qed

lemma holds_over: "length bs \<le> 2 ^ 64 \<Longrightarrow> holds_bytes (over m a bs) a bs"
  by (simp add: holds_bytes_def over_def)

lemma over_outside: "\<not> unat (x - a) < length bs \<Longrightarrow> over m a bs x = m x"
  by (simp add: over_def)

section \<open>Copying\<close>

text \<open>The bytes \<open>bs\<close> are at \<open>s\<close>, and there is room for them at \<open>d\<close>, apart from \<open>s\<close>.\<close>

definition can_copy :: "mem \<Rightarrow> Addr \<Rightarrow> Addr \<Rightarrow> 8 word list \<Rightarrow> bool" where
  "can_copy m d s bs \<longleftrightarrow> holds_bytes m s bs \<and> mapped m d (length bs) \<and>
     apart s (length bs) d (length bs) \<and> length bs \<le> 2 ^ 64"

lemma apart_append:
  "apart s (n + k) d (n + k) \<Longrightarrow>
   apart s n d n \<and> apart (s + of_nat n) k d n \<and> apart (s + of_nat n) k (d + of_nat n) k"
  unfolding apart_def all_less_add add_of_nat by blast

lemma can_copy_first: "can_copy m d s (xs @ ys) \<Longrightarrow> can_copy m d s xs"
  using apart_append [of s "length xs" "length ys" d]
  by (simp add: can_copy_def holds_append mapped_append)

lemma can_copy_rest:
  assumes "can_copy m d s (xs @ ys)"
  shows "can_copy (over m d xs) (d + of_nat (length xs)) (s + of_nat (length xs)) ys"
proof -
  from assms have a: "apart (s + of_nat (length xs)) (length ys) d (length xs)"
    "apart (s + of_nat (length xs)) (length ys) (d + of_nat (length xs)) (length ys)"
    using apart_append [of s "length xs" "length ys" d] by (simp_all add: can_copy_def)
  with assms show ?thesis
    by (simp add: can_copy_def holds_append mapped_append mapped_over holds_over_apart)
qed

lemma copy_byte_ok: "can_copy m d s [b] \<Longrightarrow> copy_byte m d s = Some (over m d [b])"
  by (simp add: can_copy_def copy_byte_def holds_bytes_def mapped_def rd8_def wr8_def over_one)

lemma copy_word_ok: "can_copy m d s bs \<Longrightarrow> length bs = 4 \<Longrightarrow> copy_word m d s = Some (over m d bs)"
  using rd_bytes_holds [of m s bs] wr_bytes_over [of m d bs]
  by (simp add: can_copy_def copy_word_def)

definition copies :: "(mem \<Rightarrow> Addr \<Rightarrow> Addr \<Rightarrow> mem option) \<Rightarrow> nat \<Rightarrow> bool" where
  "copies f k \<longleftrightarrow> (\<forall>m d s bs. can_copy m d s bs \<longrightarrow> length bs = k \<longrightarrow> f m d s = Some (over m d bs))"

lemma copiesD: "copies f k \<Longrightarrow> can_copy m d s bs \<Longrightarrow> length bs = k \<Longrightarrow> f m d s = Some (over m d bs)"
  by (simp add: copies_def)

lemma copies_byte: "copies copy_byte 1"
proof -
  have "copy_byte m d s = Some (over m d bs)" if "can_copy m d s bs" "length bs = 1" for m d s bs
    using that copy_byte_ok [of m d s "hd bs"] by (cases bs) auto
  then show ?thesis by (simp add: copies_def)
qed

lemma copies_word: "copies copy_word 4"
  by (simp add: copies_def copy_word_ok)

lemma copies_seq:
  assumes "copies f j" "copies g k"
  shows "copies (\<lambda>m d s. f m d s \<bind> (\<lambda>m. g m (d + of_nat j) (s + of_nat j))) (j + k)"
  unfolding copies_def
proof (intro allI impI)
  fix m d s bs
  assume bs: "can_copy m d s bs" "length bs = j + k"
  define x y where xy: "x = take j bs" "y = drop j bs"
  then have b: "bs = x @ y" "length x = j" "length y = k" using bs(2) by simp_all
  have "f m d s = Some (over m d x)"
    using copiesD [OF assms(1) can_copy_first] bs(1) b by blast
  moreover have "g (over m d x) (d + of_nat j) (s + of_nat j) = Some (over (over m d x) (d + of_nat j) y)"
    using copiesD [OF assms(2) can_copy_rest [of m d s x y]] bs(1) b by simp
  moreover have "over (over m d x) (d + of_nat j) y = over m d bs"
    using over_append [of x y m d] b bs(1) by (simp add: can_copy_def)
  ultimately show "f m d s \<bind> (\<lambda>m. g m (d + of_nat j) (s + of_nat j)) = Some (over m d bs)" by simp
qed

lemma copies_words16: "copies (\<lambda>m d s. copy_word m d s \<bind> (\<lambda>m. copy_word m (d + 4) (s + 4) \<bind>
     (\<lambda>m. copy_word m (d + 8) (s + 8) \<bind> (\<lambda>m. copy_word m (d + 12) (s + 12))))) 16"
  using copies_seq [OF copies_word copies_seq [OF copies_word copies_seq [OF copies_word copies_word]]]
  by (simp add: add.assoc)

lemma copies_bytes4: "copies (\<lambda>m d s. copy_byte m d s \<bind> (\<lambda>m. copy_byte m (d + 1) (s + 1) \<bind>
     (\<lambda>m. copy_byte m (d + 2) (s + 2) \<bind> (\<lambda>m. copy_byte m (d + 3) (s + 3))))) 4"
  using copies_seq [OF copies_byte copies_seq [OF copies_byte copies_seq [OF copies_byte copies_byte]]]
  by (simp add: add.assoc eval_nat_numeral)

text \<open>
  A loop that copies \<open>k\<close> bytes per iteration copies a multiple of \<open>k\<close> and leaves less than \<open>k\<close>.
\<close>

lemma chunk_loop:
  assumes eq: "\<And>m d s n. loop m d s n = (if n \<ge> k
      then step m d s \<bind> (\<lambda>m. loop m (d + of_nat k) (s + of_nat k) (n - k)) else Some (m, d, s, n))"
    and step: "copies step k"
    and k: "k > 0"
  shows "can_copy m d s bs \<Longrightarrow> \<exists>xs ys. bs = xs @ ys \<and> length ys < k \<and> loop m d s (length bs) =
     Some (over m d xs, d + of_nat (length xs), s + of_nat (length xs), length ys)"
proof (induction "length bs" arbitrary: m d s bs rule: less_induct)
  case less
  show ?case
  proof (cases "length bs \<ge> k")
    case False
    then show ?thesis
      by (intro exI [of _ "[]"] exI [of _ bs]) (simp add: eq)
  next
    case True
    define w r where wr: "w = take k bs" "r = drop k bs"
    then have bs: "bs = w @ r" and w: "length w = k" and r: "length r < length bs"
      using True k by simp_all
    have c: "can_copy m d s w" "can_copy (over m d w) (d + of_nat k) (s + of_nat k) r"
      using can_copy_first [of m d s w r] can_copy_rest [of m d s w r] less.prems bs w by simp_all
    from less.hyps [OF r c(2)] obtain xs ys where xy: "r = xs @ ys" "length ys < k"
      "loop (over m d w) (d + of_nat k) (s + of_nat k) (length r) =
        Some (over (over m d w) (d + of_nat k) xs, d + of_nat k + of_nat (length xs),
              s + of_nat k + of_nat (length xs), length ys)"
      by blast
    have ov: "over (over m d w) (d + of_nat k) xs = over m d (w @ xs)"
      using over_append [of w xs m d] w less.prems bs xy(1) by (simp add: can_copy_def)
    have "loop m d s (length bs) = loop (over m d w) (d + of_nat k) (s + of_nat k) (length r)"
      using True copiesD [OF step c(1) w] wr by (subst eq) simp
    with xy ov bs w show ?thesis
      by (intro exI [of _ "w @ xs"] exI [of _ ys]) (simp add: add.assoc)
  qed
qed

lemma memcpy_words16_ok:
  "can_copy m d s bs \<Longrightarrow> \<exists>xs ys. bs = xs @ ys \<and> length ys < 16 \<and> memcpy_words16 m d s (length bs) =
     Some (over m d xs, d + of_nat (length xs), s + of_nat (length xs), length ys)"
  by (rule chunk_loop [where step = "\<lambda>m d s. copy_word m d s \<bind> (\<lambda>m. copy_word m (d + 4) (s + 4) \<bind>
     (\<lambda>m. copy_word m (d + 8) (s + 8) \<bind> (\<lambda>m. copy_word m (d + 12) (s + 12))))"])
    (subst memcpy_words16.simps, simp_all add: copies_words16)

lemma memcpy_words4_ok:
  "can_copy m d s bs \<Longrightarrow> \<exists>xs ys. bs = xs @ ys \<and> length ys < 4 \<and> memcpy_words4 m d s (length bs) =
     Some (over m d xs, d + of_nat (length xs), s + of_nat (length xs), length ys)"
  by (rule chunk_loop [where step = copy_word])
    (subst memcpy_words4.simps, simp_all add: copies_word)

lemma memcpy_bytes4_ok:
  "can_copy m d s bs \<Longrightarrow> \<exists>xs ys. bs = xs @ ys \<and> length ys < 4 \<and> memcpy_bytes4 m d s (length bs) =
     Some (over m d xs, d + of_nat (length xs), s + of_nat (length xs), length ys)"
  by (rule chunk_loop [where step = "\<lambda>m d s. copy_byte m d s \<bind> (\<lambda>m. copy_byte m (d + 1) (s + 1) \<bind>
     (\<lambda>m. copy_byte m (d + 2) (s + 2) \<bind> (\<lambda>m. copy_byte m (d + 3) (s + 3))))"])
    (subst memcpy_bytes4.simps, simp_all add: copies_bytes4)

lemma memcpy_bytes_ok: "can_copy m d s bs \<Longrightarrow> memcpy_bytes m d s (length bs) = Some (over m d bs)"
proof (induction bs arbitrary: m d s)
  case Nil
  then show ?case by (simp add: memcpy_bytes.simps)
next
  case (Cons b bs)
  have c: "can_copy m d s [b]" "can_copy (over m d [b]) (d + 1) (s + 1) bs"
    using can_copy_first [of m d s "[b]" bs] can_copy_rest [of m d s "[b]" bs] Cons.prems by simp_all
  have "over (over m d [b]) (d + 1) bs = over m d (b # bs)"
    using over_append [of "[b]" bs m d] Cons.prems by (simp add: can_copy_def)
  with c Cons.IH [OF c(2)] show ?case
    by (subst memcpy_bytes.simps) (simp add: copy_byte_ok)
qed

text \<open>The tail after a chunk loop.\<close>

lemma memcpy_tail:
  assumes "can_copy m d s bs"
  shows "(memcpy_bytes4 m d s (length bs) \<bind> (\<lambda>(m, d, s, sz). memcpy_bytes m d s sz)) = Some (over m d bs)"
proof -
  from memcpy_bytes4_ok [OF assms] obtain xs ys where xy: "bs = xs @ ys"
    "memcpy_bytes4 m d s (length bs) =
      Some (over m d xs, d + of_nat (length xs), s + of_nat (length xs), length ys)" by blast
  with assms have "can_copy (over m d xs) (d + of_nat (length xs)) (s + of_nat (length xs)) ys"
    by (simp add: can_copy_rest)
  from memcpy_bytes_ok [OF this] xy assms show ?thesis
    by (simp add: over_append can_copy_def)
qed

lemma memcpy_ok:
  assumes "can_copy m d s bs" "length bs = unat szB"
  shows "vg_memcpy m d s szB = Some (over m d bs)"
proof (cases "VG_IS_4_ALIGNED d \<and> VG_IS_4_ALIGNED s")
  case False
  then show ?thesis
    using memcpy_tail [OF assms(1)] assms(2) by (auto simp: vg_memcpy_def)
next
  case True
  from memcpy_words16_ok [OF assms(1)] obtain xs ys where x: "bs = xs @ ys"
    "memcpy_words16 m d s (length bs) =
      Some (over m d xs, d + of_nat (length xs), s + of_nat (length xs), length ys)" by blast
  let ?m = "over m d xs" and ?d = "d + of_nat (length xs)" and ?s = "s + of_nat (length xs)"
  have c: "can_copy ?m ?d ?s ys" using assms(1) x(1) by (simp add: can_copy_rest)
  have ov: "over ?m ?d ys = over m d bs" using assms(1) x(1) by (simp add: over_append can_copy_def)
  from memcpy_words4_ok [OF c] obtain us vs where u: "ys = us @ vs"
    "memcpy_words4 ?m ?d ?s (length ys) =
      Some (over ?m ?d us, ?d + of_nat (length us), ?s + of_nat (length us), length vs)" by blast
  have cv: "can_copy (over ?m ?d us) (?d + of_nat (length us)) (?s + of_nat (length us)) vs"
    using c u(1) by (simp add: can_copy_rest)
  have ov': "over (over ?m ?d us) (?d + of_nat (length us)) vs = over m d bs"
    using ov c u(1) by (simp add: over_append can_copy_def)
  show ?thesis
    using True x u assms(2) memcpy_tail [OF cv] ov ov'
    by (cases ys; cases vs) (simp_all add: vg_memcpy_def Let_def)
qed

lemma over_front:
  assumes "length bs < 2 ^ 64"
  shows "(over m (a + 1) bs)(a \<mapsto> b) = over m a (b # bs)"
proof -
  have "unat (- 1 :: 64 word) = 2 ^ 64 - 1"
    by (simp add: unsigned_minus_1_eq_mask mask_eq_exp_minus_1)
  then have "\<not> unat (a - (a + 1)) < length bs" using assms by simp
  then have "(over m (a + 1) bs)(a \<mapsto> b) = over (over m a [b]) (a + 1) bs"
    by (auto simp: over_def fun_eq_iff unat_eq_0)
  then show ?thesis using over_append [of "[b]" bs m a] assms by simp
qed

lemma over_same: "holds_bytes m a bs \<Longrightarrow> over m a bs = m"
proof
  fix x
  assume h: "holds_bytes m a bs"
  have "x = a + of_nat (unat (x - a))" by simp
  with h show "over m a bs x = m x" by (metis holds_bytes_def over_def)
qed

lemma memmove_up_ok:
  assumes "holds_bytes m src bs" "mapped m dest (length bs)" "dest < src"
    "unat src + length bs \<le> 2 ^ 64" "i \<le> length bs"
  shows "memmove_up (over m dest (take i bs)) dest src i (length bs) = Some (over m dest bs)"
  using assms(5)
proof (induction "length bs - i" arbitrary: i)
  case 0
  then show ?case by (simp add: memmove_up.simps)
next
  case (Suc n)
  then have i: "i < length bs" by simp
  let ?m = "over m dest (take i bs)"
  have "unat src + i < 2 ^ 64" "unat dest < unat src" using assms(3,4) i by (simp_all add: word_less_nat_alt)
  then have "\<not> unat (src + of_nat i - dest) < i"
    by (simp add: unat_diff64 unat_add64)
  then have "?m (src + of_nat i) = Some (bs ! i)"
    using assms(1) i by (simp add: over_def holds_bytes_def)
  moreover have "?m (dest + of_nat i) \<noteq> None"
    using mapped_over [OF assms(2), of dest "take i bs"] i by (simp add: mapped_def)
  ultimately have "copy_byte ?m (dest + of_nat i) (src + of_nat i) = Some (over ?m (dest + of_nat i) [bs ! i])"
    by (simp add: copy_byte_def rd8_def wr8_def over_one)
  moreover have "over ?m (dest + of_nat i) [bs ! i] = over m dest (take (Suc i) bs)"
    using over_append [of "take i bs" "[bs ! i]" m dest] i assms(4) by (simp add: take_Suc_conv_app_nth)
  moreover have "memmove_up (over m dest (take (Suc i) bs)) dest src (Suc i) (length bs) = Some (over m dest bs)"
    using Suc by simp
  ultimately show ?case using i by (subst memmove_up.simps) simp
qed

lemma memmove_down_ok:
  assumes "holds_bytes m src bs" "mapped m dest (length bs)" "src < dest"
    "unat dest + length bs \<le> 2 ^ 64" "i \<le> length bs"
  shows "memmove_down (over m (dest + of_nat (length bs - i)) (drop (length bs - i) bs)) dest src i (length bs) =
     Some (over m dest bs)"
  using assms(5)
proof (induction "length bs - i" arbitrary: i)
  case 0
  then show ?case by (simp add: memmove_down.simps)
next
  case (Suc n)
  let ?a = "dest + of_nat (Suc n)"
  let ?m = "over m ?a (drop (Suc n) bs)"
  have i: "i < length bs" "length bs - i = Suc n" "length bs - Suc i = n" "n < length bs" using Suc by simp_all
  have lt: "unat src < unat dest" using assms(3) by (simp add: word_less_nat_alt)
  have "\<not> unat (src + of_nat n - ?a) < length bs - Suc n"
  proof (cases "length bs = Suc n")
    case False
    then have "unat dest + 1 < 2 ^ 64" using assms(4) i by linarith
    then have "unat (dest + 1) = unat dest + 1" using unat_add64 [of dest 1] by simp
    then have "unat (src - (dest + 1)) = unat src + 2 ^ 64 - (unat dest + 1)"
      using lt by (simp add: unat_diff64)
    moreover have "src + of_nat n - ?a = src - (dest + 1)" by simp
    ultimately have "unat (src + of_nat n - ?a) = unat src + 2 ^ 64 - (unat dest + 1)"
      by (simp only:)
    with assms(4) show ?thesis by linarith
  qed simp
  then have "?m (src + of_nat n) = Some (bs ! n)"
    using assms(1) i by (simp add: over_def holds_bytes_def)
  moreover have "?m (dest + of_nat n) \<noteq> None"
    using mapped_over [OF assms(2), of ?a "drop (Suc n) bs"] i(4) unfolding mapped_def by blast
  ultimately have "copy_byte ?m (dest + of_nat n) (src + of_nat n) = Some (?m(dest + of_nat n \<mapsto> bs ! n))"
    by (simp add: copy_byte_def rd8_def wr8_def)
  moreover have "?m(dest + of_nat n \<mapsto> bs ! n) = over m (dest + of_nat n) (drop n bs)"
  proof -
    have "dest + of_nat n + 1 = ?a" "length (drop (Suc n) bs) < 2 ^ 64" using assms(4) i by simp_all
    with over_front [of "drop (Suc n) bs" m "dest + of_nat n" "bs ! n"] i(4)
    show ?thesis by (simp only: Cons_nth_drop_Suc)
  qed
  moreover have "memmove_down (over m (dest + of_nat n) (drop n bs)) dest src (Suc i) (length bs) = Some (over m dest bs)"
    using Suc(1) [of "Suc i"] i by simp
  ultimately show ?case using i by (subst memmove_down.simps) simp
qed

lemma memmove_ok:
  assumes "holds_bytes m src bs" "mapped m dest (length bs)" "length bs = unat sz"
    "unat src + length bs \<le> 2 ^ 64" "unat dest + length bs \<le> 2 ^ 64"
  shows "vg_memmove m dest src sz = Some (over m dest bs)"
proof -
  consider "sz = 0" | "sz \<noteq> 0" "dest < src" | "sz \<noteq> 0" "src < dest" | "sz \<noteq> 0" "dest = src" by fastforce
  then show ?thesis
  proof cases
    case 1
    with assms(3) show ?thesis by (simp add: vg_memmove_def)
  next
    case 2
    with memmove_up_ok [OF assms(1,2) 2(2) assms(4), of 0] assms(3) show ?thesis by (simp add: vg_memmove_def)
  next
    case 3
    with memmove_down_ok [OF assms(1,2) 3(2) assms(5), of 0] assms(3) show ?thesis by (auto simp: vg_memmove_def)
  next
    case 4
    with over_same [OF assms(1)] show ?thesis by (simp add: vg_memmove_def)
  qed
qed

lemma memset_c4_bytes: "word_bytes (memset_c4 uc) = replicate 4 uc"
proof -
  define w :: "32 word" where "w = ucast uc"
  have w: "bit w j \<longleftrightarrow> j < 8 \<and> bit uc j" for j
    using bit_imp_le_length [of uc j] by (auto simp: w_def bit_ucast_iff)
  define v where "v = w OR push_bit 8 w"
  have v: "bit v j \<longleftrightarrow> bit w j \<or> (8 \<le> j \<and> j < 32 \<and> bit w (j - 8))" for j
    by (auto simp: v_def bit_or_iff bit_push_bit_iff)
  have "memset_c4 uc = v OR push_bit 16 v" by (simp only: memset_c4_def Let_def w_def v_def)
  then have c: "bit (memset_c4 uc) j \<longleftrightarrow> bit v j \<or> (16 \<le> j \<and> j < 32 \<and> bit v (j - 16))" for j
    by (auto simp: bit_or_iff bit_push_bit_iff)
  have "ucast (drop_bit (8 * i) (memset_c4 uc)) = uc" if "i \<in> {0, 1, 2, 3}" for i
  proof (rule bit_word_eqI)
    fix n assume "n < LENGTH(8)"
    then have n: "n < 8" by simp
    have "bit (ucast (drop_bit (8 * i) (memset_c4 uc)) :: 8 word) n \<longleftrightarrow> bit (memset_c4 uc) (8 * i + n)"
      using n by (simp add: bit_ucast_iff bit_drop_bit_eq)
    also have "\<dots> \<longleftrightarrow> bit uc n" using that n unfolding c v w by auto
    finally show "bit (ucast (drop_bit (8 * i) (memset_c4 uc)) :: 8 word) n \<longleftrightarrow> bit uc n" .
  qed
  note b = this
  have u: "[0..<4] = [0, 1, 2, 3::nat]" by (simp add: upt_rec)
  have r: "replicate 4 uc = [uc, uc, uc, uc]" by (simp add: eval_nat_numeral)
  show ?thesis
    unfolding word_bytes_def u r using b [of 0] b [of 1] b [of 2] b [of 3] by simp
qed

lemma over_replicate:
  "j + k \<le> 2 ^ 64 \<Longrightarrow>
   over (over m d (replicate j v)) (d + of_nat j) (replicate k v) = over m d (replicate (j + k) v)"
  using over_append [of "replicate j v" "replicate k v" m d] by (simp add: replicate_add)

definition fills :: "(mem \<Rightarrow> Addr \<Rightarrow> mem option) \<Rightarrow> nat \<Rightarrow> 8 word \<Rightarrow> bool" where
  "fills f k v \<longleftrightarrow> k \<le> 2 ^ 64 \<and> (\<forall>m d. mapped m d k \<longrightarrow> f m d = Some (over m d (replicate k v)))"

lemma fills_word: "fills (\<lambda>m d. wr_bytes m d (word_bytes (memset_c4 uc))) 4 uc"
  using wr_bytes_over [where bs = "replicate 4 uc"] by (simp add: fills_def memset_c4_bytes)

lemma fills_seq:
  assumes "fills f j v" "fills g k v" "j + k \<le> 2 ^ 64"
  shows "fills (\<lambda>m d. f m d \<bind> (\<lambda>m. g m (d + of_nat j))) (j + k) v"
proof -
  have "f m d \<bind> (\<lambda>m. g m (d + of_nat j)) = Some (over m d (replicate (j + k) v))"
    if "mapped m d (j + k)" for m d
    using that assms over_append [of "replicate j v" "replicate k v" m d]
    by (simp add: fills_def mapped_append mapped_over replicate_add)
  with assms(3) show ?thesis by (simp add: fills_def)
qed

lemma fill_loop:
  assumes eq: "\<And>m d n. loop m d n = (if n \<ge> k
      then step m d \<bind> (\<lambda>m. loop m (d + of_nat k) (n - k)) else Some (m, d, n))"
    and step: "fills step k v" and k: "k > 0"
  shows "mapped m d n \<Longrightarrow> n \<le> 2 ^ 64 \<Longrightarrow> \<exists>j r. n = j + r \<and> r < k \<and>
     loop m d n = Some (over m d (replicate j v), d + of_nat j, r)"
proof (induction n arbitrary: m d rule: less_induct)
  case (less n)
  show ?case
  proof (cases "n \<ge> k")
    case False
    then show ?thesis by (intro exI [of _ 0] exI [of _ n]) (simp add: eq)
  next
    case True
    then obtain n' where n: "n = k + n'" by (metis le_Suc_ex)
    have mp: "mapped m d k" "mapped m (d + of_nat k) n'"
      using less.prems(1) by (simp_all add: n mapped_append)
    let ?m = "over m d (replicate k v)"
    from less.IH [of n' ?m "d + of_nat k"] mp k less.prems(2) n obtain j r where jr: "n' = j + r" "r < k"
      "loop ?m (d + of_nat k) n' = Some (over ?m (d + of_nat k) (replicate j v), d + of_nat k + of_nat j, r)"
      by (auto simp: mapped_over)
    have "loop m d n = loop ?m (d + of_nat k) n'"
      using step mp(1) n by (subst eq) (simp add: fills_def)
    moreover have "over ?m (d + of_nat k) (replicate j v) = over m d (replicate (k + j) v)"
      using over_append [of "replicate k v" "replicate j v" m d] less.prems(2) n jr(1)
      by (simp add: replicate_add)
    ultimately show ?thesis using jr n by (intro exI [of _ "k + j"] exI [of _ r]) simp
  qed
qed

lemma memset_words16_ok:
  "mapped m d n \<Longrightarrow> n \<le> 2 ^ 64 \<Longrightarrow> \<exists>j r. n = j + r \<and> r < 16 \<and>
     memset_words16 m d (memset_c4 uc) n = Some (over m d (replicate j uc), d + of_nat j, r)"
proof (rule fill_loop [where step = "\<lambda>m d. wr_bytes m d (word_bytes (memset_c4 uc)) \<bind>
     (\<lambda>m. wr_bytes m (d + 4) (word_bytes (memset_c4 uc)) \<bind>
     (\<lambda>m. wr_bytes m (d + 8) (word_bytes (memset_c4 uc)) \<bind>
     (\<lambda>m. wr_bytes m (d + 12) (word_bytes (memset_c4 uc)))))"])
  show "fills (\<lambda>m d. wr_bytes m d (word_bytes (memset_c4 uc)) \<bind>
     (\<lambda>m. wr_bytes m (d + 4) (word_bytes (memset_c4 uc)) \<bind>
     (\<lambda>m. wr_bytes m (d + 8) (word_bytes (memset_c4 uc)) \<bind>
     (\<lambda>m. wr_bytes m (d + 12) (word_bytes (memset_c4 uc)))))) 16 uc"
    using fills_seq [OF fills_word fills_seq [OF fills_word fills_seq [OF fills_word fills_word]]]
    by (simp add: add.assoc)
qed (subst memset_words16.simps, simp_all)

lemma memset_words4_ok:
  "mapped m d n \<Longrightarrow> n \<le> 2 ^ 64 \<Longrightarrow> \<exists>j r. n = j + r \<and> r < 4 \<and>
     memset_words4 m d (memset_c4 uc) n = Some (over m d (replicate j uc), d + of_nat j, r)"
  by (rule fill_loop [OF _ fills_word]) (subst memset_words4.simps, simp_all)

lemma memset_bytes_ok: "mapped m d n \<Longrightarrow> n \<le> 2 ^ 64 \<Longrightarrow> memset_bytes m d c n = Some (over m d (replicate n c))"
proof (induction n arbitrary: m d)
  case 0
  then show ?case by (simp add: memset_bytes.simps)
next
  case (Suc n)
  then have mp: "mapped m d 1" "mapped m (d + 1) n"
    using mapped_append [of m d 1 n] by simp_all
  then have "wr8 m d c = Some (over m d [c])" by (simp add: wr8_def mapped_def over_one)
  with Suc mp over_append [of "[c]" "replicate n c" m d] show ?case
    by (subst memset_bytes.simps) (simp add: mapped_over)
qed

lemma memset_align_ok:
  "mapped m d n \<Longrightarrow> n \<le> 2 ^ 64 \<Longrightarrow> \<exists>j r. n = j + r \<and>
     memset_align m d uc n = Some (over m d (replicate j uc), d + of_nat j, r)"
proof (induction n arbitrary: m d)
  case 0
  then show ?case by (simp add: memset_align.simps)
next
  case (Suc n)
  show ?case
  proof (cases "VG_IS_4_ALIGNED d")
    case True
    then show ?thesis by (intro exI [of _ 0] exI [of _ "Suc n"]) (simp add: memset_align.simps)
  next
    case False
    have mp: "mapped m d 1" "mapped m (d + 1) n"
      using Suc.prems mapped_append [of m d 1 n] by simp_all
    then have w: "wr8 m d uc = Some (over m d [uc])" by (simp add: wr8_def mapped_def over_one)
    from Suc.IH [of "over m d [uc]" "d + 1"] mp Suc.prems obtain j r where jr: "n = j + r"
      "memset_align (over m d [uc]) (d + 1) uc n = Some (over (over m d [uc]) (d + 1) (replicate j uc), d + 1 + of_nat j, r)"
      by (auto simp: mapped_over)
    then show ?thesis
      using False w over_append [of "[uc]" "replicate j uc" m d] Suc.prems
      by (intro exI [of _ "Suc j"] exI [of _ r]) (subst memset_align.simps, simp add: add.assoc)
  qed
qed

lemma memset_ok:
  assumes "mapped m d (unat szB)"
  shows "vg_memset m d c szB = Some (over m d (replicate (unat szB) (ucast c)))"
proof -
  let ?uc = "ucast c :: 8 word"
  have le: "unat szB \<le> 2 ^ 64" using unat64_less [of szB] by simp
  from memset_align_ok [OF assms le, of ?uc] obtain j r where a: "unat szB = j + r"
    "memset_align m d ?uc (unat szB) = Some (over m d (replicate j ?uc), d + of_nat j, r)" by blast
  let ?m = "over m d (replicate j ?uc)" and ?d = "d + of_nat j"
  have mr: "mapped ?m ?d r" "r \<le> 2 ^ 64" using assms le by (simp_all add: a(1) mapped_append mapped_over)
  from memset_words16_ok [OF mr, of ?uc] obtain j2 r2 where b: "r = j2 + r2"
    "memset_words16 ?m ?d (memset_c4 ?uc) r = Some (over ?m ?d (replicate j2 ?uc), ?d + of_nat j2, r2)" by blast
  let ?m2 = "over ?m ?d (replicate j2 ?uc)" and ?d2 = "?d + of_nat j2"
  have mr2: "mapped ?m2 ?d2 r2" "r2 \<le> 2 ^ 64" using mr by (simp_all add: b(1) mapped_append mapped_over)
  from memset_words4_ok [OF mr2, of ?uc] obtain j3 r3 where e: "r2 = j3 + r3"
    "memset_words4 ?m2 ?d2 (memset_c4 ?uc) r2 = Some (over ?m2 ?d2 (replicate j3 ?uc), ?d2 + of_nat j3, r3)" by blast
  let ?m3 = "over ?m2 ?d2 (replicate j3 ?uc)" and ?d3 = "?d2 + of_nat j3"
  have mr3: "mapped ?m3 ?d3 r3" "r3 \<le> 2 ^ 64" using mr2 by (simp_all add: e(1) mapped_append mapped_over)
  have "over ?m3 ?d3 (replicate r3 ?uc) = over m d (replicate (unat szB) ?uc)"
    using le over_replicate [of j j2 m d ?uc] over_replicate [of "j + j2" j3 m d ?uc]
      over_replicate [of "j + j2 + j3" r3 m d ?uc]
    by (simp add: a(1) b(1) e(1) add.assoc)
  with a b e memset_bytes_ok [OF mr3, of ?uc] show ?thesis
    
    by (cases "r = 0") (simp_all add: vg_memset_def Let_def)
qed
section \<open>Strings in memory\<close>

definition cstr_at :: "mem \<Rightarrow> Addr \<Rightarrow> 8 word list \<Rightarrow> bool" where
  "cstr_at m a cs \<longleftrightarrow> holds_bytes m a (cs @ [0]) \<and> 0 \<notin> set cs"

lemma holds_Cons: "holds_bytes m a (b # bs) \<longleftrightarrow> m a = Some b \<and> holds_bytes m (a + 1) bs"
  using holds_append [of m a "[b]" bs] by (simp add: holds_bytes_def)

lemma cstr_at_Nil: "cstr_at m a [] \<longleftrightarrow> m a = Some 0"
  by (simp add: cstr_at_def holds_bytes_def)

lemma cstr_at_Cons: "cstr_at m a (c # cs) \<longleftrightarrow> m a = Some c \<and> c \<noteq> 0 \<and> cstr_at m (a + 1) cs"
  by (auto simp: cstr_at_def holds_Cons)

lemma cstr_at_drop: "cstr_at m a (xs @ ys) \<Longrightarrow> cstr_at m (a + of_nat (length xs)) ys"
  by (simp add: cstr_at_def holds_append)

lemma cstr_at_over_apart:
  "cstr_at m a cs \<Longrightarrow> apart a (length cs + 1) d (length bs) \<Longrightarrow> length bs \<le> 2 ^ 64 \<Longrightarrow>
   cstr_at (over m d bs) a cs"
  by (simp add: cstr_at_def holds_over_apart)

lemma str_end_ok: "cstr_at m a cs \<Longrightarrow> str_end m a = Some (a + of_nat (length cs))"
proof (induction cs arbitrary: a)
  case Nil
  then show ?case by (subst str_end.simps) (simp add: cstr_at_Nil rd8_def)
next
  case (Cons c cs)
  then show ?case by (subst str_end.simps) (simp add: cstr_at_Cons rd8_def add.assoc)
qed

text \<open>One step of a copying loop, and what is left for the rest of it.\<close>

lemma copy_step:
  assumes "can_copy m d s (c # cs)"
  shows "m s = Some c" "wr8 m d c = Some (over m d [c])"
    "can_copy (over m d [c]) (d + 1) (s + 1) cs"
    "over (over m d [c]) (d + 1) cs = over m d (c # cs)"
  using assms can_copy_rest [of m d s "[c]" cs] over_append [of "[c]" cs m d]
    can_copy_first [of m d s "[c]" cs]
  by (simp_all add: can_copy_def holds_bytes_def mapped_def wr8_def over_one)

lemma str_copy_ok:
  "can_copy m d s (cs @ [0]) \<Longrightarrow> 0 \<notin> set cs \<Longrightarrow>
   str_copy m d s = Some (over m d cs, d + of_nat (length cs))"
proof (induction cs arbitrary: m d s)
  case Nil
  then show ?case
    using copy_step(1) [of m d s 0 "[]"] by (subst str_copy.simps) (simp add: rd8_def)
next
  case (Cons c cs)
  note st = copy_step [OF Cons.prems(1) [simplified]]
  have "over (over m d [c]) (d + 1) cs = over m d (c # cs)"
    using over_append [of "[c]" cs m d] Cons.prems by (simp add: can_copy_def)
  with Cons.IH [OF st(3)] Cons.prems st show ?case
    by (subst str_copy.simps) (simp add: rd8_def add.assoc)
qed

lemma can_copy_wr0:
  assumes "can_copy m d s (cs @ [b])"
  shows "wr8 (over m d cs) (d + of_nat (length cs)) c = Some (over m d (cs @ [c]))"
  using can_copy_rest [OF assms] over_append [of cs "[c]" m d] assms
  by (simp add: can_copy_def mapped_def wr8_def over_one)

lemma strcpy_ok:
  assumes "can_copy m d s (cs @ [0])" "0 \<notin> set cs"
  shows "vg_strcpy m d s = Some (over m d (cs @ [0]), d)"
  using str_copy_ok [OF assms] can_copy_wr0 [OF assms(1)] by (simp add: vg_strcpy_def)

lemma strcat_ok:
  assumes "cstr_at m d ds" "can_copy m (d + of_nat (length ds)) s (cs @ [0])" "0 \<notin> set cs"
  shows "vg_strcat m d s = Some (over m (d + of_nat (length ds)) (cs @ [0]), d)"
  using str_end_ok [OF assms(1)] str_copy_ok [OF assms(2,3)] can_copy_wr0 [OF assms(2)]
  by (simp add: vg_strcat_def)

lemma apart_Suc:
  assumes "apart s (Suc n) d (Suc k)"
  shows "apart (s + 1) n d 1" "apart (s + 1) n (d + 1) k"
proof -
  have "apart s (1 + n) d (1 + k)" using assms by simp
  then have "apart (s + of_nat 1) n d 1 \<and> apart (s + of_nat 1) n (d + of_nat 1) k"
    unfolding apart_def all_less_add add_of_nat by blast
  then show "apart (s + 1) n d 1" "apart (s + 1) n (d + 1) k" by simp_all
qed

lemma strlcpy_loop_ok:
  "can_copy m d s xs \<Longrightarrow> cstr_at m s (xs @ ys) \<Longrightarrow> apart s (length (xs @ ys) + 1) d (length xs) \<Longrightarrow>
   length xs = k \<or> (ys = [] \<and> length xs \<le> k) \<Longrightarrow>
   strlcpy_loop m d s k = Some (over m d xs, d + of_nat (length xs), s + of_nat (length xs))"
proof (induction xs arbitrary: m d s k)
  case Nil
  then show ?case by (subst strlcpy_loop.simps) (auto simp: cstr_at_Nil rd8_def)
next
  case (Cons c cs)
  note st = copy_step [OF Cons.prems(1)]
  from Cons.prems(4) obtain k' where k: "k = Suc k'" by (cases k) auto
  have a: "apart (s + 1) (length (cs @ ys) + 1) d 1"
    "apart (s + 1) (length (cs @ ys) + 1) (d + 1) (length cs)"
    using apart_Suc [of s "length (cs @ ys) + 1" d "length cs"] Cons.prems(3) by simp_all
  have "cstr_at (over m d [c]) (s + 1) (cs @ ys)"
    using Cons.prems(2) a by (simp add: cstr_at_Cons cstr_at_over_apart)
  from Cons.IH [OF st(3) this a(2), of k'] st Cons.prems(2,4) k show ?case
    by (subst strlcpy_loop.simps) (simp add: rd8_def cstr_at_Cons add.assoc)
qed

lemma apart_mono: "apart s n d k \<Longrightarrow> n' \<le> n \<Longrightarrow> k' \<le> k \<Longrightarrow> apart s n' d k'"
  unfolding apart_def by (meson less_le_trans)

lemma strlcpy_ok:
  assumes "cstr_at m s cs" "mapped m d (unat n)" "n > 0"
    "apart s (length cs + 1) d (unat n)" "length cs < 2 ^ 64"
  shows "vg_strlcpy m d s n = Some (over m d (take (unat n - 1) cs @ [0]), of_nat (length cs))"
proof -
  define k where "k = unat n - 1"
  have k: "unat n = k + 1" "unat (n - 1) = k"
    using assms(3) by (simp_all add: k_def word_gt_0 unat_eq_0 unat_minus_one unat_gt_0)
  define xs where "xs = take k cs"
  have cs: "cs = xs @ drop k cs" and xl: "length xs \<le> k" by (simp_all add: xs_def)
  have hs: "holds_bytes m s xs" using assms(1) by (subst (asm) cs) (simp add: cstr_at_def holds_append)
  have cc: "can_copy m d s xs"
    using assms(2,5) hs k(1) xl apart_mono [OF assms(4), of "length xs" "length xs"]
      mapped_append [of m d "length xs" "k + 1 - length xs"]
    by (simp add: can_copy_def xs_def)
  have ap: "apart s (length cs + 1) d (length xs)" using apart_mono [OF assms(4)] k(1) xl by simp
  have "strlcpy_loop m d s k = Some (over m d xs, d + of_nat (length xs), s + of_nat (length xs))"
    using assms(1) ap cs by (intro strlcpy_loop_ok [OF cc, of "drop k cs"]) (auto simp: xs_def)
  moreover have "wr8 (over m d xs) (d + of_nat (length xs)) 0 = Some (over m d (xs @ [0]))"
    using assms(2) xl k(1) over_append [of xs "[0]" m d] mapped_over [OF assms(2), of d xs] unat64_less [of n]
    by (simp add: wr8_def over_one mapped_def)
  moreover have "cstr_at (over m d (xs @ [0])) s cs"
    using assms(1) apart_mono [OF assms(4), of "length cs + 1" "length (xs @ [0])"] xl k(1) unat64_less [of n]
    by (intro cstr_at_over_apart) simp_all
  then have "str_end (over m d (xs @ [0])) (s + of_nat (length xs)) = Some (s + of_nat (length cs))"
    using cstr_at_drop [of _ s xs "drop k cs"] cs str_end_ok add_of_nat [of s "length xs" "length (drop k cs)"]
    by (metis length_append)
  ultimately show ?thesis using assms(3) k by (simp add: vg_strlcpy_def xs_def)
qed

text \<open>With a size of zero the limit \<^verbatim>\<open>n - 1\<close> wraps around, and the whole string is written.\<close>

lemma strlcpy_0:
  assumes "cstr_at m s cs" "mapped m d (length cs)" "apart s (length cs + 1) d (length cs)" "length cs < 2 ^ 64"
  shows "vg_strlcpy m d s 0 = Some (over m d cs, of_nat (length cs))"
proof -
  have k: "unat (0 - 1 :: 64 word) = 2 ^ 64 - 1"
    by (simp add: unsigned_minus_1_eq_mask mask_eq_exp_minus_1)
  have cc: "can_copy m d s cs"
    using assms apart_mono [OF assms(3), of "length cs" "length cs"]
    by (simp add: can_copy_def cstr_at_def holds_append)
  have "strlcpy_loop m d s (unat (0 - 1 :: 64 word)) =
      Some (over m d cs, d + of_nat (length cs), s + of_nat (length cs))"
    using assms k by (intro strlcpy_loop_ok [OF cc, of "[]"]) auto
  moreover have "cstr_at (over m d cs) s cs" using assms by (intro cstr_at_over_apart) simp_all
  then have "str_end (over m d cs) (s + of_nat (length cs)) = Some (s + of_nat (length cs))"
    using cstr_at_drop [of _ s cs "[]"] str_end_ok [of _ _ "[]"] by simp
  ultimately show ?thesis by (simp add: vg_strlcpy_def)
qed

section \<open>Comparison\<close>

lemma memcmp_loop_ok:
  "holds_bytes m p xs \<Longrightarrow> holds_bytes m q ys \<Longrightarrow> length xs = length ys \<Longrightarrow>
   \<exists>r. vg_memcmp_loop m p q (length xs) = Some r \<and> (r = 0 \<longleftrightarrow> xs = ys) \<and> (r < 0 \<longleftrightarrow> ord_class.lexordp xs ys)"
proof (induction xs arbitrary: p q ys)
  case (Cons x xs)
  from Cons.prems(3) obtain y zs where y: "ys = y # zs" by (cases ys) auto
  with Cons.IH [of "p + 1" "q + 1" zs] Cons.prems show ?case
    by (cases "x = y") (auto simp: holds_Cons rd8_def word_less_iff_unsigned [where 'a = int] Let_def
        word_uint_eq_iff [of x y])
qed simp

lemma memcmp_ok:
  "holds_bytes m p xs \<Longrightarrow> holds_bytes m q ys \<Longrightarrow> length xs = unat n \<Longrightarrow> length ys = unat n \<Longrightarrow>
   \<exists>r. vg_memcmp m p q n = Some r \<and> (r = 0 \<longleftrightarrow> xs = ys) \<and> (r < 0 \<longleftrightarrow> ord_class.lexordp xs ys)"
  using memcmp_loop_ok [of m p xs q ys] by (simp add: vg_memcmp_def)

section \<open>Properties\<close>

text \<open>The contract of a write: the bytes are there, and nothing else has changed.\<close>

definition wrote :: "mem \<Rightarrow> Addr \<Rightarrow> 8 word list \<Rightarrow> mem \<Rightarrow> bool" where
  "wrote m a bs m' \<longleftrightarrow> holds_bytes m' a bs \<and> (\<forall>x. \<not> unat (x - a) < length bs \<longrightarrow> m' x = m x)"

lemma wrote_over: "length bs \<le> 2 ^ 64 \<Longrightarrow> wrote m a bs (over m a bs)"
  by (simp add: wrote_def holds_over over_outside)

text \<open>A memory where every address is mapped and holds its own low byte.\<close>

definition sample_mem :: mem where
  "sample_mem a = Some (ucast a)"

lemma all_less_2: "(\<forall>i<2. P i) \<longleftrightarrow> P 0 \<and> P (Suc 0)"
  by (auto simp: numeral_2_eq_2 All_less_Suc)

lemma sample_mapped [simp]: "mapped sample_mem a n"
  by (simp add: mapped_def sample_mem_def)

text \<open>
  C34. \<^verbatim>\<open>VG_(memcpy)\<close> on regions that do not overlap: whatever the alignment and the size, the
  word loops and the byte loops together write exactly the bytes of the source, and nothing else.
\<close>

theorem memcpy_correct:
  assumes "holds_bytes m src bs" "mapped m dest (length bs)" "length bs = unat szB"
    "apart src (length bs) dest (length bs)"
  shows "\<exists>m'. vg_memcpy m dest src szB = Some m' \<and> wrote m dest bs m'"
  using memcpy_ok [of m dest src bs szB] assms wrote_over [of bs] unat64_less [of szB]
  by (simp add: can_copy_def)

theorem memcpy_correct_witness:
  "\<exists>m'. vg_memcpy sample_mem 4 8 3 = Some m' \<and> wrote sample_mem 4 [8, 9, 10] m'"
  by (rule memcpy_correct) (simp_all add: holds_bytes_def sample_mem_def apart_def All_less_Suc)

text \<open>
  C33. \<^verbatim>\<open>VG_(memmove)\<close> copies regions that overlap in either direction: the destination ends up
  with the bytes the source had before the call, and nothing else changes.
\<close>

theorem memmove_correct:
  assumes "holds_bytes m src bs" "mapped m dest (length bs)" "length bs = unat sz"
    "unat src + length bs \<le> 2 ^ 64" "unat dest + length bs \<le> 2 ^ 64"
  shows "\<exists>m'. vg_memmove m dest src sz = Some m' \<and> wrote m dest bs m'"
  using memmove_ok [OF assms] assms(4) wrote_over [of bs] by simp

theorem memmove_correct_witness:
  "\<exists>m'. vg_memmove sample_mem 9 8 3 = Some m' \<and> wrote sample_mem 9 [8, 9, 10] m'"
  by (rule memmove_correct) (simp_all add: holds_bytes_def sample_mem_def All_less_Suc)

text \<open>
  C35. \<^verbatim>\<open>VG_(memset)\<close> writes the low byte of its argument to every place of the region, through
  the alignment loop, the word loops and the byte loop, and nothing else.
\<close>

theorem memset_correct:
  assumes "mapped m d (unat szB)"
  shows "\<exists>m'. vg_memset m d c szB = Some m' \<and> wrote m d (replicate (unat szB) (ucast c)) m'"
  using memset_ok [OF assms] wrote_over [of "replicate (unat szB) (ucast c)"] unat64_less [of szB]
  by simp

theorem memset_correct_witness:
  "\<exists>m'. vg_memset sample_mem 3 257 30 = Some m' \<and> wrote sample_mem 3 (replicate (unat (30 :: SizeT)) (ucast (257 :: 32 word))) m'"
  by (rule memset_correct) simp

text \<open>
  C36. \<^verbatim>\<open>VG_(strlcpy)\<close> with a size above zero: the destination gets the longest prefix that fits
  and a terminator, nothing else changes, and the answer is the length of the source.
\<close>

theorem strlcpy_contract:
  assumes "cstr_at m src cs" "mapped m dst (unat n)" "n > 0"
    "apart src (length cs + 1) dst (unat n)" "length cs < 2 ^ 64"
  shows "\<exists>m'. vg_strlcpy m dst src n = Some (m', of_nat (length cs)) \<and>
     wrote m dst (take (unat n - 1) cs @ [0]) m'"
  using strlcpy_ok [OF assms] assms(5) wrote_over [of "take (unat n - 1) cs @ [0]"]
  by simp

theorem strlcpy_contract_witness:
  "\<exists>m'. vg_strlcpy sample_mem 8 254 2 = Some (m', of_nat (length [254, 255 :: 8 word])) \<and>
     wrote sample_mem 8 (take (unat (2 :: SizeT) - 1) [254, 255] @ [0]) m'"
  by (rule strlcpy_contract)
    (simp_all add: cstr_at_def holds_bytes_def sample_mem_def apart_def all_less_2 All_less_Suc)

text \<open>
  C37. \<^verbatim>\<open>VG_(strlcpy)\<close> with a size of zero does not leave the destination alone: the limit
  \<^verbatim>\<open>n - 1\<close> wraps around, and the whole source is written, without a terminator.
\<close>

theorem strlcpy_size_zero_overruns:
  assumes "cstr_at m src cs" "mapped m dst (length cs)" "apart src (length cs + 1) dst (length cs)"
    "length cs < 2 ^ 64"
  shows "\<exists>m'. vg_strlcpy m dst src 0 = Some (m', of_nat (length cs)) \<and> wrote m dst cs m'"
  using strlcpy_0 [OF assms] assms(4) wrote_over [of cs] by simp

theorem strlcpy_size_zero_overruns_witness:
  "\<exists>m'. vg_strlcpy sample_mem 8 254 0 = Some (m', of_nat (length [254, 255 :: 8 word])) \<and>
     wrote sample_mem 8 [254, 255] m'"
  by (rule strlcpy_size_zero_overruns)
    (simp_all add: cstr_at_def holds_bytes_def sample_mem_def apart_def all_less_2 All_less_Suc)

end
