(* ===== verification/Vg_Chain.thy ===== *)
theory Vg_Chain
  imports Ml_Prelude
begin

text \<open>
  Singly linked chains on an explicit node store, and tables of them. The hash tables of
  \<^verbatim>\<open>coregrind/m_hashtable.c\<close> and \<^verbatim>\<open>coregrind/m_execontext.c\<close> keep their elements this way, and
  their resizing loops are the same loop on different nodes; \<open>nx\<close> and \<open>set_nx\<close> read and write the
  link of a node.
\<close>

section \<open>Chains\<close>

fun chain :: "('a \<Rightarrow> ptr) \<Rightarrow> (nat \<rightharpoonup> 'a) \<Rightarrow> ptr \<Rightarrow> nat list \<Rightarrow> bool" where
  "chain nx h p [] \<longleftrightarrow> p = None"
| "chain nx h p (a # as) \<longleftrightarrow> p = Some a \<and> (\<exists>n. h a = Some n \<and> chain nx h (nx n) as)"

text \<open>\<open>seg nx h p xs q\<close>: the nodes \<open>xs\<close> lead from \<open>p\<close> to \<open>q\<close>.\<close>

fun seg :: "('a \<Rightarrow> ptr) \<Rightarrow> (nat \<rightharpoonup> 'a) \<Rightarrow> ptr \<Rightarrow> nat list \<Rightarrow> ptr \<Rightarrow> bool" where
  "seg nx h p [] q \<longleftrightarrow> p = q"
| "seg nx h p (a # as) q \<longleftrightarrow> p = Some a \<and> (\<exists>n. h a = Some n \<and> seg nx h (nx n) as q)"

lemma chain_append: "chain nx h p (xs @ ys) \<longleftrightarrow> (\<exists>q. seg nx h p xs q \<and> chain nx h q ys)"
  by (induction xs arbitrary: p) auto

lemma seg_append: "seg nx h p (xs @ ys) q \<longleftrightarrow> (\<exists>r. seg nx h p xs r \<and> seg nx h r ys q)"
  by (induction xs arbitrary: p) auto

lemma chain_upd [simp]: "a \<notin> set xs \<Longrightarrow> chain nx (h(a := n)) p xs = chain nx h p xs"
  by (induction xs arbitrary: p) auto

lemma seg_upd [simp]: "a \<notin> set xs \<Longrightarrow> seg nx (h(a := n)) p xs q = seg nx h p xs q"
  by (induction xs arbitrary: p) auto

lemma chain_Some: "chain nx h (Some a) xs \<longleftrightarrow>
    (\<exists>ys n. xs = a # ys \<and> h a = Some n \<and> chain nx h (nx n) ys)"
  by (cases xs) auto

lemma chain_None [simp]: "chain nx h None xs \<longleftrightarrow> xs = []"
  by (cases xs) auto

lemma chain_alloc: "chain nx h p xs \<Longrightarrow> a \<in> set xs \<Longrightarrow> \<exists>n. h a = Some n"
  by (induction xs arbitrary: p) auto

lemma chain_unique: "chain nx h p xs \<Longrightarrow> chain nx h p ys \<Longrightarrow> xs = ys"
proof (induction xs arbitrary: p ys)
  case (Cons a xs)
  then show ?case by (cases ys) auto
qed auto

section \<open>Tables\<close>

definition chains :: "('a \<Rightarrow> ptr) \<Rightarrow> (nat \<rightharpoonup> 'a) \<Rightarrow> ptr list \<Rightarrow> nat list list \<Rightarrow> bool" where
  "chains nx h tab cs \<longleftrightarrow> list_all2 (chain nx h) tab cs \<and> distinct (concat cs)"

lemma chains_nth: "chains nx h tab cs \<Longrightarrow> i < length tab \<Longrightarrow> chain nx h (tab ! i) (cs ! i)"
  by (simp add: chains_def list_all2_conv_all_nth)

lemma chains_length: "chains nx h tab cs \<Longrightarrow> length cs = length tab"
  by (simp add: chains_def list_all2_conv_all_nth)

lemma chains_empty: "chains nx h (replicate n None) (replicate n [])"
  by (simp add: chains_def list_all2_conv_all_nth)

lemma in_concat_nth: "a \<in> set (concat cs) \<longleftrightarrow> (\<exists>j<length cs. a \<in> set (cs ! j))"
  unfolding set_concat by (metis UN_iff in_set_conv_nth)

lemma concat_split:
  assumes "i < length cs"
  shows "concat cs = concat (take i cs) @ cs ! i @ concat (drop (Suc i) cs)"
  using assms by (metis concat.simps(2) concat_append id_take_nth_drop)

lemma concat_upd:
  assumes "i < length cs"
  shows "concat (cs[i := xs]) = concat (take i cs) @ xs @ concat (drop (Suc i) cs)"
  using assms by (simp add: upd_conv_take_nth_drop)

lemma set_concat_upd:
  assumes "i < length cs" "distinct (concat cs)"
  shows "set (concat (cs[i := xs])) = (set (concat cs) - set (cs ! i)) \<union> set xs"
  using assms concat_split [OF assms(1)] concat_upd [OF assms(1), of xs] by auto

lemma nth_before:
  assumes "distinct (concat cs)" "i < j" "j < length cs" "a \<in> set (cs ! i)"
  shows "a \<notin> set (cs ! j)"
proof -
  have "cs ! i \<in> set (take j cs)" using assms(2,3) by (auto simp: in_set_conv_nth)
  with assms(4) have "a \<in> set (concat (take j cs))" by auto
  with assms(1) concat_split [OF assms(3)] show ?thesis by auto
qed

lemma not_in_other:
  "distinct (concat cs) \<Longrightarrow> i < length cs \<Longrightarrow> j < length cs \<Longrightarrow> i \<noteq> j \<Longrightarrow> a \<in> set (cs ! i) \<Longrightarrow>
   a \<notin> set (cs ! j)"
  using nth_before [of cs i j a] nth_before [of cs j i a] by (cases "i < j") auto

text \<open>Replacing one chain, with a change of the store that only this chain sees.\<close>

lemma chains_upd:
  assumes "chains nx h tab cs" "i < length tab" "chain nx h' p xs" "distinct xs"
    "set xs \<inter> set (concat cs) \<subseteq> set (cs ! i)"
    "\<And>a. a \<in> set (concat cs) - set (cs ! i) \<Longrightarrow> h' a = h a"
  shows "chains nx h' (tab[i := p]) (cs[i := xs])"
proof -
  have l: "length cs = length tab" and d: "distinct (concat cs)"
    using assms(1) by (simp_all add: chains_def list_all2_conv_all_nth)
  have cong: "chain nx h' q ys = chain nx h q ys" if "\<forall>a\<in>set ys. h' a = h a" for q ys
    using that by (induction ys arbitrary: q) auto
  have "chain nx h' (tab ! j) (cs ! j)" if j: "j < length tab" "j \<noteq> i" for j
  proof -
    have "h' a = h a" if a: "a \<in> set (cs ! j)" for a
    proof (rule assms(6))
      have "cs ! j \<in> set cs" using j(1) l by simp
      with a have "a \<in> set (concat cs)" unfolding set_concat by blast
      moreover have "a \<notin> set (cs ! i)"
        using not_in_other [OF d, of j i a] a assms(2) j l by simp
      ultimately show "a \<in> set (concat cs) - set (cs ! i)" by simp
    qed
    then show ?thesis using cong [of "cs ! j"] chains_nth [OF assms(1) j(1)] by blast
  qed
  moreover have "distinct (concat (cs[i := xs]))"
  proof -
    have "distinct (concat (take i cs) @ cs ! i @ concat (drop (Suc i) cs))"
      using d concat_split [of i cs] assms(2) l by simp
    moreover have "set xs \<inter> (set (concat (take i cs)) \<union> set (concat (drop (Suc i) cs))) \<subseteq> set (cs ! i)"
      using assms(5) concat_split [of i cs] assms(2) l by auto
    ultimately show ?thesis
      using assms(2,4) l by (simp add: concat_upd) blast
  qed
  ultimately show ?thesis
    using assms(2,3) l unfolding chains_def list_all2_conv_all_nth
    by (simp add: nth_list_update)
qed

section \<open>Rehashing\<close>

text \<open>
  The loops that move every node to a new table: the inner one takes the nodes of one chain
  and puts each in front of its new chain, the outer one goes over the old chains.
\<close>

partial_function (option) rehash_chain ::
  "('a \<Rightarrow> ptr) \<Rightarrow> (ptr \<Rightarrow> 'a \<Rightarrow> 'a) \<Rightarrow> ('a \<Rightarrow> nat) \<Rightarrow> (nat \<rightharpoonup> 'a) \<Rightarrow> ptr list \<Rightarrow> ptr \<Rightarrow>
   ((nat \<rightharpoonup> 'a) \<times> ptr list) option" where
  "rehash_chain nx set_nx hash h tab cur =
     (case cur of
        None \<Rightarrow> Some (h, tab)
      | Some a \<Rightarrow> do {
          n \<leftarrow> h a;
          let next = nx n;
          let c = hash n;
          if c < length tab
          then rehash_chain nx set_nx hash (h(a \<mapsto> set_nx (tab ! c) n)) (tab[c := cur]) next
          else None
        })"

fun rehash_table ::
  "('a \<Rightarrow> ptr) \<Rightarrow> (ptr \<Rightarrow> 'a \<Rightarrow> 'a) \<Rightarrow> ('a \<Rightarrow> nat) \<Rightarrow> (nat \<rightharpoonup> 'a) \<Rightarrow> ptr list \<Rightarrow> ptr list \<Rightarrow>
   ((nat \<rightharpoonup> 'a) \<times> ptr list) option" where
  "rehash_table nx set_nx hash h tab [] = Some (h, tab)"
| "rehash_table nx set_nx hash h tab (p # ps) = do {
     (h, tab) \<leftarrow> rehash_chain nx set_nx hash h tab p;
     rehash_table nx set_nx hash h tab ps
   }"

declare rehash_chain.simps [code]

text \<open>The interface of a node with a link.\<close>

locale linked_node =
  fixes nx :: "'a \<Rightarrow> ptr"
    and set_nx :: "ptr \<Rightarrow> 'a \<Rightarrow> 'a"
  assumes nx_set: "nx (set_nx p n) = p"
    and set_set: "set_nx p (set_nx q n) = set_nx p n"
    and set_get: "set_nx (nx n) n = n"
begin

text \<open>Two stores with the same nodes up to the links.\<close>

definition same_nodes :: "(nat \<rightharpoonup> 'a) \<Rightarrow> (nat \<rightharpoonup> 'a) \<Rightarrow> bool" where
  "same_nodes h h' \<longleftrightarrow> (\<forall>a. rel_option (\<lambda>n n'. \<exists>p. n' = set_nx p n) (h a) (h' a))"

lemma link_refl: "rel_option (\<lambda>n n'. \<exists>p. n' = set_nx p n) x x"
proof (cases x)
  case (Some n)
  have "n = set_nx (nx n) n" by (simp add: set_get)
  then have "\<exists>p. n = set_nx p n" by (rule exI)
  with Some show ?thesis by simp
qed simp

lemma same_refl: "same_nodes h h"
  by (simp add: same_nodes_def link_refl)

lemma same_trans:
  assumes "same_nodes h h'" "same_nodes h' h''"
  shows "same_nodes h h''"
  unfolding same_nodes_def
proof
  fix a
  have "rel_option (\<lambda>n n'. \<exists>p. n' = set_nx p n) (h a) (h' a)"
    "rel_option (\<lambda>n n'. \<exists>p. n' = set_nx p n) (h' a) (h'' a)"
    using assms by (simp_all add: same_nodes_def)
  then show "rel_option (\<lambda>n n'. \<exists>p. n' = set_nx p n) (h a) (h'' a)"
    by (cases "h a"; cases "h' a"; cases "h'' a") (auto simp: set_set)
qed

lemma same_upd:
  assumes "same_nodes h h'" "h' a = Some n"
  shows "same_nodes h (h'(a \<mapsto> set_nx p n))"
proof (rule same_trans [OF assms(1)])
  show "same_nodes h' (h'(a \<mapsto> set_nx p n))"
    using assms(2) by (auto simp: same_nodes_def link_refl)
qed

lemma same_get:
  assumes "same_nodes h h'" "h a = Some n"
  shows "\<exists>p. h' a = Some (set_nx p n)"
proof -
  have "rel_option (\<lambda>n n'. \<exists>p. n' = set_nx p n) (h a) (h' a)"
    using assms(1) by (simp add: same_nodes_def)
  with assms(2) show ?thesis by (auto simp: option_rel_Some1)
qed

lemma same_None:
  assumes "same_nodes h h'"
  shows "h' a = None \<longleftrightarrow> h a = None"
proof -
  have "rel_option (\<lambda>n n'. \<exists>p. n' = set_nx p n) (h a) (h' a)"
    using assms by (simp add: same_nodes_def)
  then show ?thesis by (cases "h a"; cases "h' a") simp_all
qed

lemma same_dom: "same_nodes h h' \<Longrightarrow> dom h' = dom h"
  using same_None by (auto simp: dom_def)

text \<open>What the loop keeps: the nodes, the place of each by its hash, and which nodes there are.\<close>

end

locale hashed_node = linked_node +
  fixes hash :: "nat \<Rightarrow> 'a \<Rightarrow> nat"
  assumes hash_set: "hash m (set_nx p n) = hash m n"
    and hash_less: "m > 0 \<Longrightarrow> hash m n < m"
begin

text \<open>Every node is in the chain of its hash.\<close>

definition placed :: "(nat \<rightharpoonup> 'a) \<Rightarrow> nat list list \<Rightarrow> bool" where
  "placed h cs \<longleftrightarrow> (\<forall>i<length cs. \<forall>a\<in>set (cs ! i). \<exists>n. h a = Some n \<and> hash (length cs) n = i)"

lemma placed_same:
  assumes "placed h cs" "same_nodes h h'"
  shows "placed h' cs"
  unfolding placed_def
proof (intro allI impI ballI)
  fix i a
  assume "i < length cs" "a \<in> set (cs ! i)"
  then obtain n where n: "h a = Some n" "hash (length cs) n = i"
    using assms(1) by (auto simp: placed_def)
  from same_get [OF assms(2) n(1)] n(2) show "\<exists>n. h' a = Some n \<and> hash (length cs) n = i"
    by (auto simp: hash_set)
qed

lemma placed_push:
  assumes "placed h cs" "h a = Some n" "c = hash (length cs) n"
  shows "placed h (cs[c := a # cs ! c])"
  unfolding placed_def
proof (intro allI impI ballI)
  fix i b
  assume i: "i < length (cs[c := a # cs ! c])" "b \<in> set (cs[c := a # cs ! c] ! i)"
  show "\<exists>n. h b = Some n \<and> hash (length (cs[c := a # cs ! c])) n = i"
  proof (cases "i = c \<and> b = a")
    case True
    with assms(2,3) show ?thesis by simp
  next
    case False
    with i have "b \<in> set (cs ! i)" by (cases "i = c") auto
    with assms(1) i show ?thesis by (simp add: placed_def)
  qed
qed

text \<open>A node that is on no chain is put in front of the chain of its hash.\<close>

lemma push_ok:
  assumes "chains nx h tab cs" "placed h cs" "h a = Some n" "a \<notin> set (concat cs)"
    "c = hash (length tab) n" "tab \<noteq> []"
  shows "chains nx (h(a \<mapsto> set_nx (tab ! c) n)) (tab[c := Some a]) (cs[c := a # cs ! c])"
    "placed (h(a \<mapsto> set_nx (tab ! c) n)) (cs[c := a # cs ! c])"
    "set (concat (cs[c := a # cs ! c])) = insert a (set (concat cs))"
proof -
  have l: "length cs = length tab" using assms(1) by (rule chains_length)
  have c: "c < length tab" using assms(5,6) hash_less by simp
  have d: "distinct (concat cs)" using assms(1) by (simp add: chains_def)
  have dc: "distinct (cs ! c)" and nc: "a \<notin> set (cs ! c)" and sc: "set (cs ! c) \<subseteq> set (concat cs)"
    using d assms(4) concat_split [of c cs] c l by auto
  show "set (concat (cs[c := a # cs ! c])) = insert a (set (concat cs))"
    using set_concat_upd [OF _ d, of c "a # cs ! c"] c l sc by auto
  have "chain nx (h(a \<mapsto> set_nx (tab ! c) n)) (Some a) (a # cs ! c)"
    using chains_nth [OF assms(1) c] nc by (simp add: nx_set)
  then show "chains nx (h(a \<mapsto> set_nx (tab ! c) n)) (tab[c := Some a]) (cs[c := a # cs ! c])"
    using assms(4) dc nc c by (intro chains_upd [OF assms(1) c]) auto
  have "same_nodes h (h(a \<mapsto> set_nx (tab ! c) n))"
    by (rule same_upd [where n = n]) (simp_all add: same_refl assms(3))
  from placed_same [OF assms(2) this] l
  show "placed (h(a \<mapsto> set_nx (tab ! c) n)) (cs[c := a # cs ! c])"
    using assms(5) by (intro placed_push [where n = "set_nx (tab ! c) n"]) (simp_all add: hash_set)
qed

lemma rehash_chain_ok:
  "chain nx h cur xs \<Longrightarrow> distinct xs \<Longrightarrow> chains nx h tab cs \<Longrightarrow> placed h cs \<Longrightarrow>
   set xs \<inter> set (concat cs) = {} \<Longrightarrow> tab \<noteq> [] \<Longrightarrow>
   \<exists>h' tab' cs'. rehash_chain nx set_nx (hash (length tab)) h tab cur = Some (h', tab') \<and>
     length tab' = length tab \<and> chains nx h' tab' cs' \<and> placed h' cs' \<and> same_nodes h h' \<and>
     set (concat cs') = set xs \<union> set (concat cs) \<and> (\<forall>a. a \<notin> set xs \<longrightarrow> h' a = h a)"
proof (induction xs arbitrary: h cur tab cs)
  case Nil
  then show ?case by (subst rehash_chain.simps) (auto simp: same_refl)
next
  case (Cons a xs)
  then obtain n where n: "cur = Some a" "h a = Some n" "chain nx h (nx n) xs" by auto
  define c where "c = hash (length tab) n"
  define h1 where "h1 = h(a \<mapsto> set_nx (tab ! c) n)"
  have nin: "a \<notin> set (concat cs)" "a \<notin> set xs" using Cons.prems by auto
  note p = push_ok [OF Cons.prems(3,4) n(2) nin(1) c_def Cons.prems(6), folded h1_def]
  have "chain nx h1 (nx n) xs" using n(3) nin(2) by (simp add: h1_def)
  moreover have "set xs \<inter> set (concat (cs[c := a # cs ! c])) = {}"
    using p(3) Cons.prems(2,5) nin by auto
  moreover have "tab[c := Some a] \<noteq> []" "distinct xs" using Cons.prems(2,6) by simp_all
  ultimately obtain h' tab' cs' where r:
    "rehash_chain nx set_nx (hash (length (tab[c := Some a]))) h1 (tab[c := Some a]) (nx n) = Some (h', tab')"
    "length tab' = length tab" "chains nx h' tab' cs'" "placed h' cs'" "same_nodes h1 h'"
    "set (concat cs') = set xs \<union> set (concat (cs[c := a # cs ! c]))"
    "\<forall>b. b \<notin> set xs \<longrightarrow> h' b = h1 b"
    using Cons.IH [OF _ _ p(1,2)] by (metis length_list_update)
  have "rehash_chain nx set_nx (hash (length tab)) h tab cur = Some (h', tab')"
    using r(1) n(1,2) hash_less [of "length tab" n] Cons.prems(6)
    by (subst rehash_chain.simps) (simp add: c_def [symmetric] h1_def [symmetric] Let_def)
  moreover have "same_nodes h h'"
    using same_trans [OF same_upd [of h h a n] r(5) [unfolded h1_def]] n(2) same_refl by simp
  moreover have "set (concat cs') = set (a # xs) \<union> set (concat cs)" using r(6) p(3) by auto
  moreover have "\<forall>b. b \<notin> set (a # xs) \<longrightarrow> h' b = h b" using r(7) by (simp add: h1_def)
  ultimately show ?case using r(2-4) by blast
qed

lemma rehash_table_ok:
  "list_all2 (chain nx h) ps olds \<Longrightarrow> distinct (concat olds) \<Longrightarrow> chains nx h tab cs \<Longrightarrow> placed h cs \<Longrightarrow>
   set (concat olds) \<inter> set (concat cs) = {} \<Longrightarrow> tab \<noteq> [] \<Longrightarrow>
   \<exists>h' tab' cs'. rehash_table nx set_nx (hash (length tab)) h tab ps = Some (h', tab') \<and>
     length tab' = length tab \<and> chains nx h' tab' cs' \<and> placed h' cs' \<and> same_nodes h h' \<and>
     set (concat cs') = set (concat olds) \<union> set (concat cs)"
proof (induction ps arbitrary: h olds tab cs)
  case Nil
  then show ?case by (auto simp: same_refl)
next
  case (Cons p ps)
  then obtain xs rest where o: "olds = xs # rest" "chain nx h p xs" "list_all2 (chain nx h) ps rest"
    by (auto simp: list_all2_Cons1)
  have d: "distinct xs" "distinct (concat rest)" "set xs \<inter> set (concat rest) = {}"
    "set xs \<inter> set (concat cs) = {}" "set (concat rest) \<inter> set (concat cs) = {}"
    using Cons.prems(2,5) o(1) by auto
  from rehash_chain_ok [OF o(2) d(1) Cons.prems(3,4) d(4) Cons.prems(6)] obtain h1 tab1 cs1 where r:
    "rehash_chain nx set_nx (hash (length tab)) h tab p = Some (h1, tab1)" "length tab1 = length tab"
    "chains nx h1 tab1 cs1" "placed h1 cs1" "same_nodes h h1"
    "set (concat cs1) = set xs \<union> set (concat cs)" "\<forall>a. a \<notin> set xs \<longrightarrow> h1 a = h a"
    by blast
  have cong: "chain nx h1 q ys" if "chain nx h q ys" "\<forall>a\<in>set ys. h1 a = h a" for q ys
    using that by (induction ys arbitrary: q) auto
  have "list_all2 (chain nx h1) ps rest"
    unfolding list_all2_conv_all_nth
  proof (intro conjI allI impI)
    show "length ps = length rest" using o(3) by (rule list_all2_lengthD)
    fix i assume i: "i < length ps"
    then have "rest ! i \<in> set rest" using o(3) by (simp add: list_all2_lengthD)
    then have "set (rest ! i) \<inter> set xs = {}" using d(3) by auto
    then show "chain nx h1 (ps ! i) (rest ! i)"
      using r(7) list_all2_nthD [OF o(3) i] by (intro cong) auto
  qed
  moreover have "set (concat rest) \<inter> set (concat cs1) = {}" "tab1 \<noteq> []"
    using r(2,6) d(3,5) Cons.prems(6) by auto
  ultimately obtain h' tab' cs' where t:
    "rehash_table nx set_nx (hash (length tab1)) h1 tab1 ps = Some (h', tab')" "length tab' = length tab1"
    "chains nx h' tab' cs'" "placed h' cs'" "same_nodes h1 h'"
    "set (concat cs') = set (concat rest) \<union> set (concat cs1)"
    using Cons.IH [OF _ d(2) r(3,4)] by blast
  moreover have "set (concat cs') = set (concat olds) \<union> set (concat cs)" using t(6) r(6) o(1) by auto
  ultimately show ?case
    using r(1,2) same_trans [OF r(5) t(5)] by auto
qed

end

end
