(* ===== verification/Vg_ExeContext.thy ===== *)
theory Vg_ExeContext
  imports Vg_Chain
begin

text \<open>
  Execution contexts, \<^verbatim>\<open>coregrind/m_execontext.c\<close>: the stack traces the tool records at each
  allocation and release are kept once each in a chained hash table that grows along a list of
  primes. A failing \<^verbatim>\<open>vg_assert\<close> and \<^verbatim>\<open>VG_(core_panic)\<close> are \<open>None\<close>. The addresses that
  \<^verbatim>\<open>VG_(perm_malloc)\<close> gives are arguments, and so are the answers of the stack unwinder.
\<close>

section \<open>State\<close>

definition N_EC_PRIMES :: nat where
  "N_EC_PRIMES = 18"

definition ec_primes :: "nat list" where
  "ec_primes =
     [769, 1543, 3079, 6151, 12289, 24593, 49157, 98317, 196613, 393241, 786433, 1572869,
      3145739, 6291469, 12582917, 25165843, 50331653, 100663319]"

text \<open>
  A context: the link of its hash chain, its reference number, the epoch of its debug
  information, and its instruction pointers (\<^verbatim>\<open>n_ips\<close> is the length of the list).
\<close>

record ExeContext =
  ec_chain :: ptr
  ecu :: "32 word"
  epoch :: "32 word"
  ips :: "Addr list"

record ec_state =
  ecs :: "nat \<rightharpoonup> ExeContext"
  ec_htab :: "ptr list"
  ec_htab_size :: nat
  ec_htab_size_idx :: nat
  ec_next_ecu :: "32 word"
  null_ExeContext :: ptr
  ec_searchreqs :: ULong
  ec_searchcmps :: ULong
  ec_totstored :: ULong
  ec_cmp2s :: ULong
  ec_cmp4s :: ULong
  ec_cmpAlls :: ULong
  ec_ctr :: "32 word"
  init_done :: bool

datatype VgRes = Vg_LowRes | Vg_MedRes | Vg_HighRes

definition is_DiEpoch_INVALID :: "32 word \<Rightarrow> bool" where
  "is_DiEpoch_INVALID dep \<longleftrightarrow> dep = 0"

definition DiEpoch_INVALID :: "32 word" where
  "DiEpoch_INVALID = 0"

definition is_plausible_ECU :: "32 word \<Rightarrow> bool" where
  "is_plausible_ECU e \<longleftrightarrow> e > 0 \<and> e AND 3 = 0"

text \<open>The static variables before the first use.\<close>

definition ec_initial :: ec_state where
  "ec_initial = \<lparr>ecs = Map.empty, ec_htab = [], ec_htab_size = 0, ec_htab_size_idx = 0,
     ec_next_ecu = 4, null_ExeContext = None, ec_searchreqs = 0, ec_searchcmps = 0,
     ec_totstored = 0, ec_cmp2s = 0, ec_cmp4s = 0, ec_cmpAlls = 0, ec_ctr = 0, init_done = False\<rparr>"

section \<open>Hashing and resizing\<close>

definition ROLW :: "64 word \<Rightarrow> nat \<Rightarrow> 64 word" where
  "ROLW w n = push_bit n w OR drop_bit (64 - n) w"

definition hash_ips :: "Addr list \<Rightarrow> nat \<Rightarrow> nat" where
  "hash_ips is htab_sz = unat (foldl (\<lambda>hash ip. ROLW (hash XOR ip) 19) 0 is) mod htab_sz"

definition calc_hash :: "Addr list \<Rightarrow> nat \<Rightarrow> nat option" where
  "calc_hash is htab_sz = (if htab_sz > 0 then Some (hash_ips is htab_sz) else None)"

definition resize_ec_htab :: "ec_state \<Rightarrow> ec_state option" where
  "resize_ec_htab st =
     (if ec_htab_size_idx st < N_EC_PRIMES then
        if ec_htab_size_idx st = N_EC_PRIMES - 1 then Some st
        else do {
          let new_size = ec_primes ! (ec_htab_size_idx st + 1);
          let new_ec_htab = replicate new_size None;
          (h, new_ec_htab) \<leftarrow> rehash_table ec_chain (\<lambda>p n. n\<lparr>ec_chain := p\<rparr>)
             (\<lambda>n. hash_ips (ips n) new_size) (ecs st) new_ec_htab (ec_htab st);
          Some (st\<lparr>ecs := h, ec_htab := new_ec_htab, ec_htab_size := new_size,
                   ec_htab_size_idx := ec_htab_size_idx st + 1\<rparr>)
        }
      else None)"

section \<open>Recording\<close>

text \<open>The comparison of two traces, as the loop with the flag \<^verbatim>\<open>same\<close>.\<close>

fun same_loop :: "bool \<Rightarrow> Addr list \<Rightarrow> Addr list \<Rightarrow> bool" where
  "same_loop same (x # xs) (y # ys) = (if same then same_loop (x = y) xs ys else False)"
| "same_loop same xs ys = same"

definition same_context :: "ExeContext \<Rightarrow> Addr list \<Rightarrow> bool" where
  "same_context c is =
     same_loop (length (ips c) = length is \<and> is_DiEpoch_INVALID (epoch c)) (ips c) is"

text \<open>The search along a chain, with the two nodes before the one found and the comparisons.\<close>

partial_function (option) find_context ::
  "(nat \<rightharpoonup> ExeContext) \<Rightarrow> Addr list \<Rightarrow> ptr \<Rightarrow> ptr \<Rightarrow> ptr \<Rightarrow> ULong \<Rightarrow>
   (ptr \<times> ptr \<times> ptr \<times> ULong) option" where
  "find_context h is prev2 prev lst cmps =
     (case lst of
        None \<Rightarrow> Some (prev2, prev, lst, cmps)
      | Some a \<Rightarrow> do {
          c \<leftarrow> h a;
          if same_context c is then Some (prev2, prev, lst, cmps + 1)
          else find_context h is prev lst (ec_chain c) (cmps + 1)
        })"

declare find_context.simps [code]

text \<open>Moving the context \<open>e\<close> one step towards the start of its chain.\<close>

definition set_chain :: "(nat \<rightharpoonup> ExeContext) \<Rightarrow> nat \<Rightarrow> ptr \<Rightarrow> (nat \<rightharpoonup> ExeContext) option" where
  "set_chain h a p = map_option (\<lambda>n. h(a \<mapsto> n\<lparr>ec_chain := p\<rparr>)) (h a)"

definition move_forward :: "ec_state \<Rightarrow> nat \<Rightarrow> ptr \<Rightarrow> ptr \<Rightarrow> nat \<Rightarrow> ec_state option" where
  "move_forward st hash prev2 prev e =
     (case (prev2, prev) of
        (Some p2, Some p) \<Rightarrow> do {
          n2 \<leftarrow> ecs st p2;
          n \<leftarrow> ecs st p;
          c \<leftarrow> ecs st e;
          if ec_chain n2 = Some p \<and> ec_chain n = Some e then do {
            h \<leftarrow> set_chain (ecs st) p2 (Some e);
            h \<leftarrow> set_chain h p (ec_chain c);
            h \<leftarrow> set_chain h e (Some p);
            Some (st\<lparr>ecs := h\<rparr>)
          } else None
        }
      | (None, Some p) \<Rightarrow> do {
          n \<leftarrow> ecs st p;
          c \<leftarrow> ecs st e;
          if ec_htab st ! hash = Some p \<and> ec_chain n = Some e then do {
            h \<leftarrow> set_chain (ecs st) p (ec_chain c);
            h \<leftarrow> set_chain h e (Some p);
            Some (st\<lparr>ecs := h, ec_htab := (ec_htab st)[hash := Some e]\<rparr>)
          } else None
        }
      | _ \<Rightarrow> Some st)"

text \<open>The allocation of a context at the address \<open>a\<close>.\<close>

definition new_context :: "ec_state \<Rightarrow> Addr list \<Rightarrow> nat \<Rightarrow> nat \<Rightarrow> (ec_state \<times> nat) option" where
  "new_context st is hash a = do {
     let st = st\<lparr>ec_totstored := ec_totstored st + 1\<rparr>;
     if is_plausible_ECU (ec_next_ecu st) then do {
       let e = ec_next_ecu st;
       let st = st\<lparr>ec_next_ecu := ec_next_ecu st + 4\<rparr>;
       if ec_next_ecu st = 0 then None
       else do {
         let new_ec = \<lparr>ec_chain = ec_htab st ! hash, ecu = e, epoch = DiEpoch_INVALID, ips = is\<rparr>;
         let st = st\<lparr>ecs := (ecs st)(a \<mapsto> new_ec), ec_htab := (ec_htab st)[hash := Some a]\<rparr>;
         if unat (ec_totstored st) > ec_htab_size st then
           if ec_htab_size_idx st < N_EC_PRIMES then
             if ec_htab_size_idx st < N_EC_PRIMES - 1
             then do { st \<leftarrow> resize_ec_htab st; Some (st, a) }
             else Some (st, a)
           else None
         else Some (st, a)
       }
     } else None
   }"

definition record_ExeContext_wrk2 ::
  "nat \<Rightarrow> ec_state \<Rightarrow> Addr list \<Rightarrow> nat \<Rightarrow> (ec_state \<times> nat) option" where
  "record_ExeContext_wrk2 clo_backtrace_size st is a =
     (if length is \<ge> 1 \<and> length is \<le> clo_backtrace_size then do {
        hash \<leftarrow> calc_hash is (ec_htab_size st);
        let st = st\<lparr>ec_searchreqs := ec_searchreqs st + 1\<rparr>;
        (prev2, prev, lst, cmps) \<leftarrow>
          (if hash < length (ec_htab st)
           then find_context (ecs st) is None None (ec_htab st ! hash) (ec_searchcmps st) else None);
        let st = st\<lparr>ec_searchcmps := cmps\<rparr>;
        case lst of
          Some e \<Rightarrow> do {
            let ctr = ec_ctr st;
            let st = st\<lparr>ec_ctr := ctr + 1\<rparr>;
            st \<leftarrow> (if ctr AND 7 = 0 then move_forward st hash prev2 prev e else Some st);
            Some (st, e)
          }
        | None \<Rightarrow> new_context st is hash a
      } else None)"

text \<open>\<open>a0\<close> is the address of the null context, used when the storage is not initialised yet.\<close>

definition init_ExeContext_storage :: "nat \<Rightarrow> ec_state \<Rightarrow> nat \<Rightarrow> ec_state option" where
  "init_ExeContext_storage bts st a0 =
     (if init_done st then Some st
      else do {
        let st = st\<lparr>ec_searchreqs := 0, ec_searchcmps := 0, ec_totstored := 0, ec_cmp2s := 0,
                    ec_cmp4s := 0, ec_cmpAlls := 0, ec_htab_size_idx := 0,
                    ec_htab_size := ec_primes ! 0, ec_htab := replicate (ec_primes ! 0) None\<rparr>;
        (st, e) \<leftarrow> record_ExeContext_wrk2 bts st [0] a0;
        let st = st\<lparr>null_ExeContext := Some e\<rparr>;
        c \<leftarrow> ecs st e;
        if ecu c = 4 then Some (st\<lparr>init_done := True\<rparr>) else None
      })"

text \<open>
  What the unwinder answers: whether the thread is valid, its instruction pointer, its stack
  trace for a given number of frames and offset, and the trace of the inner thread that runs
  on it when there is one, with the marker put between the two.
\<close>

record unwinder =
  backtrace_size :: nat
  valid_tid :: bool
  get_IP :: Addr
  get_StackTrace :: "nat \<Rightarrow> 64 word \<Rightarrow> Addr list"
  inner_StackTrace :: "(nat \<Rightarrow> 64 word \<Rightarrow> Addr list) option"
  inner_marker :: Addr

definition unwind :: "unwinder \<Rightarrow> 64 word \<Rightarrow> bool \<Rightarrow> Addr list" where
  "unwind u first_ip_delta first_ip_only =
     (if first_ip_only then [get_IP u + first_ip_delta]
      else
        let is = get_StackTrace u (backtrace_size u) first_ip_delta
        in case inner_StackTrace u of
             None \<Rightarrow> is
           | Some inner \<Rightarrow>
               if length is + 1 < backtrace_size u then
                 let is = is @ [inner_marker u]
                 in is @ inner (backtrace_size u - length is) first_ip_delta
               else is)"

definition record_ExeContext_wrk ::
  "unwinder \<Rightarrow> ec_state \<Rightarrow> nat \<Rightarrow> nat \<Rightarrow> 64 word \<Rightarrow> bool \<Rightarrow> (ec_state \<times> nat) option" where
  "record_ExeContext_wrk u st a0 a first_ip_delta first_ip_only = do {
     st \<leftarrow> init_ExeContext_storage (backtrace_size u) st a0;
     if valid_tid u
     then record_ExeContext_wrk2 (backtrace_size u) st (unwind u first_ip_delta first_ip_only) a
     else None
   }"

definition record_ExeContext where
  "record_ExeContext u st a0 a first_ip_delta = record_ExeContext_wrk u st a0 a first_ip_delta False"

definition record_depth_1_ExeContext where
  "record_depth_1_ExeContext u st a0 a first_ip_delta =
     record_ExeContext_wrk u st a0 a first_ip_delta True"

definition make_depth_1_ExeContext_from_Addr where
  "make_depth_1_ExeContext_from_Addr bts st a0 a addr = do {
     st \<leftarrow> init_ExeContext_storage bts st a0;
     record_ExeContext_wrk2 bts st [addr] a
   }"

definition make_ExeContext_from_StackTrace where
  "make_ExeContext_from_StackTrace bts st a0 a is = do {
     st \<leftarrow> init_ExeContext_storage bts st a0;
     record_ExeContext_wrk2 bts st is a
   }"

definition get_null_ExeContext where
  "get_null_ExeContext bts st a0 = do {
     st \<leftarrow> init_ExeContext_storage bts st a0;
     Some (st, null_ExeContext st)
   }"

section \<open>Queries\<close>

definition get_ExeContext_epoch :: "32 word \<Rightarrow> ExeContext \<Rightarrow> 32 word" where
  "get_ExeContext_epoch current_DiEpoch e =
     (if is_DiEpoch_INVALID (epoch e) then current_DiEpoch else epoch e)"

definition get_ECU_from_ExeContext :: "ExeContext \<Rightarrow> (32 word) option" where
  "get_ECU_from_ExeContext e = (if is_plausible_ECU (ecu e) then Some (ecu e) else None)"

definition get_ExeContext_n_ips :: "ExeContext \<Rightarrow> nat option" where
  "get_ExeContext_n_ips e = (if length (ips e) \<ge> 1 then Some (length (ips e)) else None)"

definition get_ExeContext_StackTrace :: "ExeContext \<Rightarrow> Addr list" where
  "get_ExeContext_StackTrace e = ips e"

partial_function (option) ecu_in_chain :: "(nat \<rightharpoonup> ExeContext) \<Rightarrow> 32 word \<Rightarrow> ptr \<Rightarrow> ptr option" where
  "ecu_in_chain h e p =
     (case p of
        None \<Rightarrow> Some None
      | Some a \<Rightarrow> do { c \<leftarrow> h a; if ecu c = e then Some p else ecu_in_chain h e (ec_chain c) })"

fun ecu_in_table :: "(nat \<rightharpoonup> ExeContext) \<Rightarrow> 32 word \<Rightarrow> ptr list \<Rightarrow> ptr option" where
  "ecu_in_table h e [] = Some None"
| "ecu_in_table h e (p # ps) = do {
     r \<leftarrow> ecu_in_chain h e p;
     if r \<noteq> None then Some r else ecu_in_table h e ps
   }"

definition get_ExeContext_from_ECU :: "ec_state \<Rightarrow> 32 word \<Rightarrow> ptr option" where
  "get_ExeContext_from_ECU st e =
     (if is_plausible_ECU e \<and> ec_htab_size st > 0 then ecu_in_table (ecs st) e (ec_htab st) else None)"

text \<open>
  The comparison of the first \<open>k\<close> callers: \<open>Some b\<close> is a \<^verbatim>\<open>return\<close> inside the loop, \<open>None\<close> the
  end of the loop.
\<close>

fun eq_loop :: "Addr list \<Rightarrow> Addr list \<Rightarrow> nat \<Rightarrow> bool option" where
  "eq_loop is1 is2 0 = None"
| "eq_loop [] [] (Suc k) = Some True"
| "eq_loop [] (y # ys) (Suc k) = Some False"
| "eq_loop (x # xs) [] (Suc k) = Some False"
| "eq_loop (x # xs) (y # ys) (Suc k) = (if x \<noteq> y then Some False else eq_loop xs ys k)"

definition eq_ExeContext :: "ec_state \<Rightarrow> VgRes \<Rightarrow> ptr \<Rightarrow> ptr \<Rightarrow> (ec_state \<times> bool) option" where
  "eq_ExeContext st res e1 e2 =
     (case (e1, e2) of
        (Some a1, Some a2) \<Rightarrow> do {
          c1 \<leftarrow> ecs st a1;
          c2 \<leftarrow> ecs st a2;
          if length (ips c1) \<ge> 1 \<and> length (ips c2) \<ge> 1 then
            Some (case res of
              Vg_LowRes \<Rightarrow>
                (st\<lparr>ec_cmp2s := ec_cmp2s st + 1\<rparr>,
                 case eq_loop (ips c1) (ips c2) 2 of Some b \<Rightarrow> b | None \<Rightarrow> epoch c1 = epoch c2)
            | Vg_MedRes \<Rightarrow>
                (st\<lparr>ec_cmp4s := ec_cmp4s st + 1\<rparr>,
                 case eq_loop (ips c1) (ips c2) 4 of Some b \<Rightarrow> b | None \<Rightarrow> epoch c1 = epoch c2)
            | Vg_HighRes \<Rightarrow> (st\<lparr>ec_cmpAlls := ec_cmpAlls st + 1\<rparr>, a1 = a2))
          else None
        }
      | _ \<Rightarrow> Some (st, False))"

text \<open>
  The archiving of the contexts that point into a text range: the walk along one chain, and
  over the table, with the count of the archived ones. The two messages it may print are not
  part of the model.
\<close>

partial_function (option) archive_chain ::
  "(nat \<rightharpoonup> ExeContext) \<Rightarrow> 32 word \<Rightarrow> Addr \<Rightarrow> Addr \<Rightarrow> ULong \<Rightarrow> ptr \<Rightarrow>
   ((nat \<rightharpoonup> ExeContext) \<times> ULong) option" where
  "archive_chain h last_epoch lo hi n p =
     (case p of
        None \<Rightarrow> Some (h, n)
      | Some a \<Rightarrow> do {
          c \<leftarrow> h a;
          let hit = is_DiEpoch_INVALID (epoch c) \<and> list_ex (\<lambda>ip. ip \<ge> lo \<and> ip \<le> hi) (ips c);
          archive_chain (if hit then h(a \<mapsto> c\<lparr>epoch := last_epoch\<rparr>) else h) last_epoch lo hi
            (if hit then n + 1 else n) (ec_chain c)
        })"

fun archive_table ::
  "(nat \<rightharpoonup> ExeContext) \<Rightarrow> 32 word \<Rightarrow> Addr \<Rightarrow> Addr \<Rightarrow> ULong \<Rightarrow> ptr list \<Rightarrow>
   ((nat \<rightharpoonup> ExeContext) \<times> ULong) option" where
  "archive_table h last_epoch lo hi n [] = Some (h, n)"
| "archive_table h last_epoch lo hi n (p # ps) = do {
     (h, n) \<leftarrow> archive_chain h last_epoch lo hi n p;
     archive_table h last_epoch lo hi n ps
   }"

definition archive_ExeContext_in_range ::
  "ec_state \<Rightarrow> 32 word \<Rightarrow> Addr \<Rightarrow> SizeT \<Rightarrow> (ec_state \<times> ULong) option" where
  "archive_ExeContext_in_range st last_epoch text_avma len = do {
     let text_avma_end = text_avma + len - 1;
     (h, n_archived) \<leftarrow> archive_table (ecs st) last_epoch text_avma text_avma_end 0 (ec_htab st);
     Some (st\<lparr>ecs := h\<rparr>, n_archived)
   }"

declare ecu_in_chain.simps [code] archive_chain.simps [code]

section \<open>The invariant of the storage\<close>

interpretation ecn: hashed_node ec_chain "\<lambda>p n. n\<lparr>ec_chain := p\<rparr>" "\<lambda>m n. hash_ips (ips n) m"
  by unfold_locales (simp_all add: hash_ips_def)

text \<open>
  The table: every context is on exactly one chain, the one of its hash. The numbers: reference
  numbers are given out in steps of four, without repetition. Canonicity: no two contexts of
  the current epoch have the same trace.
\<close>

definition ec_table :: "(nat \<rightharpoonup> ExeContext) \<Rightarrow> ptr list \<Rightarrow> bool" where
  "ec_table h tab \<longleftrightarrow> tab \<noteq> [] \<and>
     (\<exists>cs. chains ec_chain h tab cs \<and> ecn.placed h cs \<and> set (concat cs) = dom h)"

definition ec_numbers :: "ec_state \<Rightarrow> bool" where
  "ec_numbers st \<longleftrightarrow> ec_totstored st = of_nat (card (dom (ecs st))) \<and>
     unat (ec_next_ecu st) = 4 * (card (dom (ecs st)) + 1) \<and>
     (\<forall>a c. ecs st a = Some c \<longrightarrow> is_plausible_ECU (ecu c) \<and> ecu c < ec_next_ecu st) \<and>
     (\<forall>a b c d. ecs st a = Some c \<longrightarrow> ecs st b = Some d \<longrightarrow> ecu c = ecu d \<longrightarrow> a = b)"

definition ec_canonical :: "(nat \<rightharpoonup> ExeContext) \<Rightarrow> bool" where
  "ec_canonical h \<longleftrightarrow>
     (\<forall>a c. h a = Some c \<longrightarrow> ips c \<noteq> []) \<and>
     (\<forall>a b c d. h a = Some c \<longrightarrow> h b = Some d \<longrightarrow> epoch c = 0 \<longrightarrow> epoch d = 0 \<longrightarrow>
        ips c = ips d \<longrightarrow> a = b)"

definition ec_inv :: "ec_state \<Rightarrow> bool" where
  "ec_inv st \<longleftrightarrow> ec_table (ecs st) (ec_htab st) \<and> ec_htab_size st = length (ec_htab st) \<and>
     ec_htab_size_idx st < N_EC_PRIMES \<and> ec_htab_size st = ec_primes ! ec_htab_size_idx st \<and>
     ec_numbers st \<and> ec_canonical (ecs st)"

lemma primes_pos: "i < N_EC_PRIMES \<Longrightarrow> ec_primes ! i > 0"
proof -
  have "list_all (\<lambda>p. p > 0) ec_primes" "length ec_primes = N_EC_PRIMES"
    by (simp_all add: ec_primes_def N_EC_PRIMES_def)
  then show "i < N_EC_PRIMES \<Longrightarrow> ec_primes ! i > 0" by (simp add: list_all_length)
qed

lemma same_loop_eq: "same_loop same xs ys \<longleftrightarrow> same \<and> xs = ys" if "length xs = length ys"
  using that by (induction same xs ys rule: same_loop.induct) auto

lemma same_context_iff: "same_context c is \<longleftrightarrow> ips c = is \<and> epoch c = 0"
proof (cases "length (ips c) = length is")
  case True
  then show ?thesis by (auto simp: same_context_def same_loop_eq is_DiEpoch_INVALID_def)
next
  case False
  then have "\<not> same_loop False (ips c) is"
    by (cases "ips c"; cases "is") auto
  with False show ?thesis by (auto simp: same_context_def)
qed

text \<open>The search returns the first match and the two nodes before it.\<close>

definition two_before :: "ptr \<times> ptr \<Rightarrow> nat list \<Rightarrow> ptr \<times> ptr" where
  "two_before p ys = foldl (\<lambda>(p2, p) y. (p, Some y)) p ys"

definition matches :: "(nat \<rightharpoonup> ExeContext) \<Rightarrow> Addr list \<Rightarrow> nat \<Rightarrow> bool" where
  "matches h is a \<longleftrightarrow> (\<exists>c. h a = Some c \<and> ips c = is \<and> epoch c = 0)"

lemma find_context_none:
  "chain ec_chain h p xs \<Longrightarrow> \<forall>a\<in>set xs. \<not> matches h is a \<Longrightarrow>
   \<exists>q2 q k. find_context h is p2 p1 p n = Some (q2, q, None, k)"
proof (induction xs arbitrary: p p1 p2 n)
  case Nil
  then show ?case by (subst find_context.simps) auto
next
  case (Cons a xs)
  then obtain c where c: "p = Some a" "h a = Some c" "chain ec_chain h (ec_chain c) xs" by auto
  with Cons.prems(2) have "\<not> same_context c is" by (auto simp: same_context_iff matches_def)
  with c Cons show ?case by (subst find_context.simps) simp
qed

lemma find_context_some:
  "chain ec_chain h p (ys @ a # zs) \<Longrightarrow> \<forall>b\<in>set ys. \<not> matches h is b \<Longrightarrow> matches h is a \<Longrightarrow>
   \<exists>k. find_context h is p2 p1 p n =
     Some (fst (two_before (p2, p1) ys), snd (two_before (p2, p1) ys), Some a, k)"
proof (induction ys arbitrary: p p1 p2 n)
  case Nil
  then show ?case
    by (subst find_context.simps) (auto simp: two_before_def matches_def same_context_iff)
next
  case (Cons b ys)
  then obtain c where c: "p = Some b" "h b = Some c" "chain ec_chain h (ec_chain c) (ys @ a # zs)" by auto
  with Cons.prems(2) have "\<not> same_context c is" by (auto simp: same_context_iff matches_def)
  with c Cons show ?case by (subst find_context.simps) (simp add: two_before_def)
qed

lemma set_chain_Some: "h a = Some c \<Longrightarrow> set_chain h a p = Some (h(a \<mapsto> c\<lparr>ec_chain := p\<rparr>))"
  by (simp add: set_chain_def)

text \<open>A step forward keeps the table and the contexts up to their links.\<close>

lemma move_forward_ok:
  assumes "ec_table (ecs st) (ec_htab st)" "hash < length (ec_htab st)"
    "chain ec_chain (ecs st) (ec_htab st ! hash) (ys @ e # zs)"
    "two_before (None, None) ys = (prev2, prev)"
  shows "\<exists>h tab. move_forward st hash prev2 prev e = Some (st\<lparr>ecs := h, ec_htab := tab\<rparr>) \<and>
     ec_table h tab \<and> ecn.same_nodes (ecs st) h \<and> length tab = length (ec_htab st)"
proof -
  obtain cs where cs: "chains ec_chain (ecs st) (ec_htab st) cs" "ecn.placed (ecs st) cs"
    "set (concat cs) = dom (ecs st)" using assms(1) by (auto simp: ec_table_def)
  have l: "length cs = length (ec_htab st)" using cs(1) by (rule chains_length)
  have ch: "cs ! hash = ys @ e # zs"
    using chain_unique [OF chains_nth [OF cs(1) assms(2)] assms(3)] .
  have d: "distinct (ys @ e # zs)"
    using cs(1) ch assms(2) l concat_split [of hash cs] by (auto simp: chains_def)
  have key: ?thesis
    if "move_forward st hash prev2 prev e = Some (st\<lparr>ecs := h, ec_htab := (ec_htab st)[hash := p]\<rparr>)"
      "chain ec_chain h p xs" "set xs = set (cs ! hash)" "distinct xs" "ecn.same_nodes (ecs st) h"
      "\<And>a. a \<notin> set (cs ! hash) \<Longrightarrow> h a = ecs st a" for h p xs
  proof -
    have "chains ec_chain h ((ec_htab st)[hash := p]) (cs[hash := xs])"
      using that by (intro chains_upd [OF cs(1) assms(2)]) auto
    moreover have "set (concat (cs[hash := xs])) = dom h"
      using set_concat_upd [of hash cs xs] cs(1,3) l assms(2) that(3) ecn.same_dom [OF that(5)]
        concat_split [of hash cs] by (auto simp: chains_def)
    moreover have "set (cs[hash := xs] ! i) = set (cs ! i)" for i
      using that(3) assms(2) l by (cases "i = hash") simp_all
    then have "ecn.placed h (cs[hash := xs])"
      using ecn.placed_same [OF cs(2) that(5)] by (simp add: ecn.placed_def)
    ultimately show ?thesis
      using that(1,5) assms(1) unfolding ec_table_def by fastforce
  qed
  consider "ys = []" | p where "ys = [p]" | us p2 p where "ys = us @ [p2, p]"
    by (metis append_Cons append_Nil append_assoc rev_exhaust)
  then show ?thesis
  proof cases
    case 1
    then have "move_forward st hash prev2 prev e = Some st"
      using assms(4) by (auto simp: two_before_def move_forward_def)
    with assms(1) ecn.same_refl show ?thesis
      by (intro exI [of _ "ecs st"] exI [of _ "ec_htab st"]) simp
  next
    case (2 p)
    with assms(3) obtain n c where n: "ecs st p = Some n" "ecs st e = Some c" "ec_chain n = Some e"
      "ec_htab st ! hash = Some p" "chain ec_chain (ecs st) (ec_chain c) zs" by auto
    let ?h = "(ecs st)(p \<mapsto> n\<lparr>ec_chain := ec_chain c\<rparr>, e \<mapsto> c\<lparr>ec_chain := Some p\<rparr>)"
    show ?thesis
    proof (rule key [where h = ?h and p = "Some e" and xs = "e # p # zs"])
      have "prev2 = None" "prev = Some p" "p \<noteq> e" using 2 assms(4) d by (auto simp: two_before_def)
      then show "move_forward st hash prev2 prev e = Some (st\<lparr>ecs := ?h, ec_htab := (ec_htab st)[hash := Some e]\<rparr>)"
        using n by (simp add: move_forward_def set_chain_Some)
      show "chain ec_chain ?h (Some e) (e # p # zs)" using 2 d n by auto
      show "ecn.same_nodes (ecs st) ?h"
        using ecn.same_upd [OF ecn.same_upd [OF ecn.same_refl, of "ecs st" p n "ec_chain c"], of e c "Some p"] n d 2
        by auto
    qed (use 2 ch d in auto)
  next
    case (3 us p2 p)
    with assms(3) obtain n2 n c where n: "ecs st p2 = Some n2" "ecs st p = Some n" "ecs st e = Some c"
      "ec_chain n2 = Some p" "ec_chain n = Some e" "chain ec_chain (ecs st) (ec_chain c) zs"
      "seg ec_chain (ecs st) (ec_htab st ! hash) us (Some p2)"
      by (auto simp: chain_append)
    let ?h = "(ecs st)(p2 \<mapsto> n2\<lparr>ec_chain := Some e\<rparr>, p \<mapsto> n\<lparr>ec_chain := ec_chain c\<rparr>,
      e \<mapsto> c\<lparr>ec_chain := Some p\<rparr>)"
    have df: "p2 \<noteq> p" "p2 \<noteq> e" "p \<noteq> e" "p2 \<notin> set us" "p \<notin> set us" "e \<notin> set us"
      "p2 \<notin> set zs" "p \<notin> set zs" "e \<notin> set zs" using d 3 by auto
    show ?thesis
    proof (rule key [where h = ?h and p = "ec_htab st ! hash" and xs = "us @ p2 # e # p # zs"])
      have "prev2 = Some p2" "prev = Some p" using 3 assms(4) by (auto simp: two_before_def case_prod_unfold)
      then show "move_forward st hash prev2 prev e =
          Some (st\<lparr>ecs := ?h, ec_htab := (ec_htab st)[hash := ec_htab st ! hash]\<rparr>)"
        using n df by (simp add: move_forward_def set_chain_Some)
      show "chain ec_chain ?h (ec_htab st ! hash) (us @ p2 # e # p # zs)"
        using n df by (simp add: chain_append)
      show "ecn.same_nodes (ecs st) ?h"
        using n df
        by (intro ecn.same_upd [where n = c] ecn.same_upd [where n = n] ecn.same_upd [where n = n2])
          (simp_all add: ecn.same_refl)
    qed (use 3 ch d in auto)
  qed
qed


text \<open>Contexts that are the same up to their links have the same numbers and traces.\<close>

lemma ec_same_facts:
  assumes "ecn.same_nodes h h'"
  shows "ec_canonical h \<Longrightarrow> ec_canonical h'" "matches h' is a \<longleftrightarrow> matches h is a"
    "h' a = Some c' \<Longrightarrow> \<exists>c. h a = Some c \<and> ecu c' = ecu c \<and> ips c' = ips c \<and> epoch c' = epoch c"
proof -
  have 1: "\<exists>c. h b = Some c \<and> ecu c' = ecu c \<and> ips c' = ips c \<and> epoch c' = epoch c"
    if b: "h' b = Some c'" for b c'
  proof -
    obtain c where "h b = Some c" using ecn.same_None [OF assms, of b] b by fastforce
    with ecn.same_get [OF assms this] b show ?thesis by auto
  qed
  have 2: "\<exists>c'. h' b = Some c' \<and> ecu c' = ecu c \<and> ips c' = ips c \<and> epoch c' = epoch c"
    if "h b = Some c" for b c
    using ecn.same_get [OF assms that] by auto
  show "h' a = Some c' \<Longrightarrow> \<exists>c. h a = Some c \<and> ecu c' = ecu c \<and> ips c' = ips c \<and> epoch c' = epoch c"
    by (rule 1)
  show "matches h' is a \<longleftrightarrow> matches h is a"
    unfolding matches_def using 1 [of a] 2 [of a] by force
  show "ec_canonical h'" if h: "ec_canonical h"
    unfolding ec_canonical_def
  proof (intro conjI allI impI)
    show "ips c \<noteq> []" if "h' x = Some c" for x c
      using 1 [OF that] h unfolding ec_canonical_def by metis
    show "x = y" if "h' x = Some c" "h' y = Some d" "epoch c = 0" "epoch d = 0" "ips c = ips d" for x y c d
      using 1 [OF that(1)] 1 [OF that(2)] h that(3-5) unfolding ec_canonical_def by metis
  qed
qed

lemma resize_ok:
  assumes "ec_table (ecs st) (ec_htab st)" "ec_htab_size_idx st < N_EC_PRIMES - 1"
  shows "\<exists>h tab. resize_ec_htab st = Some (st\<lparr>ecs := h, ec_htab := tab, ec_htab_size := length tab,
       ec_htab_size_idx := ec_htab_size_idx st + 1\<rparr>) \<and> ec_table h tab \<and>
     ecn.same_nodes (ecs st) h \<and> length tab = ec_primes ! (ec_htab_size_idx st + 1)"
proof -
  let ?m = "ec_primes ! (ec_htab_size_idx st + 1)"
  obtain cs where cs: "chains ec_chain (ecs st) (ec_htab st) cs" "set (concat cs) = dom (ecs st)"
    using assms(1) by (auto simp: ec_table_def)
  have m: "?m > 0" using assms(2) primes_pos [of "ec_htab_size_idx st + 1"] by simp
  from ecn.rehash_table_ok [of "ecs st" "ec_htab st" cs "replicate ?m None" "replicate ?m []"]
  obtain h tab cs' where r: "rehash_table ec_chain (\<lambda>p n. n\<lparr>ec_chain := p\<rparr>) (\<lambda>n. hash_ips (ips n) ?m)
      (ecs st) (replicate ?m None) (ec_htab st) = Some (h, tab)" "length tab = ?m"
    "chains ec_chain h tab cs'" "ecn.placed h cs'" "ecn.same_nodes (ecs st) h" "set (concat cs') = set (concat cs)"
    using cs(1) m by (auto simp: chains_def chains_empty [unfolded chains_def] ecn.placed_def)
  moreover have "ec_table h tab"
    using r cs(2) m ecn.same_dom [OF r(5)] unfolding ec_table_def by fastforce
  ultimately show ?thesis
    using assms(2)
    by (intro exI [of _ h] exI [of _ tab]) (simp add: resize_ec_htab_def N_EC_PRIMES_def Let_def)
qed


lemma ec_numbers_same:
  assumes "ec_numbers st" "ecn.same_nodes (ecs st) h" "ecs st' = h" "ec_totstored st' = ec_totstored st"
    "ec_next_ecu st' = ec_next_ecu st"
  shows "ec_numbers st'"
proof -
  note f = ec_same_facts(3) [OF assms(2)]
  have "dom h = dom (ecs st)" using ecn.same_dom [OF assms(2)] .
  moreover have "is_plausible_ECU (ecu c) \<and> ecu c < ec_next_ecu st" if "h a = Some c" for a c
    using f [OF that] assms(1) unfolding ec_numbers_def by metis
  moreover have "a = b" if "h a = Some c" "h b = Some d" "ecu c = ecu d" for a b c d
    using f [OF that(1)] f [OF that(2)] that(3) assms(1) unfolding ec_numbers_def by metis
  ultimately show ?thesis
    using assms unfolding ec_numbers_def by simp
qed

lemma table_chain:
  assumes "ec_table h tab" "is \<noteq> []"
  shows "\<exists>xs. chain ec_chain h (tab ! hash_ips is (length tab)) xs \<and> distinct xs \<and>
     (\<forall>a. matches h is a \<longrightarrow> a \<in> set xs) \<and> set xs \<subseteq> dom h \<and> hash_ips is (length tab) < length tab"
proof -
  obtain cs where cs: "chains ec_chain h tab cs" "ecn.placed h cs" "set (concat cs) = dom h" "tab \<noteq> []"
    using assms(1) by (auto simp: ec_table_def)
  let ?i = "hash_ips is (length tab)"
  have i: "?i < length tab" using cs(4) by (simp add: hash_ips_def)
  have l: "length cs = length tab" using cs(1) by (rule chains_length)
  have "a \<in> set (cs ! ?i)" if m: "matches h is a" for a
  proof -
    obtain c where c: "h a = Some c" "ips c = is" using m by (auto simp: matches_def)
    then have "a \<in> set (concat cs)" using cs(3) by auto
    then obtain j where j: "j < length cs" "a \<in> set (cs ! j)" unfolding in_concat_nth by blast
    then have "j = ?i" using cs(2) c l unfolding ecn.placed_def by (metis option.inject)
    with j show ?thesis by simp
  qed
  moreover have "distinct (cs ! ?i)" "set (cs ! ?i) \<subseteq> dom h"
    using cs(1,3) concat_split [of ?i cs] i l by (auto simp: chains_def)
  ultimately show ?thesis using chains_nth [OF cs(1) i] i by blast
qed

text \<open>A context that is there is found, and the storage is the same up to links and counters.\<close>

lemma record_present:
  assumes inv: "ec_inv st" and e: "matches (ecs st) is e"
    and n: "length is \<le> bts"
  shows "\<exists>st'. record_ExeContext_wrk2 bts st is a = Some (st', e) \<and> ec_inv st' \<and>
     ecn.same_nodes (ecs st) (ecs st') \<and> init_done st' = init_done st \<and> ec_next_ecu st' = ec_next_ecu st"
proof -
  have tab: "ec_table (ecs st) (ec_htab st)" and sz: "ec_htab_size st = length (ec_htab st)"
    and can: "ec_canonical (ecs st)" using inv by (simp_all add: ec_inv_def)
  have ne: "is \<noteq> []" using can e by (auto simp: matches_def ec_canonical_def)
  let ?i = "hash_ips is (length (ec_htab st))"
  obtain xs where xs: "chain ec_chain (ecs st) (ec_htab st ! ?i) xs" "e \<in> set xs" "?i < length (ec_htab st)"
    using table_chain [OF tab ne] e by blast
  have uniq: "b = e" if "matches (ecs st) is b" for b
    using can e that unfolding ec_canonical_def matches_def by metis
  from xs(2) obtain ys zs where xz: "xs = ys @ e # zs" "e \<notin> set ys" by (meson split_list_first)
  then have nm: "\<forall>b\<in>set ys. \<not> matches (ecs st) is b" using uniq by blast
  let ?st1 = "st\<lparr>ec_searchreqs := ec_searchreqs st + 1\<rparr>"
  obtain q2 q where q: "two_before (None, None) ys = (q2, q)" by (cases "two_before (None, None) ys")
  from find_context_some [OF xs(1) [unfolded xz(1)] nm e, of None None "ec_searchcmps st"] q obtain k
    where k: "find_context (ecs st) is None None (ec_htab st ! ?i) (ec_searchcmps st) = Some (q2, q, Some e, k)"
    by auto
  let ?st2 = "st\<lparr>ec_searchreqs := ec_searchreqs st + 1, ec_searchcmps := k, ec_ctr := ec_ctr st + 1\<rparr>"
  have wrk: "record_ExeContext_wrk2 bts st is a =
      (do { st \<leftarrow> (if ec_ctr st AND 7 = 0 then move_forward ?st2 ?i q2 q e else Some ?st2); Some (st, e) })"
    using n ne k xs(3) sz by (cases "is") (auto simp: record_ExeContext_wrk2_def calc_hash_def Let_def)
  have inv': "ec_inv (?st2\<lparr>ecs := h, ec_htab := tab\<rparr>)"
    if "ec_table h tab" "ecn.same_nodes (ecs st) h" "length tab = length (ec_htab st)" for h tab
    using inv that ec_same_facts(1) [OF that(2)]
      ec_numbers_same [OF _ that(2), of "?st2\<lparr>ecs := h, ec_htab := tab\<rparr>"]
    by (simp add: ec_inv_def)
  show ?thesis
  proof (cases "ec_ctr st AND 7 = 0")
    case True
    from move_forward_ok [of ?st2 ?i ys e zs q2 q] tab xs xz q obtain h tab' where
      m: "move_forward ?st2 ?i q2 q e = Some (?st2\<lparr>ecs := h, ec_htab := tab'\<rparr>)" "ec_table h tab'"
      "ecn.same_nodes (ecs st) h" "length tab' = length (ec_htab st)" by auto
    with True wrk inv' [OF m(2-4)] show ?thesis by auto
  next
    case False
    with wrk inv' [OF tab ecn.same_refl refl] ecn.same_refl show ?thesis by simp
  qed
qed


lemma new_context_table:
  assumes "ec_table h tab" "h a = None" "c = hash_ips is (length tab)"
    "n = \<lparr>ec_chain = tab ! c, ecu = e, epoch = 0, ips = is\<rparr>"
  shows "ec_table (h(a \<mapsto> n)) (tab[c := Some a])"
proof -
  obtain cs where cs: "chains ec_chain h tab cs" "ecn.placed h cs" "set (concat cs) = dom h" "tab \<noteq> []"
    using assms(1) by (auto simp: ec_table_def)
  have na: "a \<notin> set (concat cs)" using cs(3) assms(2) by auto
  let ?h = "h(a \<mapsto> n)"
  have "chain ec_chain ?h q ys = chain ec_chain h q ys" if "a \<notin> set ys" for q ys using that by simp
  then have "chains ec_chain ?h tab cs"
    using cs(1) na unfolding chains_def list_all2_conv_all_nth in_concat_nth by simp
  moreover have "ecn.placed ?h cs"
    using cs(2) na unfolding in_concat_nth ecn.placed_def by auto
  moreover have "?h(a \<mapsto> n\<lparr>ec_chain := tab ! c\<rparr>) = ?h" using assms(4) by (auto simp: fun_eq_iff)
  ultimately have "chains ec_chain ?h (tab[c := Some a]) (cs[c := a # cs ! c])" "ecn.placed ?h (cs[c := a # cs ! c])"
    "set (concat (cs[c := a # cs ! c])) = insert a (set (concat cs))"
    using ecn.push_ok [of ?h tab cs a n c] na assms(3,4) cs(4) by simp_all
  then show ?thesis using cs(3,4) unfolding ec_table_def by auto
qed

lemma plausible_next: "ec_numbers st \<Longrightarrow> is_plausible_ECU (ec_next_ecu st)"
proof -
  assume "ec_numbers st"
  then have u: "unat (ec_next_ecu st) = 4 * (card (dom (ecs st)) + 1)" by (simp add: ec_numbers_def)
  then have "unat (ec_next_ecu st AND 3) = 0"
    using take_bit_eq_mask [of 2 "unat (ec_next_ecu st)"]
    by (simp add: unsigned_and_eq mask_eq_exp_minus_1 take_bit_eq_mod)
  moreover have "ec_next_ecu st > 0" using u by (simp add: word_gt_0 unat_eq_0 [symmetric])
  ultimately show ?thesis by (simp add: is_plausible_ECU_def unat_eq_0)
qed


lemma ec_numbers_new:
  assumes "ec_numbers st" "ecs st a = None" "finite (dom (ecs st))" "unat (ec_next_ecu st) + 4 < 2 ^ 32"
    "ecs st' = (ecs st)(a \<mapsto> n)" "ecu n = ec_next_ecu st" "ec_totstored st' = ec_totstored st + 1"
    "ec_next_ecu st' = ec_next_ecu st + 4"
  shows "ec_numbers st'"
proof -
  have a: "a \<notin> dom (ecs st)" using assms(2) by auto
  have nx: "unat (ec_next_ecu st + 4) = unat (ec_next_ecu st) + 4"
    using assms(4) by (simp add: unat_plus_if')
  then have lt: "ec_next_ecu st < ec_next_ecu st + 4" by (simp add: word_less_nat_alt)
  have p: "is_plausible_ECU (ec_next_ecu st)" using plausible_next [OF assms(1)] .
  have old: "is_plausible_ECU (ecu c) \<and> ecu c < ec_next_ecu st" if "ecs st b = Some c" for b c
    using assms(1) that by (simp add: ec_numbers_def)
  have "is_plausible_ECU (ecu c) \<and> ecu c < ec_next_ecu st + 4" if "ecs st' b = Some c" for b c
    using that assms(5,6) p old [of b c] lt less_trans [OF _ lt, of "ecu c"] by (auto split: if_splits)
  moreover have "b = b'" if "ecs st' b = Some c" "ecs st' b' = Some d" "ecu c = ecu d" for b b' c d
  proof (cases "b = a"; cases "b' = a")
    assume "b \<noteq> a" "b' \<noteq> a"
    with that assms(1,5) show ?thesis unfolding ec_numbers_def by (metis fun_upd_apply)
  qed (use that assms(5,6) old in force)+
  moreover have "card (dom (ecs st')) = card (dom (ecs st)) + 1"
    using a assms(3,5) by simp
  ultimately show ?thesis
    using assms(1,7,8) nx unfolding ec_numbers_def by simp
qed

lemma ec_table_finite: "ec_table h tab \<Longrightarrow> finite (dom h)"
  unfolding ec_table_def by (metis List.finite_set)

lemma record_absent:
  assumes inv: "ec_inv st" and m: "\<forall>e. \<not> matches (ecs st) is e"
    and n: "is \<noteq> []" "length is \<le> bts" and a: "ecs st a = None"
    and room: "unat (ec_next_ecu st) + 4 < 2 ^ 32"
  shows "\<exists>st' p. record_ExeContext_wrk2 bts st is a = Some (st', a) \<and> ec_inv st' \<and>
     ecn.same_nodes ((ecs st)(a \<mapsto> \<lparr>ec_chain = p, ecu = ec_next_ecu st, epoch = 0, ips = is\<rparr>)) (ecs st') \<and>
     init_done st' = init_done st \<and> ec_next_ecu st' = ec_next_ecu st + 4"
proof -
  have tab: "ec_table (ecs st) (ec_htab st)" and sz: "ec_htab_size st = length (ec_htab st)"
    and can: "ec_canonical (ecs st)" and nums: "ec_numbers st" using inv by (simp_all add: ec_inv_def)
  define i where "i = hash_ips is (length (ec_htab st))"
  obtain xs where xs: "chain ec_chain (ecs st) (ec_htab st ! i) xs" "i < length (ec_htab st)"
    using table_chain [OF tab n(1)] by (auto simp: i_def)
  from find_context_none [OF xs(1), of "is" None None "ec_searchcmps st"] m obtain q2 q k
    where k: "find_context (ecs st) is None None (ec_htab st ! i) (ec_searchcmps st) = Some (q2, q, None, k)"
    by blast
  define st1 where "st1 = st\<lparr>ec_searchreqs := ec_searchreqs st + 1, ec_searchcmps := k\<rparr>"
  have wrk: "record_ExeContext_wrk2 bts st is a = new_context st1 is i a"
    using n k xs(2) sz
    by (cases "is") (auto simp: record_ExeContext_wrk2_def calc_hash_def i_def st1_def Let_def)
  define nd where "nd = \<lparr>ec_chain = ec_htab st ! i, ecu = ec_next_ecu st, epoch = 0, ips = is\<rparr>"
  define st2 where "st2 = st1\<lparr>ec_totstored := ec_totstored st1 + 1, ec_next_ecu := ec_next_ecu st1 + 4,
      ecs := (ecs st)(a \<mapsto> nd), ec_htab := (ec_htab st)[i := Some a]\<rparr>"
  have nz: "ec_next_ecu st + 4 \<noteq> 0"
  proof -
    have "unat (ec_next_ecu st + 4) \<noteq> 0" using room by (simp add: unat_plus_if')
    then show ?thesis by (metis unat_0)
  qed
  have tab2: "ec_table (ecs st2) (ec_htab st2)"
    using new_context_table [OF tab a i_def nd_def] by (simp add: st2_def)
  have nums2: "ec_numbers st2"
    using ec_numbers_new [OF nums a ec_table_finite [OF tab] room, of st2 nd]
    by (simp add: st2_def st1_def nd_def)
  have can2: "ec_canonical (ecs st2)"
    using can m n(1) unfolding ec_canonical_def st2_def nd_def matches_def
    by (simp split: if_splits) metis
  have f2: "init_done st2 = init_done st" "ec_htab_size st2 = length (ec_htab st2)" "ec_htab_size_idx st2 = ec_htab_size_idx st"
    "ec_htab_size_idx st < N_EC_PRIMES" "ec_htab_size st2 = ec_primes ! ec_htab_size_idx st"
    using inv by (simp_all add: st2_def st1_def ec_inv_def)
  have nc: "new_context st1 is i a =
      (if unat (ec_totstored st2) > ec_htab_size st2 then
         if ec_htab_size_idx st2 < N_EC_PRIMES - 1 then do { st \<leftarrow> resize_ec_htab st2; Some (st, a) }
         else Some (st2, a)
       else Some (st2, a))"
    using plausible_next [OF nums] nz f2(3,4)
    by (simp add: new_context_def Let_def st2_def st1_def nd_def DiEpoch_INVALID_def)
  show ?thesis
  proof (cases "unat (ec_totstored st2) > ec_htab_size st2 \<and> ec_htab_size_idx st2 < N_EC_PRIMES - 1")
    case False
    then have "record_ExeContext_wrk2 bts st is a = Some (st2, a)" using wrk nc by auto
    moreover have "ec_inv st2" using f2 tab2 nums2 can2 by (simp add: ec_inv_def)
    moreover have "ecs st2 = (ecs st)(a \<mapsto> nd)" by (simp add: st2_def)
    ultimately show ?thesis
      using ecn.same_refl [of "ecs st2"] f2(1)
      by (intro exI [of _ st2] exI [of _ "ec_htab st ! i"]) (simp add: nd_def, simp add: st2_def st1_def)
  next
    case True
    from resize_ok [OF tab2] True obtain h tab' where r: "resize_ec_htab st2 =
        Some (st2\<lparr>ecs := h, ec_htab := tab', ec_htab_size := length tab', ec_htab_size_idx := ec_htab_size_idx st2 + 1\<rparr>)"
      "ec_table h tab'" "ecn.same_nodes (ecs st2) h" "length tab' = ec_primes ! (ec_htab_size_idx st2 + 1)" by blast
    let ?st3 = "st2\<lparr>ecs := h, ec_htab := tab', ec_htab_size := length tab', ec_htab_size_idx := ec_htab_size_idx st2 + 1\<rparr>"
    have "record_ExeContext_wrk2 bts st is a = Some (?st3, a)" using wrk nc True r(1) by simp
    moreover have "ec_inv ?st3"
      using f2 True r(2,4) ec_same_facts(1) [OF r(3) can2] ec_numbers_same [OF nums2 r(3), of ?st3]
      by (simp add: ec_inv_def N_EC_PRIMES_def)
    moreover have "ecs st2 = (ecs st)(a \<mapsto> nd)" by (simp add: st2_def)
    ultimately show ?thesis
      using r(3) f2(1)
      by (intro exI [of _ ?st3] exI [of _ "ec_htab st ! i"]) (simp add: nd_def, simp add: st2_def st1_def)
  qed
qed


text \<open>Contexts never change, apart from their links, and none is lost.\<close>

definition ec_extends :: "(nat \<rightharpoonup> ExeContext) \<Rightarrow> (nat \<rightharpoonup> ExeContext) \<Rightarrow> bool" where
  "ec_extends h h' \<longleftrightarrow> (\<forall>b c. h b = Some c \<longrightarrow> (\<exists>p. h' b = Some (c\<lparr>ec_chain := p\<rparr>)))"

lemma ec_extends_refl: "ec_extends h h"
  unfolding ec_extends_def by (metis ExeContext.surjective ExeContext.update_convs(1))

lemma ec_extends_trans: "ec_extends h h' \<Longrightarrow> ec_extends h' h'' \<Longrightarrow> ec_extends h h''"
  unfolding ec_extends_def by fastforce

lemma ec_extends_same: "ecn.same_nodes h h' \<Longrightarrow> ec_extends h h'"
  using ecn.same_get by (auto simp: ec_extends_def)

lemma ec_extends_alloc: "h a = None \<Longrightarrow> ec_extends h (h(a \<mapsto> n))"
  using ec_extends_refl [of h] by (auto simp: ec_extends_def)

lemma ec_extends_matches: "ec_extends h h' \<Longrightarrow> matches h is a \<Longrightarrow> matches h' is a"
  by (fastforce simp: ec_extends_def matches_def)

lemma record_ok:
  assumes "ec_inv st" "is \<noteq> []" "length is \<le> bts" "ecs st a = None" "unat (ec_next_ecu st) + 4 < 2 ^ 32"
  shows "\<exists>st' e. record_ExeContext_wrk2 bts st is a = Some (st', e) \<and> ec_inv st' \<and> matches (ecs st') is e \<and>
     ec_extends (ecs st) (ecs st') \<and> dom (ecs st') \<subseteq> insert a (dom (ecs st)) \<and>
     init_done st' = init_done st \<and> unat (ec_next_ecu st') \<le> unat (ec_next_ecu st) + 4"
proof (cases "\<exists>e. matches (ecs st) is e")
  case True
  then obtain e where e: "matches (ecs st) is e" by blast
  from record_present [OF assms(1) e assms(3), of a] obtain st' where
    r: "record_ExeContext_wrk2 bts st is a = Some (st', e)" "ec_inv st'" "ecn.same_nodes (ecs st) (ecs st')"
      "init_done st' = init_done st" "ec_next_ecu st' = ec_next_ecu st" by blast
  have "matches (ecs st') is e" using ec_same_facts(2) [OF r(3)] e by simp
  moreover have "dom (ecs st') \<subseteq> insert a (dom (ecs st))" using ecn.same_dom [OF r(3)] by blast
  ultimately show ?thesis using r(1,2,4,5) ec_extends_same [OF r(3)] by (intro exI [of _ st'] exI [of _ e]) simp
next
  case False
  then obtain st' p where r: "record_ExeContext_wrk2 bts st is a = Some (st', a)" "ec_inv st'"
    "ecn.same_nodes ((ecs st)(a \<mapsto> \<lparr>ec_chain = p, ecu = ec_next_ecu st, epoch = 0, ips = is\<rparr>)) (ecs st')"
    "init_done st' = init_done st" "ec_next_ecu st' = ec_next_ecu st + 4"
    using record_absent [OF assms(1) _ assms(2-5)] by blast
  have "matches (ecs st') is a" using ec_same_facts(2) [OF r(3)] by (simp add: matches_def)
  moreover have "dom (ecs st') = insert a (dom (ecs st))" using ecn.same_dom [OF r(3)] by simp
  moreover have "ec_extends (ecs st) (ecs st')"
    by (rule ec_extends_trans [OF ec_extends_alloc ec_extends_same [OF r(3)]]) (rule assms(4))
  moreover have "unat (ec_next_ecu st') \<le> unat (ec_next_ecu st) + 4"
    using assms(5) r(5) by (simp add: unat_plus_if')
  ultimately show ?thesis using r(1,2,4) by (intro exI [of _ st'] exI [of _ a]) simp
qed

text \<open>The initialisation; before it the storage is as the loader left it.\<close>

definition ec_ready :: "ec_state \<Rightarrow> bool" where
  "ec_ready st \<longleftrightarrow> init_done st \<and> ec_inv st"

definition ec_usable :: "ec_state \<Rightarrow> bool" where
  "ec_usable st \<longleftrightarrow> ec_ready st \<or> st = ec_initial"

lemma ec_usable_simps [simp]: "ec_ready st \<Longrightarrow> ec_usable st" "ec_usable ec_initial"
  by (simp_all add: ec_usable_def)

lemma init_ok:
  assumes "bts \<ge> 1" "ec_usable st"
    "ecs st a0 = None"
  shows "\<exists>st'. init_ExeContext_storage bts st a0 = Some st' \<and> ec_ready st' \<and>
     ec_extends (ecs st) (ecs st') \<and> dom (ecs st') \<subseteq> insert a0 (dom (ecs st)) \<and>
     unat (ec_next_ecu st') \<le> unat (ec_next_ecu st) + 4"
proof (cases "st = ec_initial")
  case False
  with assms(2) have "init_done st" "ec_ready st" by (auto simp: ec_usable_def ec_ready_def)
  then show ?thesis by (auto simp: init_ExeContext_storage_def ec_extends_refl)
next
  case True
  let ?st = "st\<lparr>ec_searchreqs := 0, ec_searchcmps := 0, ec_totstored := 0, ec_cmp2s := 0,
     ec_cmp4s := 0, ec_cmpAlls := 0, ec_htab_size_idx := 0,
     ec_htab_size := ec_primes ! 0, ec_htab := replicate (ec_primes ! 0) None\<rparr>"
  have p0: "ec_primes ! 0 > 0" by (simp add: ec_primes_def)
  have "ec_table Map.empty (replicate (ec_primes ! 0) None)"
    using p0 chains_empty [of ec_chain Map.empty "ec_primes ! 0"]
    unfolding ec_table_def by (auto simp: ecn.placed_def intro!: exI [of _ "replicate (ec_primes ! 0) []"])
  then have inv: "ec_inv ?st"
    using True by (simp add: ec_inv_def ec_initial_def ec_numbers_def ec_canonical_def N_EC_PRIMES_def)
  have nxt: "ec_next_ecu ?st = 4" "ecs ?st = Map.empty" using True by (simp_all add: ec_initial_def)
  from record_absent [OF inv, of "[0]" bts a0] assms(1) nxt obtain st' q where
    r: "record_ExeContext_wrk2 bts ?st [0] a0 = Some (st', a0)" "ec_inv st'"
    "ecn.same_nodes [a0 \<mapsto> \<lparr>ec_chain = q, ecu = 4, epoch = 0, ips = [0]\<rparr>] (ecs st')"
    "ec_next_ecu st' = 8"
    by (auto simp: matches_def)
  from ecn.same_get [OF r(3), of a0] obtain q' where c: "ecs st' a0 =
      Some (\<lparr>ec_chain = q', ecu = 4, epoch = 0, ips = [0]\<rparr>)" by auto
  have d: "dom (ecs st') = {a0}" using ecn.same_dom [OF r(3)] by simp
  have "\<not> init_done st" using True by (simp add: ec_initial_def)
  with r(1) c have "init_ExeContext_storage bts st a0 =
      Some (st'\<lparr>null_ExeContext := Some a0, init_done := True\<rparr>)"
    by (simp add: init_ExeContext_storage_def Let_def)
  moreover have "ec_ready (st'\<lparr>null_ExeContext := Some a0, init_done := True\<rparr>)"
    using r(2) by (simp add: ec_ready_def ec_inv_def ec_numbers_def)
  ultimately show ?thesis
    using True d r(4) by (auto simp: ec_extends_def ec_initial_def)
qed

text \<open>Looking a context up by its reference number.\<close>

lemma ecu_in_chain_ok:
  "chain ec_chain h p xs \<Longrightarrow> ecu_in_chain h e p = Some (find (\<lambda>a. ecu (the (h a)) = e) xs)"
proof (induction xs arbitrary: p)
  case Nil
  then show ?case by (subst ecu_in_chain.simps) simp
next
  case (Cons a xs)
  then show ?case by (subst ecu_in_chain.simps) auto
qed

lemma find_append: "find P (xs @ ys) = (case find P xs of None \<Rightarrow> find P ys | Some x \<Rightarrow> Some x)"
  by (induction xs) auto

lemma find_SomeD: "find P xs = Some x \<Longrightarrow> P x \<and> x \<in> set xs"
  by (induction xs) (auto split: if_splits)

lemma ecu_in_table_ok:
  "list_all2 (chain ec_chain h) tab cs \<Longrightarrow>
   ecu_in_table h e tab = Some (find (\<lambda>a. ecu (the (h a)) = e) (concat cs))"
  by (induction tab cs rule: list_all2_induct)
    (auto simp: ecu_in_chain_ok find_append split: option.splits)

lemma from_ECU_ok:
  assumes "ec_inv st" "is_plausible_ECU e"
  shows "\<exists>r. get_ExeContext_from_ECU st e = Some r \<and>
     (\<forall>a. r = Some a \<longleftrightarrow> (\<exists>c. ecs st a = Some c \<and> ecu c = e))"
proof -
  obtain cs where cs: "chains ec_chain (ecs st) (ec_htab st) cs" "set (concat cs) = dom (ecs st)"
    "ec_htab st \<noteq> []" using assms(1) by (auto simp: ec_inv_def ec_table_def)
  define P where "P = (\<lambda>a. ecu (the (ecs st a)) = e)"
  have g: "get_ExeContext_from_ECU st e = Some (find P (concat cs))"
    using assms cs ecu_in_table_ok [of "ecs st" "ec_htab st" cs e]
    by (simp add: get_ExeContext_from_ECU_def ec_inv_def chains_def P_def)
  have uniq: "a = b" if "ecs st a = Some c" "ecs st b = Some d" "ecu c = ecu d" for a b c d
    using assms(1) that unfolding ec_inv_def ec_numbers_def by metis
  have "find P (concat cs) = Some a \<longleftrightarrow> (\<exists>c. ecs st a = Some c \<and> ecu c = e)" for a
  proof
    assume f: "find P (concat cs) = Some a"
    then have "P a" "a \<in> set (concat cs)" by (simp_all only: find_SomeD)
    with cs(2) show "\<exists>c. ecs st a = Some c \<and> ecu c = e" by (auto simp: P_def)
  next
    assume "\<exists>c. ecs st a = Some c \<and> ecu c = e"
    then obtain c where c: "ecs st a = Some c" "ecu c = e" by blast
    then have a: "a \<in> set (concat cs)" "P a" using cs(2) by (auto simp: P_def)
    then obtain b where b: "find P (concat cs) = Some b" by (metis find_None_iff option.exhaust)
    then have "P b" "b \<in> set (concat cs)" by (simp_all only: find_SomeD)
    with cs(2) obtain d where "ecs st b = Some d" "ecu d = e" by (auto simp: P_def)
    with uniq c b show "find P (concat cs) = Some a" by metis
  qed
  with g show ?thesis by blast
qed

text \<open>A low-resolution comparison of two traces of one frame does not look at the epochs.\<close>

lemma eq_ExeContext_ignores_epoch:
  assumes "ecs st a = Some c" "ecs st b = Some d" "ips c = [x]" "ips d = [x]"
  shows "\<exists>st'. eq_ExeContext st Vg_LowRes (Some a) (Some b) = Some (st', True)"
  using assms by (simp add: eq_ExeContext_def numeral_2_eq_2)

text \<open>The trace of the unwinder fits, whatever the inner thread adds.\<close>

definition unwinds :: "unwinder \<Rightarrow> bool" where
  "unwinds u \<longleftrightarrow> valid_tid u \<and> backtrace_size u \<ge> 1 \<and>
     (\<forall>n d. n \<ge> 1 \<longrightarrow> get_StackTrace u n d \<noteq> [] \<and> length (get_StackTrace u n d) \<le> n) \<and>
     (\<forall>f. inner_StackTrace u = Some f \<longrightarrow> (\<forall>n d. length (f n d) \<le> n))"

lemma unwind_fits: "unwinds u \<Longrightarrow> unwind u d b \<noteq> [] \<and> length (unwind u d b) \<le> backtrace_size u"
proof (cases "inner_StackTrace u")
  case (Some f)
  assume u: "unwinds u"
  let ?is = "get_StackTrace u (backtrace_size u) d"
  have "length (f (backtrace_size u - Suc (length ?is)) d) \<le> backtrace_size u - Suc (length ?is)"
    "length ?is \<le> backtrace_size u" "?is \<noteq> []" "backtrace_size u \<ge> 1" using u Some by (simp_all add: unwinds_def)
  then show ?thesis using Some by (auto simp: unwind_def Let_def)
qed (auto simp: unwind_def unwinds_def Let_def)

lemma record_ExeContext_ok:
  assumes "ec_usable st" "unwinds u" "ecs st a0 = None" "ecs st a = None" "a \<noteq> a0"
    "unat (ec_next_ecu st) + 8 < 2 ^ 32"
  shows "\<exists>st' e. record_ExeContext u st a0 a d = Some (st', e) \<and> ec_ready st' \<and>
     matches (ecs st') (unwind u d False) e \<and> ec_extends (ecs st) (ecs st') \<and>
     dom (ecs st') \<subseteq> {a, a0} \<union> dom (ecs st) \<and> unat (ec_next_ecu st') \<le> unat (ec_next_ecu st) + 8"
proof -
  from init_ok [OF _ assms(1,3)] assms(2) obtain st1 where i:
    "init_ExeContext_storage (backtrace_size u) st a0 = Some st1" "ec_ready st1" "ec_extends (ecs st) (ecs st1)"
    "dom (ecs st1) \<subseteq> insert a0 (dom (ecs st))" "unat (ec_next_ecu st1) \<le> unat (ec_next_ecu st) + 4"
    unfolding unwinds_def by blast
  have a: "ecs st1 a = None" using i(4) assms(4,5) by auto
  from record_ok [OF _ _ _ a, of "unwind u d False" "backtrace_size u"] unwind_fits [OF assms(2), of d False] i(2,5) assms(6)
  obtain st' e where r: "record_ExeContext_wrk2 (backtrace_size u) st1 (unwind u d False) a = Some (st', e)"
    "ec_inv st'" "matches (ecs st') (unwind u d False) e" "ec_extends (ecs st1) (ecs st')"
    "dom (ecs st') \<subseteq> insert a (dom (ecs st1))" "init_done st' = init_done st1"
    "unat (ec_next_ecu st') \<le> unat (ec_next_ecu st1) + 4"
    by (auto simp: ec_ready_def)
  have "record_ExeContext u st a0 a d = Some (st', e)"
    using assms(2) i(1) r(1) by (simp add: record_ExeContext_def record_ExeContext_wrk_def unwinds_def)
  moreover have "ec_ready st'" using i(2) r(2,6) by (simp add: ec_ready_def)
  moreover have "dom (ecs st') \<subseteq> {a, a0} \<union> dom (ecs st)" using r(5) i(4) by auto
  ultimately show ?thesis using r(3,7) i(5) ec_extends_trans [OF i(3) r(4)] by (intro exI [of _ st'] exI [of _ e]) simp
qed

section \<open>Properties\<close>

definition sample_ecs :: ec_state where
  "sample_ecs = the (init_ExeContext_storage 12 ec_initial 1)"

lemma sample_ecs_ready: "ec_inv sample_ecs" "dom (ecs sample_ecs) \<subseteq> {1}" "unat (ec_next_ecu sample_ecs) \<le> 8"
proof -
  have e: "ecs ec_initial = Map.empty" "ec_next_ecu ec_initial = 4" by (simp_all add: ec_initial_def)
  obtain st where "init_ExeContext_storage 12 ec_initial 1 = Some st" "ec_ready st"
    "dom (ecs st) \<subseteq> {1}" "unat (ec_next_ecu st) \<le> 8"
    using init_ok [of 12 ec_initial 1] by (auto simp: e)
  then show "ec_inv sample_ecs" "dom (ecs sample_ecs) \<subseteq> {1}" "unat (ec_next_ecu sample_ecs) \<le> 8"
    by (simp_all add: sample_ecs_def ec_ready_def)
qed

text \<open>
  C31. Contexts are canonical: recording two traces one after the other succeeds and gives the
  same pointer exactly when the traces are equal, whatever the state of the hash table, the
  moves along the chains and the resizing in between; both contexts then hold their traces.
\<close>

theorem execontext_canonical:
  assumes "ec_inv st" "is \<noteq> []" "length is \<le> bts" "is' \<noteq> []" "length is' \<le> bts"
    "ecs st a = None" "ecs st b = None" "a \<noteq> b" "unat (ec_next_ecu st) + 8 < 2 ^ 32"
  shows "\<exists>st1 e1 st2 e2. record_ExeContext_wrk2 bts st is a = Some (st1, e1) \<and>
     record_ExeContext_wrk2 bts st1 is' b = Some (st2, e2) \<and> ec_inv st2 \<and> (e1 = e2 \<longleftrightarrow> is = is') \<and>
     map_option ips (ecs st2 e1) = Some is \<and> map_option ips (ecs st2 e2) = Some is'"
proof -
  from record_ok [OF assms(1-3,6)] assms(9) obtain st1 e1 where r1:
    "record_ExeContext_wrk2 bts st is a = Some (st1, e1)" "ec_inv st1" "matches (ecs st1) is e1"
    "dom (ecs st1) \<subseteq> insert a (dom (ecs st))" "unat (ec_next_ecu st1) \<le> unat (ec_next_ecu st) + 4" by auto
  have b: "ecs st1 b = None" using r1(4) assms(7,8) by auto
  from record_ok [OF r1(2) assms(4,5) b] r1(5) assms(9) obtain st2 e2 where r2:
    "record_ExeContext_wrk2 bts st1 is' b = Some (st2, e2)" "ec_inv st2" "matches (ecs st2) is' e2"
    "ec_extends (ecs st1) (ecs st2)" by auto
  have m1: "matches (ecs st2) is e1" using ec_extends_matches [OF r2(4) r1(3)] .
  have "ec_canonical (ecs st2)" using r2(2) by (simp add: ec_inv_def)
  then have "e1 = e2 \<longleftrightarrow> is = is'"
    using m1 r2(3) unfolding ec_canonical_def matches_def by (metis option.inject)
  with r1(1) r2 m1 show ?thesis by (auto simp: matches_def)
qed

theorem execontext_canonical_witness:
  "\<exists>st1 e1 st2 e2. record_ExeContext_wrk2 12 sample_ecs [5, 6] 2 = Some (st1, e1) \<and>
     record_ExeContext_wrk2 12 st1 [7] 3 = Some (st2, e2) \<and> e1 \<noteq> e2"
proof -
  have "ecs sample_ecs 2 = None" "ecs sample_ecs 3 = None" using sample_ecs_ready(2) by auto
  with execontext_canonical [of sample_ecs "[5, 6]" 12 "[7]" 2 3] sample_ecs_ready(1,3)
  show ?thesis by auto
qed

text \<open>
  C32. Reference numbers identify contexts: looking up a plausible number returns exactly the
  context that carries it, and \<^verbatim>\<open>NULL\<close> when there is none.
\<close>

theorem ecu_lookup_correct:
  assumes "ec_inv st" "is_plausible_ECU e"
  shows "\<exists>r. get_ExeContext_from_ECU st e = Some r \<and>
     (\<forall>a. r = Some a \<longleftrightarrow> (\<exists>c. ecs st a = Some c \<and> ecu c = e))"
  using assms by (rule from_ECU_ok)

theorem ecu_lookup_correct_witness:
  "\<exists>r. get_ExeContext_from_ECU sample_ecs 400 = Some r \<and>
     (\<forall>a. r = Some a \<longleftrightarrow> (\<exists>c. ecs sample_ecs a = Some c \<and> ecu c = 400))"
  by (rule ecu_lookup_correct [OF sample_ecs_ready(1)]) (simp add: is_plausible_ECU_def)

end
