(* ===== verification/Vg_StackTrace.thy ===== *)
theory Vg_StackTrace
  imports Vg_Printf Vg_ExeContext
begin

text \<open>
  Printing of stack traces: the end of \<^verbatim>\<open>coregrind/m_stacktrace.c\<close> and \<^verbatim>\<open>VG_(pp_ExeContext)\<close>. What the
  debug information says about an address (the kind of its function, the lines that describe
  it, one for each inlined call) is a parameter.
\<close>

datatype Vg_FnNameKind = Vg_FnNameNormal | Vg_FnNameMain | Vg_FnNameBelowMain

record debug_info =
  get_fnname_kind_from_IP :: "32 word \<Rightarrow> Addr \<Rightarrow> Vg_FnNameKind"
  describe_IP :: "32 word \<Rightarrow> Addr \<Rightarrow> string \<times> string list"
  current_DiEpoch :: "32 word"
  clo_show_below_main :: bool

text \<open>What printing needs: the socket's answers, \<^verbatim>\<open>VG_(clo_xml)\<close>, and the data of the preambles.\<close>

record print_env =
  pe_ws :: "int \<Rightarrow> string \<Rightarrow> int"
  pe_xml :: bool
  pe_msg :: msg_env
  pe_dbg :: debug_info

abbreviation NL :: char where
  "NL \<equiv> CHR 0x0A"

definition pe_printf :: "print_env \<Rightarrow> vgp_state \<Rightarrow> string \<Rightarrow> va_arg list \<Rightarrow> vgp_state option" where
  "pe_printf pe ps format vargs = map_option fst (vg_printf (pe_ws pe) (pe_xml pe) ps format vargs)"

definition pe_umsg :: "print_env \<Rightarrow> vgp_state \<Rightarrow> string \<Rightarrow> va_arg list \<Rightarrow> vgp_state option" where
  "pe_umsg pe ps format vargs =
     map_option fst (vg_umsg (pe_ws pe) (pe_xml pe) (pe_msg pe) ps format vargs)"

definition pe_message ::
  "print_env \<Rightarrow> vgp_state \<Rightarrow> VgMsgKind \<Rightarrow> string \<Rightarrow> va_arg list \<Rightarrow> vgp_state option" where
  "pe_message pe ps kind format vargs =
     map_option fst (vg_message (pe_ws pe) (pe_xml pe) (pe_msg pe) ps kind format vargs)"

section \<open>Walking a trace\<close>

text \<open>
  The search from the outermost frame for \<^verbatim>\<open>main\<close> or the last function below it: \<open>Suc i\<close> is the
  frame \<open>i\<close> still to look at, and \<open>n\<close> is \<^verbatim>\<open>n_ips\<close>.
\<close>

fun below_main_loop :: "(Addr \<Rightarrow> Vg_FnNameKind) \<Rightarrow> Addr list \<Rightarrow> nat \<Rightarrow> nat \<Rightarrow> nat" where
  "below_main_loop kind is 0 n = n"
| "below_main_loop kind is (Suc i) n =
     (let k = kind (is ! i);
          n = (if k = Vg_FnNameMain \<or> k = Vg_FnNameBelowMain then i + 1 else n)
      in if k = Vg_FnNameMain then n else below_main_loop kind is i n)"

fun apply_loop :: "(nat \<Rightarrow> Addr \<Rightarrow> 's \<Rightarrow> 's option) \<Rightarrow> nat \<Rightarrow> Addr list \<Rightarrow> 's \<Rightarrow> 's option" where
  "apply_loop action i [] s = Some s"
| "apply_loop action i (ip # is) s = do { s \<leftarrow> action i ip s; apply_loop action (i + 1) is s }"

definition shown_ips :: "debug_info \<Rightarrow> 32 word \<Rightarrow> Addr list \<Rightarrow> Addr list" where
  "shown_ips dbg ep is =
     (if \<not> clo_show_below_main dbg
      then take (below_main_loop (get_fnname_kind_from_IP dbg ep) is (length is) (length is)) is
      else is)"

definition apply_StackTrace ::
  "debug_info \<Rightarrow> (nat \<Rightarrow> 32 word \<Rightarrow> Addr \<Rightarrow> 's \<Rightarrow> 's option) \<Rightarrow> 32 word \<Rightarrow> Addr list \<Rightarrow> 's \<Rightarrow> 's option" where
  "apply_StackTrace dbg action ep is s =
     (if length is > 0 then apply_loop (\<lambda>n ip. action n ep ip) 0 (shown_ips dbg ep is) s else None)"

text \<open>The lines for one address, from the innermost inlined call outwards.\<close>

fun desc_loop :: "print_env \<Rightarrow> nat \<Rightarrow> string list \<Rightarrow> vgp_state \<Rightarrow> vgp_state option" where
  "desc_loop pe n [] ps = Some ps"
| "desc_loop pe n (buf # bufs) ps = do {
     ps \<leftarrow> (if pe_xml pe
            then map_option fst (vg_vprintf_xml (pe_ws pe) True ps (''    %s'' @ [NL]) [VaStr (Some buf)])
            else pe_message pe ps Vg_UserMsg (''   %s %s'' @ [NL])
                   [VaStr (Some (if n = 0 then ''at'' else ''by'')), VaStr (Some buf)]);
     desc_loop pe (n + 1) bufs ps
   }"

definition printIpDesc :: "print_env \<Rightarrow> nat \<Rightarrow> 32 word \<Rightarrow> Addr \<Rightarrow> vgp_state \<Rightarrow> vgp_state option" where
  "printIpDesc pe n ep ip ps = (case describe_IP (pe_dbg pe) ep ip of (d, ds) \<Rightarrow> desc_loop pe n (d # ds) ps)"

definition pp_StackTrace :: "print_env \<Rightarrow> 32 word \<Rightarrow> Addr list \<Rightarrow> vgp_state \<Rightarrow> vgp_state option" where
  "pp_StackTrace pe ep is ps =
     (if length is > 0 then do {
        ps \<leftarrow> (if pe_xml pe
               then map_option fst (vg_vprintf_xml (pe_ws pe) True ps (''  <stack>'' @ [NL]) []) else Some ps);
        ps \<leftarrow> apply_StackTrace (pe_dbg pe) (printIpDesc pe) ep is ps;
        if pe_xml pe
        then map_option fst (vg_vprintf_xml (pe_ws pe) True ps (''  </stack>'' @ [NL]) []) else Some ps
      } else None)"

definition pp_ExeContext :: "print_env \<Rightarrow> ExeContext \<Rightarrow> vgp_state \<Rightarrow> vgp_state option" where
  "pp_ExeContext pe ec ps =
     pp_StackTrace pe (get_ExeContext_epoch (current_DiEpoch (pe_dbg pe)) ec) (ips ec) ps"

definition apply_ExeContext where
  "apply_ExeContext dbg action ec s =
     apply_StackTrace dbg action (get_ExeContext_epoch (current_DiEpoch dbg) ec) (ips ec) s"

section \<open>Formats\<close>

lemma directive_s: "directive xml (CHR ''s'' # f) (VaStr (Some s) # v) =
   Some (s, of_nat (length s), f, v)"
  by (simp add: directive_defs has_def NUL_def schar_def case_prod_unfold Let_def myvprintf_str_def
      vg_strlen_length)

lemma vprintf_s: "debugLog_vprintf xml (CHR ''%'' # CHR ''s'' # f) (VaStr (Some s) # v) =
   map_option (\<lambda>(out, ret). (s @ out, of_nat (length s) + ret)) (debugLog_vprintf xml f v)"
  by (subst vprintf_directive [OF _ _ directive_s]) (simp_all add: NUL_def)

lemma directive_lu: "directive xml (CHR ''l'' # CHR ''u'' # f) (VaLong x # v) =
   Some (num 10 False (unat x), of_nat (length (num 10 False (unat x))), f, v)"
  by (simp add: directive_defs has_def NUL_def schar_def case_prod_unfold Let_def int64_unsigned)

lemma vprintf_lu: "debugLog_vprintf xml (CHR ''%'' # CHR ''l'' # CHR ''u'' # f) (VaLong x # v) =
   (let r = num 10 False (unat x)
    in map_option (\<lambda>(out, ret). (r @ out, of_nat (length r) + ret)) (debugLog_vprintf xml f v))"
  by (subst vprintf_directive [OF _ _ directive_lu]) (simp_all add: NUL_def Let_def)

lemma directive_llu: "directive xml (CHR ''l'' # CHR ''l'' # CHR ''u'' # f) (VaLong x # v) =
   Some (num 10 False (unat x), of_nat (length (num 10 False (unat x))), f, v)"
  by (simp add: directive_defs has_def NUL_def schar_def case_prod_unfold Let_def int64_unsigned)

lemma vprintf_llu: "debugLog_vprintf xml (CHR ''%'' # CHR ''l'' # CHR ''l'' # CHR ''u'' # f) (VaLong x # v) =
   (let r = num 10 False (unat x)
    in map_option (\<lambda>(out, ret). (r @ out, of_nat (length r) + ret)) (debugLog_vprintf xml f v))"
  by (subst vprintf_directive [OF _ _ directive_llu]) (simp_all add: NUL_def Let_def)

lemmas vprintf_formats = vprintf_s vprintf_lx vprintf_lu vprintf_llu vprintf_lld vprintf_d vprintf_lit

section \<open>What is printed\<close>

text \<open>Between two lines: nothing is buffered, and \<open>t\<close> has been delivered to the log sink.\<close>

definition printing :: "vgp_state \<Rightarrow> string \<Rightarrow> bool" where
  "printing ps t \<longleftrightarrow> vb_buf (ps_msg ps) = [] \<and> vb_atLeft (ps_msg ps) \<and>
     sink_on (vb_io (ps_msg ps)) \<and> emitted (vb_io (ps_msg ps)) = t"

lemma printf_out:
  assumes "printing ps t" "debugLog_vprintf (pe_xml pe) f v = Some (out, r)"
  shows "\<exists>ps'. pe_printf pe ps f v = Some ps' \<and> printing ps' (t @ out)"
proof -
  from vprintf_WRK_emits [OF _ assms(2), of "vb_io (ps_msg ps)" "pe_ws pe"] assms(1) obtain io where
    "vprintf_WRK (pe_ws pe) (pe_xml pe) (vb_io (ps_msg ps)) f v = Some (io, r)"
    "emitted io = t @ out" "sink_on io" by (auto simp: printing_def)
  with assms(1) show ?thesis by (simp add: pe_printf_def vg_printf_def vg_vprintf_def printing_def)
qed

definition upre :: "print_env \<Rightarrow> string" where
  "upre pe = the (preamble (pe_msg pe) Vg_UserMsg)"

lemma umsg_out:
  assumes "printing ps t" "debugLog_vprintf (pe_xml pe) f v = Some (out, r)" "out \<noteq> []" "last out = NL"
  shows "\<exists>ps'. pe_umsg pe ps f v = Some ps' \<and> printing ps' (t @ with_preambles (upre pe) True out)"
proof -
  have "msg_rel (vb_kind (ps_msg ps)) (ps_msg ps) (t, True)"
    using assms(1) by (simp add: printing_def msg_rel_def)
  from vmessage_emits [OF this assms(2), of "pe_ws pe" "pe_msg pe" Vg_UserMsg] obtain b where
    "vg_vmessage (pe_ws pe) (pe_xml pe) (pe_msg pe) (ps_msg ps) Vg_UserMsg f v = Some (b, r)"
    "msg_rel Vg_UserMsg b (t @ with_preambles (upre pe) True out, True)" "vb_atLeft b \<longrightarrow> vb_buf b = []"
    using assms(3,4) by (auto simp: msg_spec_run upre_def)
  then show ?thesis
    by (auto simp: pe_umsg_def vg_umsg_def vg_message_def printing_def msg_rel_def)
qed

fun desc_text :: "string \<Rightarrow> nat \<Rightarrow> string list \<Rightarrow> string" where
  "desc_text pre n [] = []"
| "desc_text pre n (buf # bufs) =
     with_preambles pre True (''   '' @ (if n = 0 then ''at'' else ''by'') @ '' '' @ buf @ [NL]) @
     desc_text pre (n + 1) bufs"

fun frames_text :: "debug_info \<Rightarrow> string \<Rightarrow> 32 word \<Rightarrow> nat \<Rightarrow> Addr list \<Rightarrow> string" where
  "frames_text dbg pre ep n [] = []"
| "frames_text dbg pre ep n (ip # is) =
     desc_text pre n (fst (describe_IP dbg ep ip) # snd (describe_IP dbg ep ip)) @
     frames_text dbg pre ep (n + 1) is"

text \<open>The text of a trace of the current epoch.\<close>

definition trace_text :: "print_env \<Rightarrow> Addr list \<Rightarrow> string" where
  "trace_text pe is =
     (let dbg = pe_dbg pe; ep = current_DiEpoch dbg
      in frames_text dbg (upre pe) ep 0 (shown_ips dbg ep is))"

lemma desc_loop_out:
  "\<not> pe_xml pe \<Longrightarrow> printing ps t \<Longrightarrow>
   \<exists>ps'. desc_loop pe n bufs ps = Some ps' \<and> printing ps' (t @ desc_text (upre pe) n bufs)"
proof (induction bufs arbitrary: n ps t)
  case (Cons buf bufs)
  define w where "w = (if n = 0 then ''at'' else ''by'')"
  have "debugLog_vprintf (pe_xml pe) (''   %s %s'' @ [NL]) [VaStr (Some w), VaStr (Some buf)] =
      Some (''   '' @ w @ '' '' @ buf @ [NL], 5 + of_nat (length w) + of_nat (length buf))"
    by (simp add: vprintf_s vprintf_lit NUL_def)
  from umsg_out [OF Cons.prems(2) this] obtain ps1 where
    p: "pe_umsg pe ps (''   %s %s'' @ [NL]) [VaStr (Some w), VaStr (Some buf)] = Some ps1"
    "printing ps1 (t @ with_preambles (upre pe) True (''   '' @ w @ '' '' @ buf @ [NL]))" by auto
  have "pe_message pe ps Vg_UserMsg (''   %s %s'' @ [NL]) [VaStr (Some w), VaStr (Some buf)] = Some ps1"
    using p(1) by (simp only: pe_umsg_def vg_umsg_def pe_message_def)
  with Cons.IH [OF Cons.prems(1) p(2), of "n + 1"] Cons.prems(1) show ?case
    by (simp add: w_def)
qed simp

lemma apply_loop_out:
  "\<not> pe_xml pe \<Longrightarrow> printing ps t \<Longrightarrow>
   \<exists>ps'. apply_loop (\<lambda>n ip. printIpDesc pe n ep ip) n is ps = Some ps' \<and>
     printing ps' (t @ frames_text (pe_dbg pe) (upre pe) ep n is)"
proof (induction "is" arbitrary: n ps t)
  case (Cons ip "is")
  obtain d ds where d: "describe_IP (pe_dbg pe) ep ip = (d, ds)" by (cases "describe_IP (pe_dbg pe) ep ip")
  from desc_loop_out [OF Cons.prems, of n "d # ds"] obtain ps1 where
    p: "desc_loop pe n (d # ds) ps = Some ps1" "printing ps1 (t @ desc_text (upre pe) n (d # ds))" by blast
  from Cons.IH [OF Cons.prems(1) p(2), of "n + 1"] p(1) d show ?case
    by (auto simp: printIpDesc_def simp del: desc_text.simps desc_loop.simps)
qed simp

text \<open>Printing a recorded context delivers the text of its trace.\<close>

lemma pp_ExeContext_out:
  assumes "\<not> pe_xml pe" "printing ps t" "matches h is e"
  shows "\<exists>ec ps'. h e = Some ec \<and> (is \<noteq> [] \<longrightarrow> pp_ExeContext pe ec ps = Some ps' \<and> printing ps' (t @ trace_text pe is))"
proof -
  obtain ec where ec: "h e = Some ec" "ips ec = is" "epoch ec = 0" using assms(3) by (auto simp: matches_def)
  from apply_loop_out [OF assms(1,2), of "current_DiEpoch (pe_dbg pe)" 0 "shown_ips (pe_dbg pe) (current_DiEpoch (pe_dbg pe)) is"]
  obtain ps' where "apply_loop (\<lambda>n ip. printIpDesc pe n (current_DiEpoch (pe_dbg pe)) ip) 0
      (shown_ips (pe_dbg pe) (current_DiEpoch (pe_dbg pe)) is) ps = Some ps'"
    "printing ps' (t @ trace_text pe is)" by (auto simp: trace_text_def Let_def)
  with ec assms(1) show ?thesis
    by (auto simp: pp_ExeContext_def pp_StackTrace_def apply_StackTrace_def get_ExeContext_epoch_def
        is_DiEpoch_INVALID_def)
qed

end
