(* ===== verification/Ml_Blocks.thy ===== *)
theory Ml_Blocks
  imports Rb_Index
begin

text \<open>
  Block tracking of \<^verbatim>\<open>memlog/ml_main.c\<close>: the \<^verbatim>\<open>Block\<close> structures, the tree \<^verbatim>\<open>tracked_blocks\<close> whose
  nodes point to them, the look-up of the block that contains an address, removal, and the
  release of the whole tree at exit. Blocks live in a store of their own; releasing one that is
  not allocated is a fault. The components are related to a sorted list of the tracked blocks.
\<close>

section \<open>Operations\<close>

record Block =
  payload :: Addr
  req_szB :: SizeT
  alloc_ec :: ptr
  mx :: bool

record block_state =
  tracked_blocks :: "ptr rb_store"
  blks :: "nat \<rightharpoonup> Block"

definition no_blocks :: block_state where
  "no_blocks = \<lparr>tracked_blocks = RB_ROOT, blks = Map.empty\<rparr>"

text \<open>\<open>b\<close> is the address of the block, \<open>a\<close> the one \<^verbatim>\<open>VG_(malloc)\<close> gives for the node.\<close>

definition insert_block_rb :: "block_state \<Rightarrow> nat \<Rightarrow> nat \<Rightarrow> block_state option" where
  "insert_block_rb st b a = do {
     bk \<leftarrow> blks st b;
     s \<leftarrow> index_insert (tracked_blocks st) (payload bk) (Some b) a;
     Some (st\<lparr>tracked_blocks := s\<rparr>)
   }"

definition find_block_containing :: "block_state \<Rightarrow> Addr \<Rightarrow> ptr option" where
  "find_block_containing st addr = do {
     n \<leftarrow> index_leq (tracked_blocks st) addr;
     case n of
       None \<Rightarrow> Some None
     | Some bp \<Rightarrow> do {
         b \<leftarrow> bp;
         bk \<leftarrow> blks st b;
         if addr < payload bk + req_szB bk then Some (Some b) else Some None
       }
   }"

definition is_tracked :: "block_state \<Rightarrow> Addr \<Rightarrow> bool option" where
  "is_tracked st addr = map_option (\<lambda>p. p \<noteq> None) (find_block_containing st addr)"

definition free_block :: "block_state \<Rightarrow> nat \<Rightarrow> block_state option" where
  "free_block st b = (if blks st b = None then None else Some (st\<lparr>blks := (blks st)(b := None)\<rparr>))"

text \<open>\<^verbatim>\<open>rb_delete\<close>, \<^verbatim>\<open>VG_(free)(deleted)\<close> and \<^verbatim>\<open>VG_(free)(bk)\<close>.\<close>

definition remove_block :: "block_state \<Rightarrow> nat \<Rightarrow> block_state option" where
  "remove_block st b = do {
     bk \<leftarrow> blks st b;
     s \<leftarrow> index_delete (tracked_blocks st) (payload bk);
     free_block (st\<lparr>tracked_blocks := s\<rparr>) b
   }"

partial_function (option) free_rb_tree_recursive :: "block_state \<Rightarrow> ptr \<Rightarrow> block_state option" where
  "free_rb_tree_recursive st node =
     (case node of
        None \<Rightarrow> Some st
      | Some a \<Rightarrow> do {
          n \<leftarrow> nodes (tracked_blocks st) a;
          st \<leftarrow> free_rb_tree_recursive st (n_left n);
          n \<leftarrow> nodes (tracked_blocks st) a;
          st \<leftarrow> free_rb_tree_recursive st (n_right n);
          n \<leftarrow> nodes (tracked_blocks st) a;
          st \<leftarrow> (case n_data n of None \<Rightarrow> Some st | Some b \<Rightarrow> free_block st b);
          Some (st\<lparr>tracked_blocks := free_node (tracked_blocks st) a\<rparr>)
        })"

definition free_rb_tree :: "block_state \<Rightarrow> block_state option" where
  "free_rb_tree st = do {
     st \<leftarrow> free_rb_tree_recursive st (root (tracked_blocks st));
     Some (st\<lparr>tracked_blocks := (tracked_blocks st)\<lparr>root := None\<rparr>\<rparr>)
   }"

declare free_rb_tree_recursive.simps [code]

section \<open>The tracked blocks as a sorted list\<close>

text \<open>
  \<open>es\<close> gives for each tracked start address the block it is for. \<open>holds_blocks st es\<close> says that
  the tree holds these entries and that they point to different blocks that start there.
\<close>

definition holds_blocks :: "block_state \<Rightarrow> (Addr \<times> nat) list \<Rightarrow> bool" where
  "holds_blocks st es \<longleftrightarrow>
     rb_index (tracked_blocks st) (map (\<lambda>(k, b). (k, Some b)) es) \<and> distinct (map snd es) \<and>
     (\<forall>k b. (k, b) \<in> set es \<longrightarrow> map_option payload (blks st b) = Some k)"

text \<open>The tracked blocks themselves, in order, and the look-up in that list.\<close>

definition blocks_of :: "block_state \<Rightarrow> (Addr \<times> nat) list \<Rightarrow> (Addr \<times> Block) list" where
  "blocks_of st es = map (\<lambda>(k, b). (k, the (blks st b))) es"

definition block_at :: "(Addr \<times> Block) list \<Rightarrow> Addr \<Rightarrow> Block option" where
  "block_at bl addr =
     (case leq_entry addr bl of
        None \<Rightarrow> None
      | Some (k, bk) \<Rightarrow> if addr < k + req_szB bk then Some bk else None)"

lemma map_leq_entry:
  "leq_entry k (map (\<lambda>(k, b). (k, f b)) es) = map_option (\<lambda>(k, b). (k, f b)) (leq_entry k es)"
  by (induction es) (auto split: option.splits)

lemma map_ins_entry:
  "ins_entry k (f b) (map (\<lambda>(k, b). (k, f b)) es) = map (\<lambda>(k, b). (k, f b)) (ins_entry k b es)"
  by (induction es) auto

lemma map_del_entry:
  "del_entry k (map (\<lambda>(k, b). (k, f b)) es) = map (\<lambda>(k, b). (k, f b)) (del_entry k es)"
  by (induction es) auto

lemma map_fst_pairs: "map fst (map (\<lambda>(k, b). (k, f b)) es) = map fst es"
  by (induction es) auto

lemma holds_sorted: "holds_blocks st es \<Longrightarrow> skeys es"
  using rbi.holds_sorted [of "tracked_blocks st" "map (\<lambda>(k, b). (k, Some b)) es"]
  unfolding holds_blocks_def map_fst_pairs by blast

lemma holds_empty: "holds_blocks no_blocks []"
  using rb_index_empty by (simp add: holds_blocks_def no_blocks_def)

lemma find_block_ok:
  assumes "holds_blocks st es"
  shows "find_block_containing st addr =
     Some (case leq_entry addr es of None \<Rightarrow> None | Some (k, b) \<Rightarrow>
       if addr < k + req_szB (the (blks st b)) then Some b else None)"
proof -
  have q: "index_leq (tracked_blocks st) addr = Some (map_option (\<lambda>(k, b). Some b) (leq_entry addr es))"
    using assms rbi.leq_law [of "tracked_blocks st" "map (\<lambda>(k, b). (k, Some b)) es" addr]
    by (cases "leq_entry addr es") (auto simp: holds_blocks_def map_leq_entry)
  show ?thesis
  proof (cases "leq_entry addr es")
    case (Some e)
    obtain k b where e: "e = (k, b)" by (cases e)
    then have "(k, b) \<in> set es" using Some leq_entry_Some [OF holds_sorted [OF assms]] by blast
    then obtain bk where "blks st b = Some bk" "payload bk = k"
      using assms by (auto simp: holds_blocks_def)
    with q Some e show ?thesis by (simp add: find_block_containing_def)
  qed (simp add: find_block_containing_def q)
qed

lemma find_block_at:
  assumes "holds_blocks st es"
  shows "\<exists>p. find_block_containing st addr = Some p \<and>
     block_at (blocks_of st es) addr = (case p of None \<Rightarrow> None | Some b \<Rightarrow> blks st b) \<and>
     (\<forall>b. p = Some b \<longrightarrow> b \<in> snd ` set es \<and> blks st b \<noteq> None)"
proof -
  have "b \<in> snd ` set es \<and> (\<exists>bk. blks st b = Some bk)" if "leq_entry addr es = Some (k, b)" for k b
  proof -
    have "(k, b) \<in> set es" using that leq_entry_Some [OF holds_sorted [OF assms]] by blast
    with assms show ?thesis unfolding holds_blocks_def by force
  qed
  then show ?thesis
    by (auto simp: find_block_ok [OF assms] block_at_def blocks_of_def map_leq_entry split: option.splits)
qed

lemma distinct_ins:
  "distinct (map snd es) \<Longrightarrow> b \<notin> snd ` set es \<Longrightarrow> skeys es \<Longrightarrow> distinct (map snd (ins_entry k b es))"
  by (induction es) (auto simp: set_ins_entry)

lemma insert_block_ok:
  assumes "holds_blocks st es" "blks st b = Some bk" "b \<notin> snd ` set es"
    "nodes (tracked_blocks st) a = None"
  shows "\<exists>st'. insert_block_rb st b a = Some st' \<and> blks st' = blks st \<and>
     holds_blocks st' (ins_entry (payload bk) b es)"
proof -
  let ?m = "\<lambda>es. map (\<lambda>(k, b). (k, Some b)) es"
  from assms(1) have rb: "rb_index (tracked_blocks st) (?m es)" by (simp add: holds_blocks_def)
  from rbi.ins_law [OF rb assms(4), of "payload bk" "Some b"] obtain s' where
    s: "index_insert (tracked_blocks st) (payload bk) (Some b) a = Some s'"
    "rb_index s' (?m (ins_entry (payload bk) b es))" by (auto simp: map_ins_entry)
  have so: "skeys es" using holds_sorted [OF assms(1)] .
  have "distinct (map snd (ins_entry (payload bk) b es))"
    using assms(1) distinct_ins [OF _ assms(3) so] unfolding holds_blocks_def by blast
  moreover have "map_option payload (blks st c) = Some k" if "(k, c) \<in> set (ins_entry (payload bk) b es)" for k c
    using that assms(1,2) by (auto simp: set_ins_entry [OF so] holds_blocks_def split: if_splits)
  ultimately have "holds_blocks (st\<lparr>tracked_blocks := s'\<rparr>) (ins_entry (payload bk) b es)"
    using s(2) by (simp add: holds_blocks_def)
  with s(1) assms(2) show ?thesis by (simp add: insert_block_rb_def)
qed

lemma remove_block_ok:
  assumes "holds_blocks st es" "(k, b) \<in> set es"
  shows "\<exists>s. remove_block st b = Some (st\<lparr>tracked_blocks := s, blks := (blks st)(b := None)\<rparr>) \<and>
     holds_blocks (st\<lparr>tracked_blocks := s, blks := (blks st)(b := None)\<rparr>) (del_entry k es)"
proof -
  let ?m = "\<lambda>es. map (\<lambda>(k, b). (k, Some b)) es"
  from assms obtain bk where bk: "blks st b = Some bk" "payload bk = k" by (auto simp: holds_blocks_def)
  from assms(1) have rb: "rb_index (tracked_blocks st) (?m es)" and d: "distinct (map snd es)"
    by (simp_all add: holds_blocks_def)
  from rbi.del_law [OF rb, of k] obtain s where
    s: "index_delete (tracked_blocks st) k = Some s" "rb_index s (?m (del_entry k es))"
    by (auto simp: map_del_entry)
  have "c \<noteq> b" if "(k', c) \<in> set (del_entry k es)" for k' c
    using that d assms(2) inj_onD [of snd "set es" "(k', c)" "(k, b)"]
    by (auto simp: set_del_entry distinct_map)
  moreover have "distinct (map snd (del_entry k es))"
    using d by (simp add: del_entry_def distinct_map inj_on_def)
  ultimately have "holds_blocks (st\<lparr>tracked_blocks := s, blks := (blks st)(b := None)\<rparr>) (del_entry k es)"
    using s(2) assms(1) by (auto simp: holds_blocks_def set_del_entry)
  with s(1) bk show ?thesis by (intro exI [of _ s]) (simp add: remove_block_def free_block_def)
qed

section \<open>Releasing the tree\<close>

text \<open>The blocks the nodes of a tree point to.\<close>

fun tree_data :: "ptr rbt \<Rightarrow> nat list" where
  "tree_data Leaf = []"
| "tree_data (Node c l a k d r) = tree_data l @ (case d of None \<Rightarrow> [] | Some b \<Rightarrow> [b]) @ tree_data r"

definition without :: "('k \<rightharpoonup> 'v) \<Rightarrow> 'k set \<Rightarrow> ('k \<rightharpoonup> 'v)" where
  "without m A = (\<lambda>x. if x \<in> A then None else m x)"

lemma without_empty [simp]: "without m {} = m"
  by (simp add: without_def)

lemma without_without: "without (without m A) B = without m (A \<union> B)"
  by (auto simp: without_def)

lemma without_upd: "(without m A)(x := None) = without m (insert x A)"
  by (auto simp: without_def)

lemma free_rec_ok:
  "rep_tree (nodes (tracked_blocks st)) p t \<Longrightarrow> distinct (addrs t) \<Longrightarrow> distinct (tree_data t) \<Longrightarrow>
   (\<forall>b\<in>set (tree_data t). blks st b \<noteq> None) \<Longrightarrow>
   free_rb_tree_recursive st (root_ptr t) =
     Some (st\<lparr>tracked_blocks := (tracked_blocks st)\<lparr>nodes := without (nodes (tracked_blocks st)) (set (addrs t))\<rparr>,
              blks := without (blks st) (set (tree_data t))\<rparr>)"
proof (induction t arbitrary: st p)
  case Leaf
  then show ?case by (subst free_rb_tree_recursive.simps) simp
next
  case (Node c l a k d r)
  let ?h = "nodes (tracked_blocks st)"
  define n where "n = \<lparr>n_parent = p, n_left = root_ptr l, n_right = root_ptr r, n_color = c, n_key = k, n_data = d\<rparr>"
  have n: "?h a = Some n" and l: "rep_tree ?h (Some a) l" and r: "rep_tree ?h (Some a) r"
    using Node.prems(1) by (simp_all add: n_def)
  define st1 where "st1 = st\<lparr>tracked_blocks := (tracked_blocks st)\<lparr>nodes := without ?h (set (addrs l))\<rparr>,
    blks := without (blks st) (set (tree_data l))\<rparr>"
  have 1: "free_rb_tree_recursive st (root_ptr l) = Some st1"
    using Node.IH(1) [OF l] Node.prems(2-4) by (simp add: st1_def)
  have n1: "nodes (tracked_blocks st1) a = Some n" using n Node.prems(2) by (simp add: st1_def without_def)
  have r1: "rep_tree (nodes (tracked_blocks st1)) (Some a) r"
    using r Node.prems(2) by (subst rep_tree_cong [where h' = ?h]) (auto simp: st1_def without_def)
  define st2 where "st2 = st\<lparr>tracked_blocks := (tracked_blocks st)\<lparr>nodes := without ?h (set (addrs l) \<union> set (addrs r))\<rparr>,
    blks := without (blks st) (set (tree_data l) \<union> set (tree_data r))\<rparr>"
  have dd: "distinct (tree_data r)" "\<forall>b\<in>set (tree_data r). blks st1 b \<noteq> None"
    using Node.prems(3,4) by (auto simp: st1_def without_def)
  have 2: "free_rb_tree_recursive st1 (root_ptr r) = Some st2"
    using Node.IH(2) [OF r1 _ dd] Node.prems(2) by (simp add: st1_def st2_def without_without)
  have n2: "nodes (tracked_blocks st2) a = Some n" using n Node.prems(2) by (simp add: st2_def without_def)
  show ?case
  proof (cases d)
    case None
    then show ?thesis
      using n 1 n1 2 n2
      by (subst free_rb_tree_recursive.simps)
        (simp add: n_def st2_def free_node_def without_upd insert_commute)
  next
    case (Some b)
    then have "blks st2 b \<noteq> None" using Node.prems(3,4) by (auto simp: st2_def without_def)
    then show ?thesis
      using n 1 n1 2 n2 Some
      by (subst free_rb_tree_recursive.simps)
        (simp add: n_def st2_def free_node_def free_block_def without_upd insert_commute Un_insert_left)
  qed
qed

lemma tree_data_entries: "tree_data t = concat (map (\<lambda>(k, d). case d of None \<Rightarrow> [] | Some b \<Rightarrow> [b]) (entries t))"
  by (induction t) auto

text \<open>All nodes and all tracked blocks are released, each once; the other blocks stay.\<close>

lemma free_tree_ok:
  assumes "holds_blocks st es"
  shows "free_rb_tree st = Some \<lparr>tracked_blocks = RB_ROOT, blks = without (blks st) (snd ` set es)\<rparr>"
proof -
  obtain t where t: "rep Map.empty (tracked_blocks st) t []" "entries t = map (\<lambda>(k, b). (k, Some b)) es"
    using assms by (auto simp: holds_blocks_def rb_index_def)
  have td: "tree_data t = map snd es"
    unfolding tree_data_entries t(2) by (induction es) auto
  have rt: "rep_tree (nodes (tracked_blocks st)) None t" "root (tracked_blocks st) = root_ptr t"
    "distinct (addrs t)" "\<forall>x. x \<notin> set (addrs t) \<longrightarrow> nodes (tracked_blocks st) x = None"
    using t(1) by (simp_all add: rep_def)
  have "blks st b \<noteq> None" if "(k, b) \<in> set es" for k b
    using assms that unfolding holds_blocks_def by force
  then have "\<forall>e\<in>set es. blks st (snd e) \<noteq> None" by (metis prod.collapse)
  then have al: "distinct (tree_data t)" "\<forall>b\<in>set (tree_data t). blks st b \<noteq> None"
    using assms unfolding td set_map by (simp_all add: holds_blocks_def)
  have "without (nodes (tracked_blocks st)) (set (addrs t)) = Map.empty"
    using rt(4) by (auto simp: without_def)
  with free_rec_ok [OF rt(1,3) al] rt(2) td show ?thesis
    by (simp add: free_rb_tree_def RB_ROOT_def)
qed

section \<open>Properties\<close>

text \<open>Blocks that do not overlap and do not end at the top of the address space.\<close>

definition disjoint_blocks :: "(Addr \<times> Block) list \<Rightarrow> bool" where
  "disjoint_blocks bl \<longleftrightarrow>
     list_all (\<lambda>(k, bk). unat k + unat (req_szB bk) < 2 ^ 64 \<and>
       list_all (\<lambda>(k', bk'). k < k' \<longrightarrow> unat k + unat (req_szB bk) \<le> unat k') bl) bl"

lemma end_less: "unat k + unat sz < 2 ^ 64 \<Longrightarrow> addr < k + sz \<longleftrightarrow> unat addr < unat k + unat sz" for addr k sz :: "64 word"
  by (simp add: word_less_nat_alt unat_plus_if')

lemma block_at_iff:
  assumes "skeys bl" "disjoint_blocks bl"
  shows "block_at bl addr = Some bk \<longleftrightarrow>
     (\<exists>k. (k, bk) \<in> set bl \<and> k \<le> addr \<and> unat addr < unat k + unat (req_szB bk))"
proof -
  have e: "addr < k + req_szB b \<longleftrightarrow> unat addr < unat k + unat (req_szB b)" if "(k, b) \<in> set bl" for k b
    using assms(2) that by (intro end_less) (auto simp: disjoint_blocks_def list_all_iff)
  have sep: "unat k + unat (req_szB b) \<le> unat k'" if "(k, b) \<in> set bl" "(k', b') \<in> set bl" "k < k'" for k b k' b'
    using assms(2) that by (fastforce simp: disjoint_blocks_def list_all_iff)
  show ?thesis
  proof
    assume "block_at bl addr = Some bk"
    then obtain k where k: "leq_entry addr bl = Some (k, bk)" "addr < k + req_szB bk"
      by (auto simp: block_at_def split: option.splits if_splits)
    then have "(k, bk) \<in> set bl" "k \<le> addr" using leq_entry_Some [OF assms(1), of addr "(k, bk)"] by auto
    with k(2) e show "\<exists>k. (k, bk) \<in> set bl \<and> k \<le> addr \<and> unat addr < unat k + unat (req_szB bk)" by blast
  next
    assume "\<exists>k. (k, bk) \<in> set bl \<and> k \<le> addr \<and> unat addr < unat k + unat (req_szB bk)"
    then obtain k where k: "(k, bk) \<in> set bl" "k \<le> addr" "unat addr < unat k + unat (req_szB bk)" by blast
    have "fst x \<le> k" if x: "x \<in> set bl" "fst x \<le> addr" for x
    proof (rule ccontr)
      assume "\<not> fst x \<le> k"
      then have "unat k + unat (req_szB bk) \<le> unat (fst x)" using sep [OF k(1), of "fst x" "snd x"] x(1) by simp
      with k(3) x(2) show False by (simp add: word_le_nat_alt)
    qed
    then have "leq_entry addr bl = Some (k, bk)" using k(1,2) leq_entry_Some [OF assms(1), of addr "(k, bk)"] by auto
    with k e show "block_at bl addr = Some bk" by (simp add: block_at_def)
  qed
qed

text \<open>A store with three tracked blocks, the second inside the first.\<close>

definition sample_insert :: "block_state \<Rightarrow> nat \<Rightarrow> Addr \<Rightarrow> SizeT \<Rightarrow> block_state option" where
  "sample_insert st b k sz =
     insert_block_rb (st\<lparr>blks := (blks st)(b \<mapsto> \<lparr>payload = k, req_szB = sz, alloc_ec = None, mx = False\<rparr>)\<rparr>) b b"

definition sample_blocks :: block_state where
  "sample_blocks = the (do {
     st \<leftarrow> sample_insert no_blocks 4 100 50;
     st \<leftarrow> sample_insert st 2 200 10;
     sample_insert st 3 120 10 })"

lemma sample_insert_ok:
  assumes "holds_blocks st es" "b \<notin> snd ` set es" "nodes (tracked_blocks st) b = None"
  shows "\<exists>st'. sample_insert st b k sz = Some st' \<and> holds_blocks st' (ins_entry k b es) \<and>
     blks st' = (blks st)(b \<mapsto> \<lparr>payload = k, req_szB = sz, alloc_ec = None, mx = False\<rparr>)"
proof -
  let ?st = "st\<lparr>blks := (blks st)(b \<mapsto> \<lparr>payload = k, req_szB = sz, alloc_ec = None, mx = False\<rparr>)\<rparr>"
  have "holds_blocks ?st es" using assms(1,2) by (force simp: holds_blocks_def)
  from insert_block_ok [OF this _ assms(2), of "\<lparr>payload = k, req_szB = sz, alloc_ec = None, mx = False\<rparr>" b]
    assms(3) show ?thesis by (auto simp: sample_insert_def)
qed


lemma sample_holds:
  "holds_blocks sample_blocks [(100, 4), (120, 3), (200, 2)]"
  "blks sample_blocks = [4 \<mapsto> \<lparr>payload = 100, req_szB = 50, alloc_ec = None, mx = False\<rparr>,
     2 \<mapsto> \<lparr>payload = 200, req_szB = 10, alloc_ec = None, mx = False\<rparr>,
     3 \<mapsto> \<lparr>payload = 120, req_szB = 10, alloc_ec = None, mx = False\<rparr>]"
proof -
  obtain s1 where 1: "sample_insert no_blocks 4 100 50 = Some s1" "holds_blocks s1 [(100, 4)]"
    "blks s1 = [4 \<mapsto> \<lparr>payload = 100, req_szB = 50, alloc_ec = None, mx = False\<rparr>]"
    using sample_insert_ok [OF holds_empty, of 4 100 50] by (auto simp: no_blocks_def RB_ROOT_def)
  have "nodes (tracked_blocks (the (sample_insert no_blocks 4 100 50))) 2 = None" by code_simp
  then obtain s2 where 2: "sample_insert s1 2 200 10 = Some s2" "holds_blocks s2 [(100, 4), (200, 2)]"
    "blks s2 = (blks s1)(2 \<mapsto> \<lparr>payload = 200, req_szB = 10, alloc_ec = None, mx = False\<rparr>)"
    using sample_insert_ok [OF 1(2), of 2 200 10] 1(1) by auto
  have "nodes (tracked_blocks (the (sample_insert no_blocks 4 100 50 \<bind> (\<lambda>st. sample_insert st 2 200 10)))) 3 = None"
    by code_simp
  then have "nodes (tracked_blocks s2) 3 = None" by (simp add: 1(1) 2(1))
  then obtain s3 where "sample_insert s2 3 120 10 = Some s3" "holds_blocks s3 [(100, 4), (120, 3), (200, 2)]"
    "blks s3 = (blks s2)(3 \<mapsto> \<lparr>payload = 120, req_szB = 10, alloc_ec = None, mx = False\<rparr>)"
    using sample_insert_ok [OF 2(2), of 3 120 10] by auto
  with 1 2 show "holds_blocks sample_blocks [(100, 4), (120, 3), (200, 2)]"
    "blks sample_blocks = [4 \<mapsto> \<lparr>payload = 100, req_szB = 50, alloc_ec = None, mx = False\<rparr>,
     2 \<mapsto> \<lparr>payload = 200, req_szB = 10, alloc_ec = None, mx = False\<rparr>,
     3 \<mapsto> \<lparr>payload = 120, req_szB = 10, alloc_ec = None, mx = False\<rparr>]"
    by (simp_all add: sample_blocks_def)
qed

text \<open>
  C21. When the tracked blocks do not overlap, \<^verbatim>\<open>find_block_containing\<close> returns exactly the tracked
  block whose address range contains the address, and \<^verbatim>\<open>NULL\<close> when there is none.
\<close>

theorem find_block_correct:
  assumes "holds_blocks st es" "disjoint_blocks (blocks_of st es)"
  shows "\<exists>p. find_block_containing st addr = Some p \<and>
     (\<forall>b. p = Some b \<longleftrightarrow> (\<exists>k bk. (k, b) \<in> set es \<and> blks st b = Some bk \<and>
        unat k \<le> unat addr \<and> unat addr < unat k + unat (req_szB bk)))"
proof -
  have so: "skeys es" using holds_sorted [OF assms(1)] .
  then have sb: "skeys (blocks_of st es)" unfolding blocks_of_def map_fst_pairs .
  obtain p where p: "find_block_containing st addr = Some p"
    "block_at (blocks_of st es) addr = (case p of None \<Rightarrow> None | Some b \<Rightarrow> blks st b)"
    "\<And>b. p = Some b \<Longrightarrow> b \<in> snd ` set es \<and> blks st b \<noteq> None"
    using find_block_at [OF assms(1), of addr] by blast
  have pay: "map_option payload (blks st b) = Some k" if "(k, b) \<in> set es" for k b
    using assms(1) that by (simp add: holds_blocks_def)
  note iff = block_at_iff [OF sb assms(2), of addr]
  have "p = Some b" if "(k, b) \<in> set es" "blks st b = Some bk" "unat k \<le> unat addr"
      "unat addr < unat k + unat (req_szB bk)" for b k bk
  proof -
    have "(k, bk) \<in> set (blocks_of st es)" using that(1,2) by (force simp: blocks_of_def)
    then have "block_at (blocks_of st es) addr = Some bk"
      using iff [of bk] that(3,4) by (auto simp: word_le_nat_alt)
    with p(2) obtain c where c: "p = Some c" "blks st c = Some bk" by (auto split: option.splits)
    with p(3) obtain k' where "(k', c) \<in> set es" by auto
    with pay [OF this] pay [OF that(1)] c(2) that(2) have "(k, c) \<in> set es" by simp
    moreover have "distinct (map fst es)" using so by (simp add: strict_sorted_iff)
    ultimately have "b = c" using eq_key_imp_eq_value [of es k b c] that(1) by blast
    then show ?thesis using c(1) by simp
  qed
  moreover have "\<exists>k bk. (k, b) \<in> set es \<and> blks st b = Some bk \<and> unat k \<le> unat addr \<and>
      unat addr < unat k + unat (req_szB bk)" if b: "p = Some b" for b
  proof -
    obtain bk where bk: "blks st b = Some bk" "block_at (blocks_of st es) addr = Some bk" using p(2,3) b by auto
    then obtain k where k: "(k, bk) \<in> set (blocks_of st es)" "k \<le> addr" "unat addr < unat k + unat (req_szB bk)"
      using iff by blast
    then obtain c where "(k, c) \<in> set es" "the (blks st c) = bk" by (auto simp: blocks_of_def)
    with pay [OF this(1)] have "payload bk = k" by auto
    moreover obtain k' where "(k', b) \<in> set es" using p(3) [OF b] by auto
    with pay [OF this] bk(1) calculation have "(k, b) \<in> set es" by simp
    ultimately show ?thesis using bk(1) k by (auto simp: word_le_nat_alt)
  qed
  ultimately show ?thesis using p(1) by blast
qed

theorem find_block_correct_witness:
  "\<exists>p. find_block_containing (the (sample_insert no_blocks 4 100 50)) 120 = Some p \<and> p = Some 4"
proof -
  obtain s1 where 1: "sample_insert no_blocks 4 100 50 = Some s1" "holds_blocks s1 [(100, 4)]"
    "blks s1 = [4 \<mapsto> \<lparr>payload = 100, req_szB = 50, alloc_ec = None, mx = False\<rparr>]"
    using sample_insert_ok [OF holds_empty, of 4 100 50] by (auto simp: no_blocks_def RB_ROOT_def)
  then have "disjoint_blocks (blocks_of s1 [(100, 4)])" by (simp add: disjoint_blocks_def blocks_of_def)
  from find_block_correct [OF 1(2) this, of 120] 1 show ?thesis by auto
qed

text \<open>
  C22. Tracked blocks may be nested, since a program may ask for any range to be tracked. Then the
  part of the outer block behind an inner one is taken for untracked: the look-up stops at the
  inner block, which starts nearer to the address.
\<close>

theorem nested_block_hides_tail:
  assumes "holds_blocks st es" "(k, b) \<in> set es" "(k', b') \<in> set es"
    "blks st b = Some bk" "blks st b' = Some bk'" "k < k'" "k' \<le> addr"
    "unat k' + unat (req_szB bk') \<le> unat addr" "unat addr < unat k + unat (req_szB bk)"
    "list_all (\<lambda>e. fst e \<le> addr \<longrightarrow> fst e \<le> k') es"
  shows "find_block_containing st addr = Some None"
proof -
  have "leq_entry addr es = Some (k', b')"
    using leq_entry_Some [OF holds_sorted [OF assms(1)], of addr "(k', b')"] assms(3,7,10)
    by (auto simp: list_all_iff)
  moreover have "unat k' + unat (req_szB bk') < 2 ^ 64"
    using assms(8) unsigned_less [of addr, where 'a = nat] by simp
  then have "\<not> addr < k' + req_szB bk'" using assms(8) by (simp add: end_less)
  ultimately show ?thesis using assms(5) by (simp add: find_block_ok [OF assms(1)])
qed

theorem nested_block_hides_tail_witness:
  "find_block_containing sample_blocks 140 = Some None"
  by (rule nested_block_hides_tail [OF sample_holds(1), of 100 4 120 3
        "\<lparr>payload = 100, req_szB = 50, alloc_ec = None, mx = False\<rparr>"
        "\<lparr>payload = 120, req_szB = 10, alloc_ec = None, mx = False\<rparr>"])
    (simp_all add: sample_holds(2))

text \<open>
  C23. At exit every node of the tree and every block that is in the tree is released, each exactly
  once: no release hits memory that is not allocated. A block that is not in the tree stays
  allocated.
\<close>

theorem free_rb_tree_correct:
  assumes "holds_blocks st es"
  shows "\<exists>st'. free_rb_tree st = Some st' \<and> tracked_blocks st' = RB_ROOT \<and>
     (\<forall>b. blks st' b = (if b \<in> snd ` set es then None else blks st b))"
  using free_tree_ok [OF assms] by (simp add: without_def)

theorem free_rb_tree_correct_witness:
  "\<exists>st'. free_rb_tree sample_blocks = Some st' \<and> tracked_blocks st' = RB_ROOT \<and> blks st' 3 = None"
  using free_rb_tree_correct [OF sample_holds(1)] by auto

end
