(* ===== verification/Ml_Mx.thy ===== *)
theory Ml_Mx
  imports Vg_Mem Ml_Blocks
begin

text \<open>
  The MX emulation of \<^verbatim>\<open>memlog/ml_main.c\<close>: after a store to a marked block the 32-element groups
  it touches are re-encoded with a shared exponent. Elements are IEEE words taken apart with
  shifts and masks on 64-bit words. A shift by a negative amount or by 64 and more, and
  \<^verbatim>\<open>__builtin_clzll(0)\<close>, are undefined in C and \<open>None\<close> here, so that the theorems show that they
  do not happen. Exponents are \<^verbatim>\<open>Long\<close>s that stay within a few thousand of zero, and are integers.
\<close>

section \<open>Options and counters\<close>

definition PAGE_SIZE :: SizeT where
  "PAGE_SIZE = 4096"

record ml_opts =
  clo_min_block_size :: SizeT
  clo_mx_round :: bool
  clo_mx_mbits :: int
  clo_mx_emax :: int
  clo_mx_emin :: int
  clo_mx_sites_file :: "string option"
  clo_mx_list_sites :: bool
  clo_mx_esz :: int
  clo_mx_scale_bits :: int

definition ml_default_opts :: ml_opts where
  "ml_default_opts = \<lparr>clo_min_block_size = PAGE_SIZE, clo_mx_round = False, clo_mx_mbits = 3, clo_mx_emax = 8,
     clo_mx_emin = -6, clo_mx_sites_file = None, clo_mx_list_sites = False, clo_mx_esz = 8,
     clo_mx_scale_bits = 8\<rparr>"

text \<open>The ranges the options are restricted to.\<close>

definition mx_opts_ok :: "ml_opts \<Rightarrow> bool" where
  "mx_opts_ok opts \<longleftrightarrow> 0 \<le> clo_mx_mbits opts \<and> clo_mx_mbits opts \<le> 52 \<and>
     0 \<le> clo_mx_emax opts \<and> clo_mx_emax opts \<le> 1023 \<and>
     - 1022 \<le> clo_mx_emin opts \<and> clo_mx_emin opts \<le> 0 \<and>
     1 \<le> clo_mx_scale_bits opts \<and> clo_mx_scale_bits opts \<le> 16"

record mx_stats =
  mx_blocks_marked :: ULong
  mx_bytes_marked :: ULong
  mx_stores :: ULong
  mx_values_changed :: ULong
  mx_values_flushed :: ULong
  mx_blocks_nan :: ULong
  mx_scales_clamped :: ULong
  mx_values_saturated :: ULong

definition mx_no_stats :: mx_stats where
  "mx_no_stats = \<lparr>mx_blocks_marked = 0, mx_bytes_marked = 0, mx_stores = 0, mx_values_changed = 0,
     mx_values_flushed = 0, mx_blocks_nan = 0, mx_scales_clamped = 0, mx_values_saturated = 0\<rparr>"

definition MX_BLOCK_ELEMS :: nat where
  "MX_BLOCK_ELEMS = 32"

section \<open>Machine operations with their preconditions\<close>

definition shl :: "ULong \<Rightarrow> int \<Rightarrow> ULong option" where
  "shl w n = (if 0 \<le> n \<and> n < 64 then Some (push_bit (nat n) w) else None)"

definition shr :: "ULong \<Rightarrow> int \<Rightarrow> ULong option" where
  "shr w n = (if 0 \<le> n \<and> n < 64 then Some (drop_bit (nat n) w) else None)"

text \<open>The position of the leading one, and the number of zeroes before it.\<close>

fun log2n :: "nat \<Rightarrow> nat" where
  "log2n n = (if n \<le> 1 then 0 else Suc (log2n (n div 2)))"

declare log2n.simps [simp del]

definition builtin_clzll :: "ULong \<Rightarrow> int option" where
  "builtin_clzll w = (if w = 0 then None else Some (63 - int (log2n (unat w))))"

section \<open>Elements\<close>

record FpFmt =
  esz :: int
  mant :: int
  emask :: ULong
  bias :: int

definition FMT64 :: FpFmt where
  "FMT64 = \<lparr>esz = 8, mant = 52, emask = 0x7FF, bias = 1023\<rparr>"

definition FMT32 :: FpFmt where
  "FMT32 = \<lparr>esz = 4, mant = 23, emask = 0xFF, bias = 127\<rparr>"

text \<open>Little-endian bytes of a word.\<close>

definition of_bytes :: "8 word list \<Rightarrow> ULong" where
  "of_bytes bs = foldr (\<lambda>b w. ucast b OR push_bit 8 w) bs 0"

definition to_bytes :: "nat \<Rightarrow> ULong \<Rightarrow> 8 word list" where
  "to_bytes n w = map (\<lambda>i. ucast (drop_bit (8 * i) w)) [0..<n]"

definition mx_load :: "FpFmt \<Rightarrow> mem \<Rightarrow> Addr \<Rightarrow> ULong option" where
  "mx_load f m a = map_option of_bytes (rd_bytes (if esz f = 8 then 8 else 4) m a)"

definition mx_store :: "FpFmt \<Rightarrow> mem \<Rightarrow> Addr \<Rightarrow> ULong \<Rightarrow> mem option" where
  "mx_store f m a v = wr_bytes m a (to_bytes (if esz f = 8 then 8 else 4) v)"

definition mx_split :: "FpFmt \<Rightarrow> ULong \<Rightarrow> (ULong \<times> int) option" where
  "mx_split f v = do {
     x \<leftarrow> shr v (mant f);
     let e = uint (x AND emask f);
     one \<leftarrow> shl 1 (mant f);
     let sig = v AND (one - 1);
     if e = 0 then Some (sig, 1 - bias f - mant f)
     else Some (sig OR one, e - bias f - mant f)
   }"

definition mx_lead :: "FpFmt \<Rightarrow> ULong \<Rightarrow> int option" where
  "mx_lead f v = do {
     (sig, lsb) \<leftarrow> mx_split f v;
     z \<leftarrow> builtin_clzll sig;
     Some (lsb + 63 - z)
   }"

definition mx_max_sig :: "ml_opts \<Rightarrow> ULong option" where
  "mx_max_sig opts = do {
     x \<leftarrow> shl 1 (clo_mx_mbits opts + 1);
     let ones = x - 1;
     Some (if clo_mx_mbits opts = 3 \<and> clo_mx_emax opts = 8 then ones - 1 else ones)
   }"

text \<open>The end of \<^verbatim>\<open>mx_quantize\<close>: the element with the given sign and the magnitude \<open>r * 2 ^ qe\<close>.\<close>

definition mx_pack :: "FpFmt \<Rightarrow> ULong \<Rightarrow> ULong \<Rightarrow> int \<Rightarrow> ULong option" where
  "mx_pack f sign r qe = do {
     z \<leftarrow> builtin_clzll r;
     let rlead = qe + 63 - z;
     let be = rlead + bias f;
     if be \<ge> uint (emask f) then do { x \<leftarrow> shl (emask f) (mant f); Some (sign OR x) }
     else if be \<le> 0 then do {
       x \<leftarrow> shl r (qe - (1 - bias f - mant f));
       Some (sign OR x)
     }
     else do {
       one \<leftarrow> shl 1 (mant f);
       let mmask = one - 1;
       x \<leftarrow> shl (word_of_int be) (mant f);
       y \<leftarrow> shl r (mant f - (rlead - qe));
       Some (sign OR x OR (y AND mmask))
     }
   }"

definition mx_quantize ::
  "ml_opts \<Rightarrow> FpFmt \<Rightarrow> mx_stats \<Rightarrow> ULong \<Rightarrow> int \<Rightarrow> (ULong \<times> mx_stats) option" where
  "mx_quantize opts f st v shared = do {
     sbit \<leftarrow> shl 1 (8 * esz f - 1);
     let sign = v AND sbit;
     if v AND NOT sign = 0 then Some (v, st)
     else do {
       (sig, lsb) \<leftarrow> mx_split f v;
       z \<leftarrow> builtin_clzll sig;
       let lead = lsb + 63 - z;
       let qe = (if lead - shared \<ge> clo_mx_emin opts then lead else shared + clo_mx_emin opts)
                - clo_mx_mbits opts;
       let shift = qe - lsb;
       if shift \<le> 0 then Some (v, st)
       else do {
         r \<leftarrow> (if shift < 64 then do { half \<leftarrow> shl 1 (shift - 1); shr (sig + half) shift } else Some 0);
         if r = 0 then Some (sign, st\<lparr>mx_values_flushed := mx_values_flushed st + 1\<rparr>)
         else do {
           max_sig \<leftarrow> mx_max_sig opts;
           let (r, st) =
             (if qe = shared + clo_mx_emax opts - clo_mx_mbits opts \<and> r > max_sig
              then (max_sig, st\<lparr>mx_values_saturated := mx_values_saturated st + 1\<rparr>) else (r, st));
           x \<leftarrow> mx_pack f sign r qe;
           Some (x, st)
         }
       }
     }
   }"

definition mx_nan_element :: "FpFmt \<Rightarrow> ULong option" where
  "mx_nan_element f = do {
     x \<leftarrow> shl (emask f) (mant f);
     y \<leftarrow> shl 1 (mant f - 1);
     Some (x OR y)
   }"

section \<open>Blocks of elements\<close>

text \<open>The first loop of \<^verbatim>\<open>mx_encode_block\<close>: the largest exponent, and whether a value is not finite.\<close>

fun mx_scan ::
  "FpFmt \<Rightarrow> mem \<Rightarrow> ULong \<Rightarrow> Addr list \<Rightarrow> bool \<Rightarrow> bool \<Rightarrow> int \<Rightarrow> (bool \<times> bool \<times> int) option" where
  "mx_scan f m sbit [] anyv nonfinite lmax = Some (anyv, nonfinite, lmax)"
| "mx_scan f m sbit (a # as) anyv nonfinite lmax = do {
     v \<leftarrow> mx_load f m a;
     if v AND NOT sbit = 0 then mx_scan f m sbit as anyv nonfinite lmax
     else do {
       x \<leftarrow> shr v (mant f);
       if x AND emask f = emask f then mx_scan f m sbit as anyv True lmax
       else do {
         lead \<leftarrow> mx_lead f v;
         mx_scan f m sbit as True nonfinite (if \<not> anyv \<or> lead > lmax then lead else lmax)
       }
     }
   }"

text \<open>The loops that rewrite the elements: \<open>g\<close> computes the new value.\<close>

fun mx_rewrite ::
  "FpFmt \<Rightarrow> (mx_stats \<Rightarrow> ULong \<Rightarrow> (ULong \<times> mx_stats) option) \<Rightarrow> mem \<Rightarrow> mx_stats \<Rightarrow> Addr list \<Rightarrow>
   (mem \<times> mx_stats) option" where
  "mx_rewrite f g m st [] = Some (m, st)"
| "mx_rewrite f g m st (a # as) = do {
     v \<leftarrow> mx_load f m a;
     (q, st) \<leftarrow> g st v;
     (m, st) \<leftarrow> (if q \<noteq> v then do {
                  m \<leftarrow> mx_store f m a q;
                  Some (m, st\<lparr>mx_values_changed := mx_values_changed st + 1\<rparr>)
                } else Some (m, st));
     mx_rewrite f g m st as
   }"

definition mx_elem_addrs :: "FpFmt \<Rightarrow> Block \<Rightarrow> SizeT \<Rightarrow> Addr list" where
  "mx_elem_addrs f bk bi =
     (let base = payload bk + bi * of_nat MX_BLOCK_ELEMS * word_of_int (esz f);
          left = req_szB bk div word_of_int (esz f) - bi * of_nat MX_BLOCK_ELEMS;
          n = (if left < of_nat MX_BLOCK_ELEMS then unat left else MX_BLOCK_ELEMS)
      in map (\<lambda>i. base + of_nat i * word_of_int (esz f)) [0..<n])"

definition mx_encode_block ::
  "ml_opts \<Rightarrow> FpFmt \<Rightarrow> mem \<Rightarrow> mx_stats \<Rightarrow> Block \<Rightarrow> SizeT \<Rightarrow> (mem \<times> mx_stats) option" where
  "mx_encode_block opts f m st bk bi = do {
     let as = mx_elem_addrs f bk bi;
     sbit \<leftarrow> shl 1 (8 * esz f - 1);
     s \<leftarrow> shl 1 (clo_mx_scale_bits opts - 1);
     let semax = uint s - 1;
     (anyv, nonfinite, lmax) \<leftarrow> mx_scan f m sbit as False False 0;
     let shared = lmax - clo_mx_emax opts;
     if nonfinite \<or> (anyv \<and> shared > semax) then
       mx_rewrite f (\<lambda>st v. do { q \<leftarrow> mx_nan_element f; Some (q, st) }) m
         (st\<lparr>mx_blocks_nan := mx_blocks_nan st + 1\<rparr>) as
     else if \<not> anyv then Some (m, st)
     else do {
       let (shared, st) = (if shared < - semax
          then (- semax, st\<lparr>mx_scales_clamped := mx_scales_clamped st + 1\<rparr>) else (shared, st));
       mx_rewrite f (\<lambda>st v. mx_quantize opts f st v shared) m st as
     }
   }"

text \<open>
  The loop over the groups: from \<open>bi\<close> while \<^verbatim>\<open>bi <= last && bi < nblocks\<close>.
\<close>

function mx_blocks_loop ::
  "ml_opts \<Rightarrow> FpFmt \<Rightarrow> mem \<Rightarrow> mx_stats \<Rightarrow> Block \<Rightarrow> SizeT \<Rightarrow> SizeT \<Rightarrow> SizeT \<Rightarrow> (mem \<times> mx_stats) option" where
  "mx_blocks_loop opts f m st bk bi lastb nblocks =
     (if bi \<le> lastb \<and> bi < nblocks then do {
        (m, st) \<leftarrow> mx_encode_block opts f m st bk bi;
        mx_blocks_loop opts f m st bk (bi + 1) lastb nblocks
      } else Some (m, st))"
  by auto
termination
proof (relation "measure (\<lambda>(opts, f, m, st, bk, bi, lastb, nblocks). unat nblocks - unat bi)")
  fix bi nblocks lastb :: SizeT
  assume "bi \<le> lastb \<and> bi < nblocks"
  then have "unat bi < unat nblocks" by (simp add: word_less_nat_alt)
  moreover from this have "unat (bi + 1) = unat bi + 1"
    using unat64_less [of nblocks] unat_add64 [of bi 1] by simp
  ultimately show "((opts, f, m, st, bk, bi + 1, lastb, nblocks), (opts', f', m', st', bk', bi, lastb, nblocks))
      \<in> measure (\<lambda>(opts, f, m, st, bk, bi, lastb, nblocks). unat nblocks - unat bi)"
    for opts f m st bk opts' f' m' st' bk' by simp
qed simp

declare mx_blocks_loop.simps [simp del]

definition mx_fmt :: "ml_opts \<Rightarrow> FpFmt" where
  "mx_fmt opts = (if clo_mx_esz opts = 4 then FMT32 else FMT64)"

definition mx_after_store ::
  "ml_opts \<Rightarrow> block_state \<Rightarrow> mem \<Rightarrow> mx_stats \<Rightarrow> Addr \<Rightarrow> HWord \<Rightarrow> (mem \<times> mx_stats) option" where
  "mx_after_store opts bst m st addr sz = do {
     p \<leftarrow> find_block_containing bst addr;
     case p of
       None \<Rightarrow> Some (m, st)
     | Some b \<Rightarrow> do {
         bk \<leftarrow> blks bst b;
         if \<not> mx bk then Some (m, st)
         else do {
           let st = st\<lparr>mx_stores := mx_stores st + 1\<rparr>;
           let f = mx_fmt opts;
           let span = of_nat MX_BLOCK_ELEMS * word_of_int (esz f);
           let nblocks = req_szB bk div span +
                         (if req_szB bk mod span \<ge> word_of_int (esz f) then 1 else 0);
           let firstb = (addr - payload bk) div span;
           let lastb = (addr + sz - 1 - payload bk) div span;
           mx_blocks_loop opts f m st bk firstb lastb nblocks
         }
       }
   }"

end
