(* ===== verification/Ml_MxRound.thy ===== *)
theory Ml_MxRound
  imports Ml_Mx
begin

text \<open>
  The rounding of one element. Magnitudes are natural numbers in units of the least subnormal, so
  that the value of a finite element is \<open>mag * 2 ^ (1 - bias - mant)\<close> exactly and no real numbers
  are needed. \<open>mx_round_mag\<close> is the rounding that the emulation promises; \<open>quantize_ok\<close> shows that
  \<^verbatim>\<open>mx_quantize\<close> computes it with defined shifts only.
\<close>

section \<open>Leading ones\<close>

lemma log2n_bounds: "n > 0 \<Longrightarrow> 2 ^ log2n n \<le> n \<and> n < 2 ^ Suc (log2n n)"
proof (induction n rule: less_induct)
  case (less n)
  show ?case
  proof (cases "n \<le> 1")
    case True
    with less.prems show ?thesis by (simp add: log2n.simps)
  next
    case False
    then have "2 ^ log2n (n div 2) \<le> n div 2 \<and> n div 2 < 2 ^ Suc (log2n (n div 2))"
      using less.IH [of "n div 2"] by simp
    then have "2 ^ Suc (log2n (n div 2)) \<le> n" "n < 2 ^ Suc (Suc (log2n (n div 2)))" by auto
    with False show ?thesis by (simp add: log2n.simps [of n])
  qed
qed

lemma log2n_unique:
  assumes "2 ^ k \<le> n" "n < 2 ^ Suc k"
  shows "log2n n = k"
proof -
  have "n > 0" using assms(1) less_le_trans [of 0 "2 ^ k" n] by simp
  note b = log2n_bounds [OF this]
  have "(2::nat) ^ k < 2 ^ Suc (log2n n)" "(2::nat) ^ log2n n < 2 ^ Suc k" using assms b by linarith+
  then have "k < Suc (log2n n)" "log2n n < Suc k"
    using power_less_imp_less_exp [of "2::nat"] by (metis one_less_numeral_iff semiring_norm(76))+
  then show ?thesis by simp
qed

lemma log2n_mult: "n > 0 \<Longrightarrow> log2n (n * 2 ^ k) = log2n n + k"
  using log2n_bounds [of n] by (intro log2n_unique) (auto simp: power_add)

lemma log2n_less: "0 < n \<Longrightarrow> n < 2 ^ k \<Longrightarrow> log2n n < k"
  using log2n_bounds [of n] by (metis (no_types) le_less_trans power_less_imp_less_exp one_less_numeral_iff semiring_norm(76))

lemma log2n_mono: "0 < n \<Longrightarrow> n \<le> k \<Longrightarrow> log2n n \<le> log2n k"
  using log2n_bounds [of k] log2n_less [of n "Suc (log2n k)"] by simp

lemma log2n_pow [simp]: "log2n (2 ^ k) = k"
  by (rule log2n_unique) simp_all

section \<open>Rounding\<close>

text \<open>
  The number of quanta \<open>2 ^ q\<close> nearest to \<open>m\<close>, ties upwards, and the MX rounding of a magnitude
  \<open>m\<close>: the quantum is \<open>mbits\<close> below the leading one of \<open>m\<close>, or below \<open>S + emin\<close> when \<open>m\<close> is smaller
  than that, and the top binade is cut at the largest significand. Magnitudes are counted in
  units of the least subnormal, and \<open>S\<close> is the shared exponent relative to that unit.
\<close>

definition nearest :: "nat \<Rightarrow> nat \<Rightarrow> nat" where
  "nearest q m = (m + 2 ^ (q - 1)) div 2 ^ q"

definition max_sig_nat :: "ml_opts \<Rightarrow> nat" where
  "max_sig_nat opts = 2 ^ nat (clo_mx_mbits opts + 1) -
     (if clo_mx_mbits opts = 3 \<and> clo_mx_emax opts = 8 then 2 else 1)"

definition mx_quantum :: "ml_opts \<Rightarrow> int \<Rightarrow> nat \<Rightarrow> int" where
  "mx_quantum opts S m = max (int (log2n m)) (S + clo_mx_emin opts) - clo_mx_mbits opts"

definition mx_round_mag :: "ml_opts \<Rightarrow> int \<Rightarrow> nat \<Rightarrow> nat" where
  "mx_round_mag opts S m =
     (if m = 0 \<or> mx_quantum opts S m \<le> 0 then m
      else let q = nat (mx_quantum opts S m); r = nearest q m
           in (if int q = S + clo_mx_emax opts - clo_mx_mbits opts \<and> r > max_sig_nat opts
               then max_sig_nat opts else r) * 2 ^ q)"

lemma nearest_bounds:
  assumes "q > 0"
  shows "nearest q m * 2 ^ q \<le> m + 2 ^ (q - 1)" "m < nearest q m * 2 ^ q + 2 ^ (q - 1)"
proof -
  let ?x = "m + 2 ^ (q - 1)"
  have p: "(2::nat) ^ q = 2 * 2 ^ (q - 1)" using assms by (cases q) simp_all
  have "?x = nearest q m * 2 ^ q + ?x mod 2 ^ q" unfolding nearest_def by (rule div_mult_mod_eq [symmetric])
  moreover have "?x mod 2 ^ q < 2 ^ q" by simp
  ultimately show "nearest q m * 2 ^ q \<le> ?x" "m < nearest q m * 2 ^ q + 2 ^ (q - 1)"
    using p by linarith+
qed

lemma nearest_le: "q > 0 \<Longrightarrow> m < 2 ^ (q + k) \<Longrightarrow> nearest q m \<le> 2 ^ k"
proof -
  assume q: "q > 0" "m < 2 ^ (q + k)"
  have p: "(2::nat) ^ q = 2 * 2 ^ (q - 1)" using q(1) by (cases q) simp_all
  have "nearest q m * 2 ^ q \<le> m + 2 ^ (q - 1)" using nearest_bounds [OF q(1)] by simp
  also have "\<dots> < 2 ^ k * 2 ^ q + 2 ^ q" using q(2) p by (simp add: power_add mult.commute)
  finally have "nearest q m * 2 ^ q < (2 ^ k + 1) * 2 ^ q" by (simp add: algebra_simps)
  then have "nearest q m < 2 ^ k + 1" using mult_less_cancel2 by blast
  then show ?thesis by simp
qed

lemma nearest_exact: "q > 0 \<Longrightarrow> nearest q (r * 2 ^ q) = r"
proof -
  assume q: "q > 0"
  have "(2::nat) ^ (q - 1) < 2 ^ q" using q by simp
  then show ?thesis by (simp add: nearest_def div_mult_self3)
qed

lemma max_sig_ge: "mx_opts_ok opts \<Longrightarrow> 2 ^ nat (clo_mx_mbits opts) \<le> max_sig_nat opts"
proof -
  assume "mx_opts_ok opts"
  then have "nat (clo_mx_mbits opts + 1) = Suc (nat (clo_mx_mbits opts))" by (auto simp: mx_opts_ok_def)
  then show ?thesis by (auto simp: max_sig_nat_def)
qed

lemma max_sig_less: "max_sig_nat opts < 2 ^ nat (clo_mx_mbits opts + 1)"
  by (simp add: max_sig_nat_def)

section \<open>Taking elements apart\<close>

lemma or_plus_nat:
  fixes b :: nat
  assumes "b < 2 ^ n"
  shows "(i * 2 ^ n) OR b = i * 2 ^ n + b"
proof -
  have "\<not> (bit (i * 2 ^ n) j \<and> bit b j)" for j
  proof
    assume "bit (i * 2 ^ n) j \<and> bit b j"
    then have "bit (push_bit n i) j" "bit (take_bit n b) j"
      using assms by (simp_all add: push_bit_eq_mult take_bit_nat_eq_self)
    then show False by (simp add: bit_push_bit_iff bit_take_bit_iff)
  qed
  then have "(i * 2 ^ n) AND b = 0" by (intro bit_eqI) (simp add: bit_and_iff)
  then show ?thesis by (simp add: disjunctive_add_eq_or)
qed

lemma unat_or_plus:
  fixes a b :: ULong
  assumes "unat a = i * 2 ^ n" "unat b < 2 ^ n"
  shows "unat (a OR b) = unat a + unat b"
  using assms or_plus_nat [of "unat b" n i] by (simp add: unsigned_or_eq)

lemma unat_exp: "n < 64 \<Longrightarrow> unat (2 ^ n :: ULong) = 2 ^ n"
proof -
  assume "n < 64"
  then have "(2::nat) ^ n < 2 ^ 64" by (rule power_strict_increasing) simp
  from unat64 [OF this] show ?thesis by simp
qed

lemma unat_shl: "0 \<le> n \<Longrightarrow> n < 64 \<Longrightarrow> unat w * 2 ^ nat n < 2 ^ 64 \<Longrightarrow>
    \<exists>x. shl w n = Some x \<and> unat x = unat w * 2 ^ nat n"
  using unat_exp [of "nat n"] unat_word_ariths(2) [of w "2 ^ nat n"] by (simp add: shl_def push_bit_eq_mult)

lemma unat_shr: "0 \<le> n \<Longrightarrow> n < 64 \<Longrightarrow> \<exists>x. shr w n = Some x \<and> unat x = unat w div 2 ^ nat n"
  using unat_exp [of "nat n"] by (simp add: shr_def drop_bit_eq_div unat_div)

lemma unat_and_mask: "k \<le> 64 \<Longrightarrow> unat ((w :: ULong) AND (2 ^ k - 1)) = unat w mod 2 ^ k"
proof -
  have "w AND (2 ^ k - 1) = take_bit k w" by (simp add: take_bit_eq_mask mask_eq_exp_minus_1)
  then show "k \<le> 64 \<Longrightarrow> ?thesis" by (simp only: unsigned_take_bit_eq) (simp add: take_bit_eq_mod)
qed

text \<open>\<open>M\<close> fraction bits and \<open>K\<close> exponent bits.\<close>

definition fmt_ok :: "FpFmt \<Rightarrow> nat \<Rightarrow> nat \<Rightarrow> bool" where
  "fmt_ok f M K \<longleftrightarrow> (f = FMT64 \<and> M = 52 \<and> K = 11) \<or> (f = FMT32 \<and> M = 23 \<and> K = 8)"

definition frac_of :: "nat \<Rightarrow> ULong \<Rightarrow> nat" where
  "frac_of M v = unat v mod 2 ^ M"

definition expo_of :: "nat \<Rightarrow> nat \<Rightarrow> ULong \<Rightarrow> nat" where
  "expo_of M K v = unat v div 2 ^ M mod 2 ^ K"

definition sign_of :: "nat \<Rightarrow> nat \<Rightarrow> ULong \<Rightarrow> nat" where
  "sign_of M K v = unat v div 2 ^ (M + K)"

text \<open>The magnitude in units of the least subnormal, and the finite elements.\<close>

definition mag :: "nat \<Rightarrow> nat \<Rightarrow> ULong \<Rightarrow> nat" where
  "mag M K v = (if expo_of M K v = 0 then frac_of M v else (2 ^ M + frac_of M v) * 2 ^ (expo_of M K v - 1))"

definition element :: "nat \<Rightarrow> nat \<Rightarrow> ULong \<Rightarrow> bool" where
  "element M K v \<longleftrightarrow> unat v < 2 ^ (M + K + 1)"

definition finite_elem :: "nat \<Rightarrow> nat \<Rightarrow> ULong \<Rightarrow> bool" where
  "finite_elem M K v \<longleftrightarrow> element M K v \<and> expo_of M K v \<noteq> 2 ^ K - 1"

lemma frac_less: "frac_of M v < 2 ^ M" and expo_less: "expo_of M K v < 2 ^ K"
  by (simp_all add: frac_of_def expo_of_def)

lemma sign_less: "element M K v \<Longrightarrow> sign_of M K v < 2"
  by (simp add: element_def sign_of_def less_mult_imp_div_less)

lemma elem_parts: "unat v = sign_of M K v * 2 ^ (M + K) + (expo_of M K v * 2 ^ M + frac_of M v)"
proof -
  let ?u = "unat v"
  have "?u div 2 ^ M = ?u div 2 ^ M div 2 ^ K * 2 ^ K + ?u div 2 ^ M mod 2 ^ K"
    by (rule div_mult_mod_eq [symmetric])
  moreover have "?u div 2 ^ M div 2 ^ K = sign_of M K v"
    by (simp add: sign_of_def power_add div_mult2_eq)
  ultimately have "?u div 2 ^ M * 2 ^ M = (sign_of M K v * 2 ^ K + expo_of M K v) * 2 ^ M"
    by (simp add: expo_of_def)
  moreover have "?u = ?u div 2 ^ M * 2 ^ M + ?u mod 2 ^ M" by (rule div_mult_mod_eq [symmetric])
  ultimately show ?thesis by (simp add: frac_of_def algebra_simps power_add)
qed

text \<open>An element put together from its parts has these parts.\<close>

lemma elem_made:
  assumes "unat v = s * 2 ^ (M + K) + (e * 2 ^ M + x)" "x < 2 ^ M" "e < 2 ^ K"
  shows "sign_of M K v = s" "expo_of M K v = e" "frac_of M v = x"
proof -
  have lt: "e * 2 ^ M + x < 2 ^ (M + K)"
  proof -
    have "e * 2 ^ M + x < (e + 1) * 2 ^ M" using assms(2) by simp
    also have "\<dots> \<le> 2 ^ K * 2 ^ M" using assms(3) by (intro mult_right_mono) simp_all
    finally show ?thesis by (simp add: power_add mult.commute)
  qed
  show "sign_of M K v = s" unfolding sign_of_def assms(1) using lt by simp
  have u: "unat v = (s * 2 ^ K + e) * 2 ^ M + x" using assms(1) by (simp add: algebra_simps power_add)
  show "frac_of M v = x" unfolding frac_of_def u using assms(2) by simp
  have "unat v div 2 ^ M = s * 2 ^ K + e" unfolding u using assms(2) by simp
  then show "expo_of M K v = e" unfolding expo_of_def using assms(3) by simp
qed

lemma split_ok:
  assumes "fmt_ok f M K"
  shows "\<exists>sig. mx_split f v = Some (sig, (1 - bias f - mant f) + int (expo_of M K v - 1)) \<and>
     unat sig = (if expo_of M K v = 0 then frac_of M v else 2 ^ M + frac_of M v)"
proof -
  have f: "mant f = int M" "emask f = 2 ^ K - 1" "M + K < 64" "M > 0" "K > 0"
    using assms by (auto simp: fmt_ok_def FMT64_def FMT32_def)
  obtain x where x: "shr v (mant f) = Some x" "unat x = unat v div 2 ^ M"
    using unat_shr [of "int M" v] f by auto
  obtain one where one: "shl 1 (mant f) = Some one" "one = 2 ^ M"
    using f by (simp add: shl_def push_bit_eq_mult)
  have "unat (x AND emask f) = expo_of M K v"
    using unat_and_mask [of K x] f x(2) by (simp add: expo_of_def)
  then have e: "uint (x AND emask f) = int (expo_of M K v)" by (simp only: uint_nat)
  have s: "unat (v AND (one - 1)) = frac_of M v" using unat_and_mask [of M v] f one(2) by (simp add: frac_of_def)
  have o: "unat one = 2 ^ M" using f by (simp add: one(2) unat_exp)
  have "unat (one OR (v AND (one - 1))) = 2 ^ M + frac_of M v"
    using unat_or_plus [of one 1 M "v AND (one - 1)"] o s frac_less [of M v] by simp
  then have so: "unat ((v AND (one - 1)) OR one) = 2 ^ M + frac_of M v" by (simp add: or.commute)
  let ?e = "int (expo_of M K v)"
  have sp: "mx_split f v = (if ?e = 0 then Some (v AND (one - 1), 1 - bias f - mant f)
      else Some ((v AND (one - 1)) OR one, ?e - bias f - mant f))"
    unfolding mx_split_def x(1) one(1) Let_def bind.bind_lunit e ..
  show ?thesis
  proof (cases "expo_of M K v = 0")
    case True
    with sp s show ?thesis by (intro exI [of _ "v AND (one - 1)"]) simp
  next
    case False
    then have eq: "?e - bias f - mant f = (1 - bias f - mant f) + int (expo_of M K v - 1)" by simp
    have "mx_split f v = Some ((v AND (one - 1)) OR one, ?e - bias f - mant f)" using sp False by simp
    then show ?thesis unfolding eq using so False by (intro exI [of _ "(v AND (one - 1)) OR one"] conjI) simp_all
  qed
qed

lemma sign_ok:
  assumes "fmt_ok f M K" "element M K v"
  shows "\<exists>sbit. shl 1 (8 * esz f - 1) = Some sbit \<and> unat (v AND sbit) = sign_of M K v * 2 ^ (M + K) \<and>
     unat (v AND NOT (v AND sbit)) = expo_of M K v * 2 ^ M + frac_of M v \<and> sbit = 2 ^ (M + K)"
proof -
  have f: "8 * esz f - 1 = int (M + K)" "M + K < 64"
    using assms by (auto simp: fmt_ok_def FMT64_def FMT32_def)
  then have sh: "shl 1 (8 * esz f - 1) = Some (2 ^ (M + K))"
    by (simp add: shl_def push_bit_eq_mult del: of_nat_add)
  define s :: ULong where "s = 2 ^ (M + K)"
  have bs: "bit s j \<longleftrightarrow> j = M + K" for j using f(2) by (auto simp: s_def bit_exp_iff)
  have "v AND s = (if bit v (M + K) then s else 0)"
    by (rule bit_eqI) (auto simp: bit_and_iff bs)
  moreover have "bit v (M + K) \<longleftrightarrow> odd (sign_of M K v)"
    using bit_unsigned_iff [of v "M + K", where 'a = nat] f(2)
    by (simp add: sign_of_def bit_iff_odd [of "unat v"])
  then have "bit v (M + K) \<longleftrightarrow> sign_of M K v = 1" using sign_less [OF assms(2)] by presburger
  moreover have "unat s = 2 ^ (M + K)" using f(2) unfolding s_def by (simp add: unat_exp)
  ultimately have vs: "unat (v AND s) = sign_of M K v * 2 ^ (M + K)" using sign_less [OF assms(2)] by auto
  have "(v AND s) AND (v AND NOT (v AND s)) = 0"
    by (rule bit_eqI) (auto simp: bit_and_iff bit_or_iff bit_not_iff)
  then have "(v AND s) + (v AND NOT (v AND s)) = (v AND s) OR (v AND NOT (v AND s))"
    by (rule disjunctive_add_eq_or)
  also have "\<dots> = v" by (rule bit_eqI) (auto simp: bit_and_iff bit_or_iff bit_not_iff)
  finally have sum: "(v AND s) + (v AND NOT (v AND s)) = v" .
  have "v AND s \<le> v" by (rule word_and_le2)
  then have "unat v = unat (v AND s) + unat (v AND NOT (v AND s))"
    using unat_plus_simple [of "v AND s" "v AND NOT (v AND s)"] sum by simp
  with elem_parts [of v M K] vs have "unat (v AND NOT (v AND s)) = expo_of M K v * 2 ^ M + frac_of M v" by simp
  with sh vs show ?thesis by (simp add: s_def)
qed

lemma clzll_ok: "w \<noteq> 0 \<Longrightarrow> builtin_clzll w = Some (63 - int (log2n (unat w)))"
  by (simp add: builtin_clzll_def)

lemma fmt_facts:
  assumes "fmt_ok f M K"
  shows "mant f = int M" "uint (emask f) = 2 ^ K - 1" "M + K < 64" "3 < M" "3 < K" "bias f = 2 ^ (K - 1) - 1"
    "unat (emask f) = 2 ^ K - 1" "M \<le> 52"
  using assms by (auto simp: fmt_ok_def FMT64_def FMT32_def)

text \<open>Packing gives the element of the sign and magnitude.\<close>

lemma pack_ok:
  assumes f: "fmt_ok f M K" and s: "unat sign = sg * 2 ^ (M + K)" "sg < 2"
    and r: "unat r = R" "0 < R" "R < 2 ^ (M + 1)"
    and q: "qe = (1 - bias f - mant f) + int q"
    and top: "int (log2n R + q) + 1 - int M < 2 ^ K - 1"
  shows "\<exists>x. mx_pack f sign r qe = Some x \<and> finite_elem M K x \<and> sign_of M K x = sg \<and> mag M K x = R * 2 ^ q"
proof -
  note ff = fmt_facts [OF f]
  define l where "l = log2n R"
  have lb: "2 ^ l \<le> R" "R < 2 ^ Suc l" using log2n_bounds [OF r(2)] by (simp_all add: l_def)
  have lM: "l \<le> M" using log2n_less [OF r(2,3)] by (simp add: l_def)
  have rn: "r \<noteq> 0" using r(1,2) by auto
  have be: "qe + 63 - (63 - int (log2n (unat r))) + bias f = int (l + q) + 1 - int M"
    using r(1) q ff(1) by (simp add: l_def)
  have nb: "\<not> int (l + q) + 1 - int M \<ge> uint (emask f)" using top ff(2) by (simp add: l_def)
  have made: "finite_elem M K x \<and> sign_of M K x = sg \<and> expo_of M K x = e \<and> frac_of M x = y"
    if "unat x = sg * 2 ^ (M + K) + (e * 2 ^ M + y)" "y < 2 ^ M" "e < 2 ^ K - 1" for x e y
  proof -
    have e: "e < 2 ^ K" using that(3) by simp
    have "e * 2 ^ M + y < (e + 1) * 2 ^ M" using that(2) by simp
    also have "\<dots> \<le> 2 ^ K * 2 ^ M" using e by (intro mult_right_mono) simp_all
    finally have "unat x < (sg + 1) * 2 ^ (M + K)" using that(1) by (simp add: power_add mult.commute)
    also have "\<dots> \<le> 2 * 2 ^ (M + K)" using s(2) by (intro mult_right_mono) simp_all
    finally have "element M K x" by (simp add: element_def)
    with elem_made [OF that(1,2) e] that(3) show ?thesis by (auto simp: finite_elem_def)
  qed
  show ?thesis
  proof (cases "l + q < M")
    case True
    have lt: "R * 2 ^ q < 2 ^ M"
    proof -
      have "R * 2 ^ q < 2 ^ Suc l * 2 ^ q" using lb(2) by simp
      also have "\<dots> = 2 ^ (Suc l + q)" by (simp only: power_add)
      also have "\<dots> \<le> 2 ^ M" using True by (intro power_increasing) simp_all
      finally show ?thesis .
    qed
    also have "(2::nat) ^ M < 2 ^ 64" using ff(3) by (intro power_strict_increasing) simp_all
    finally have lt64: "R * 2 ^ q < 2 ^ 64" .
    have q64: "int q < 64" using True ff(3) by simp
    from unat_shl [of "int q" r] lt64 q64 r(1) obtain x where x: "shl r (int q) = Some x" "unat x = R * 2 ^ q" by auto
    have pk: "mx_pack f sign r qe = Some (sign OR x)"
      using clzll_ok [OF rn] be nb True x(1) q by (simp add: mx_pack_def Let_def)
    have "unat (sign OR x) = sg * 2 ^ (M + K) + (0 * 2 ^ M + R * 2 ^ q)"
      using unat_or_plus [OF s(1), of x] x(2) lt
        less_le_trans [OF lt, of "2 ^ (M + K)"] s(1) by (simp add: power_increasing)
    moreover have "0 < (2::nat) ^ K - 1" using one_less_power [of "2::nat" K] ff(5) by simp
    ultimately have "finite_elem M K (sign OR x) \<and> sign_of M K (sign OR x) = sg \<and>
        expo_of M K (sign OR x) = 0 \<and> frac_of M (sign OR x) = R * 2 ^ q" using made [of _ 0 "R * 2 ^ q"] lt by blast
    with pk show ?thesis by (auto simp: mag_def)
  next
    case False
    define E where "E = l + q + 1 - M"
    define F where "F = R * 2 ^ (M - l) - 2 ^ M"
    have E: "int (l + q) + 1 - int M = int E" "E > 0" using False by (simp_all add: E_def of_nat_diff)
    have "int E < 2 ^ K - 1" using top E(1) by (simp add: l_def)
    then have "int E < int (2 ^ K - 1)" by (simp add: of_nat_diff)
    then have EK: "E < 2 ^ K - 1" by (simp only: of_nat_less_iff)
    have RF: "R * 2 ^ (M - l) = 2 ^ M + F" and FM: "F < 2 ^ M"
    proof -
      have "2 ^ l * 2 ^ (M - l) \<le> R * 2 ^ (M - l)" using lb(1) by simp
      then have "2 ^ M \<le> R * 2 ^ (M - l)" using lM by (simp add: power_add [symmetric])
      then show "R * 2 ^ (M - l) = 2 ^ M + F" by (simp add: F_def)
      have "R * 2 ^ (M - l) < 2 ^ Suc l * 2 ^ (M - l)" using lb(2) by simp
      also have "\<dots> = 2 * 2 ^ M" using lM by (simp add: power_add [symmetric])
      finally show "F < 2 ^ M" by (simp add: F_def)
    qed
    have p64: "(2::nat) ^ (M + K) < 2 ^ 64" "(2::nat) ^ M * 2 \<le> 2 ^ (M + K)"
      using ff(3,5) power_increasing [of "Suc M" "M + K" "2::nat"]
        power_strict_increasing [of "M + K" 64 "2::nat"] by simp_all
    have EM: "E * 2 ^ M < 2 ^ (M + K)" and EF: "E * 2 ^ M + F < 2 ^ (M + K)"
    proof -
      have "E * 2 ^ M + F < (E + 1) * 2 ^ M" using FM by simp
      also have "\<dots> \<le> 2 ^ K * 2 ^ M" using EK by (intro mult_right_mono) simp_all
      finally show "E * 2 ^ M + F < 2 ^ (M + K)" by (simp add: power_add mult.commute)
      then show "E * 2 ^ M < 2 ^ (M + K)" by simp
    qed
    have "E \<le> E * 2 ^ M" by simp
    then have "E < 2 ^ 64" using EM p64(1) by (meson le_less_trans less_trans)
    then have uE: "unat (word_of_int (int E) :: ULong) = E" by (simp only: of_int_of_nat_eq unat64)
    from unat_shl [of "int M" "word_of_int (int E)"] uE EM p64(1) ff(3) obtain x where
      x: "shl (word_of_int (int E)) (mant f) = Some x" "unat x = E * 2 ^ M" using ff(1) by auto
    have "R * 2 ^ (M - l) < 2 ^ 64" using RF FM p64 by simp
    moreover have "int (M - l) < 64" using ff(3) by simp
    ultimately obtain y where y: "shl r (int (M - l)) = Some y" "unat y = 2 ^ M + F"
      using unat_shl [of "int (M - l)" r] r(1) RF by (auto simp del: of_nat_diff)
    have ym: "mant f - (qe + 63 - (63 - int (log2n (unat r))) - qe) = int (M - l)"
      using ff(1) lM r(1) by (simp add: l_def of_nat_diff)
    obtain one where one: "shl 1 (mant f) = Some one" "one = 2 ^ M"
      using ff by (simp add: shl_def push_bit_eq_mult)
    have uy: "unat (y AND (one - 1)) = F" using unat_and_mask [of M y] y(2) FM ff(3) one(2) by simp
    have pk: "mx_pack f sign r qe = Some (sign OR x OR (y AND (one - 1)))"
      unfolding mx_pack_def clzll_ok [OF rn] bind.bind_lunit Let_def be ym
      using nb E x(1) y(1) one(1) by simp
    have "unat (x OR (y AND (one - 1))) = E * 2 ^ M + F"
      using unat_or_plus [OF x(2), of "y AND (one - 1)"] uy FM x(2) by simp
    then have "unat (sign OR x OR (y AND (one - 1))) = sg * 2 ^ (M + K) + (E * 2 ^ M + F)"
      using unat_or_plus [OF s(1), of "x OR (y AND (one - 1))"] EF s(1) by simp
    from made [OF this FM EK] have md: "finite_elem M K (sign OR x OR (y AND (one - 1)))"
      "sign_of M K (sign OR x OR (y AND (one - 1))) = sg"
      "expo_of M K (sign OR x OR (y AND (one - 1))) = E" "frac_of M (sign OR x OR (y AND (one - 1))) = F" by auto
    have "(2 ^ M + F) * 2 ^ (E - 1) = R * 2 ^ (M - l) * 2 ^ (E - 1)" using RF by simp
    also have "\<dots> = R * 2 ^ q" using False lM by (simp add: E_def power_add [symmetric] mult.assoc)
    finally show ?thesis using pk md E(2) by (simp add: mag_def)
  qed
qed


lemma mag_sig:
  assumes "fmt_ok f M K"
  shows "\<exists>sig. mx_split f v = Some (sig, (1 - bias f - mant f) + int (expo_of M K v - 1)) \<and>
     mag M K v = unat sig * 2 ^ (expo_of M K v - 1) \<and> unat sig < 2 ^ (M + 1) \<and>
     (expo_of M K v > 0 \<longrightarrow> 2 ^ M \<le> unat sig)"
proof -
  from split_ok [OF assms] obtain sig where
    "mx_split f v = Some (sig, (1 - bias f - mant f) + int (expo_of M K v - 1))"
    "unat sig = (if expo_of M K v = 0 then frac_of M v else 2 ^ M + frac_of M v)" by blast
  then show ?thesis using frac_less [of M v] by (intro exI [of _ sig]) (auto simp: mag_def)
qed

lemma lead_ok:
  assumes "fmt_ok f M K" "mag M K v \<noteq> 0"
  shows "mx_lead f v = Some ((1 - bias f - mant f) + int (log2n (mag M K v)))"
proof -
  obtain sig where s: "mx_split f v = Some (sig, (1 - bias f - mant f) + int (expo_of M K v - 1))"
    "mag M K v = unat sig * 2 ^ (expo_of M K v - 1)" using mag_sig [OF assms(1)] by blast
  then have n: "unat sig > 0" using assms(2) by (cases "unat sig") auto
  then have "sig \<noteq> 0" by auto
  with s n show ?thesis by (simp add: mx_lead_def clzll_ok log2n_mult)
qed

lemma mag_zero_iff: "fmt_ok f M K \<Longrightarrow> mag M K v = 0 \<longleftrightarrow> expo_of M K v * 2 ^ M + frac_of M v = 0"
  by (auto simp: mag_def)

lemma max_sig_ok:
  assumes "mx_opts_ok opts"
  shows "\<exists>x. mx_max_sig opts = Some x \<and> unat x = max_sig_nat opts"
proof -
  let ?b = "clo_mx_mbits opts"
  have b: "0 \<le> ?b + 1" "?b + 1 < 64" "?b \<ge> 0" using assms by (auto simp: mx_opts_ok_def)
  then have "nat (?b + 1) < 64" by simp
  then have "(2::nat) ^ nat (?b + 1) < 2 ^ 64" by (intro power_strict_increasing) simp_all
  with unat_shl [of "?b + 1" 1] b obtain x where x: "shl 1 (?b + 1) = Some x" "unat x = 2 ^ nat (?b + 1)" by auto
  have ge: "(2::nat) \<le> 2 ^ nat (?b + 1)" using b power_increasing [of 1 "nat (?b + 1)" "2::nat"] by simp
  have u1: "unat (x - 1) = 2 ^ nat (?b + 1) - 1"
    using x(2) ge by (subst unat_minus_one) (auto simp: unat_eq_0 [symmetric])
  have "unat (x - 1 - 1) = 2 ^ nat (?b + 1) - 2"
    using u1 ge by (subst unat_minus_one) (auto simp: unat_eq_0 [symmetric] simp del: diff_diff_eq)
  with x u1 show ?thesis by (simp add: mx_max_sig_def max_sig_nat_def Let_def)
qed

text \<open>A rounded magnitude does not leave the range of the block.\<close>

definition cut_sig :: "ml_opts \<Rightarrow> int \<Rightarrow> nat \<Rightarrow> nat \<Rightarrow> nat" where
  "cut_sig opts S q r =
     (if int q = S + clo_mx_emax opts - clo_mx_mbits opts \<and> r > max_sig_nat opts then max_sig_nat opts else r)"

lemma round_mag_cut:
  "m > 0 \<Longrightarrow> mx_quantum opts S m = int q \<Longrightarrow> q > 0 \<Longrightarrow>
   mx_round_mag opts S m = cut_sig opts S q (nearest q m) * 2 ^ q"
  by (simp add: mx_round_mag_def cut_sig_def Let_def)

lemma cut_le: "cut_sig opts S q r \<le> r"
  by (simp add: cut_sig_def)

lemma cut_pos: "mx_opts_ok opts \<Longrightarrow> r > 0 \<Longrightarrow> cut_sig opts S q r > 0"
proof -
  assume "mx_opts_ok opts" "r > 0"
  moreover have "0 < max_sig_nat opts"
    using max_sig_ge [of opts] less_le_trans [of "0::nat" "2 ^ nat (clo_mx_mbits opts)"] calculation by simp
  ultimately show ?thesis by (simp add: cut_sig_def)
qed

lemma round_range:
  assumes ok: "mx_opts_ok opts" and m: "m > 0" and q: "mx_quantum opts S m = int q" "q > 0"
    and r: "R = cut_sig opts S q (nearest q m)" "R > 0"
    and l: "int (log2n m) \<le> S + clo_mx_emax opts"
  shows "int (log2n R + q) \<le> S + clo_mx_emax opts"
proof -
  define mb where "mb = nat (clo_mx_mbits opts)"
  have mb: "clo_mx_mbits opts = int mb" "clo_mx_emin opts \<le> 0" "0 \<le> clo_mx_emax opts"
    "nat (clo_mx_mbits opts + 1) = Suc mb"
    using ok by (auto simp: mx_opts_ok_def mb_def)
  have mlt: "m < 2 ^ Suc (log2n m)" using log2n_bounds [OF m] by simp
  have Rn: "R \<le> nearest q m" using r(1) cut_le by simp
  show ?thesis
  proof (cases "int (log2n m) \<ge> S + clo_mx_emin opts")
    case True
    then have lq: "log2n m = q + mb" using q(1) mb(1) by (simp add: mx_quantum_def)
    then have "nearest q m \<le> 2 ^ Suc mb" using nearest_le [OF q(2), of m "Suc mb"] mlt by simp
    show ?thesis
    proof (cases "int (log2n m) = S + clo_mx_emax opts")
      case True
      then have "R \<le> max_sig_nat opts" using r(1) lq mb(1) by (auto simp: cut_sig_def)
      then have "R < 2 ^ Suc mb" using max_sig_less [of opts] mb(4) by simp
      then have "log2n R \<le> mb" using log2n_less [OF r(2), of "Suc mb"] by simp
      with True lq show ?thesis by simp
    next
      case False
      have "log2n R \<le> log2n (2 ^ Suc mb)"
        using \<open>nearest q m \<le> 2 ^ Suc mb\<close> Rn by (intro log2n_mono r(2)) simp
      then have "log2n R \<le> Suc mb" by (simp only: log2n_pow)
      with False l lq show ?thesis by simp
    qed
  next
    case False
    then have lq: "S + clo_mx_emin opts = int (q + mb)" using q(1) mb(1) by (simp add: mx_quantum_def)
    then have "log2n m < q + mb" using False by simp
    then have "(2::nat) ^ Suc (log2n m) \<le> 2 ^ (q + mb)" by (intro power_increasing) simp_all
    then have "nearest q m \<le> 2 ^ mb" using nearest_le [OF q(2), of m mb] mlt by simp
    then have "log2n R \<le> log2n (2 ^ mb)" using Rn by (intro log2n_mono r(2)) simp
    with lq mb show ?thesis by simp
  qed
qed

lemma nearest_shift:
  assumes "d > 0"
  shows "nearest (k + d) (s * 2 ^ k) = (s + 2 ^ (d - 1)) div 2 ^ d"
proof -
  have "k + d - 1 = (d - 1) + k" using assms by simp
  then have "s * 2 ^ k + 2 ^ (k + d - 1) = (s + 2 ^ (d - 1)) * 2 ^ k" by (simp add: power_add algebra_simps)
  then show ?thesis by (simp add: nearest_def power_add mult.commute [of "2 ^ k"])
qed

text \<open>The rounding quotient on words.\<close>

lemma quotient_ok:
  assumes "unat sig < 2 ^ 53" "d > 0"
  shows "\<exists>r. (if int d < 64 then do { half \<leftarrow> shl 1 (int d - 1); shr (sig + half) (int d) } else Some 0) = Some r \<and>
     unat r = (unat sig + 2 ^ (d - 1)) div 2 ^ d"
proof (cases "d < 64")
  case True
  have p: "(2::nat) ^ (d - 1) \<le> 2 ^ 62" using True by (intro power_increasing) simp_all
  have d1: "nat (int d - 1) = d - 1" by simp
  obtain half where h: "shl 1 (int d - 1) = Some half" "unat half = 2 ^ (d - 1)"
    using unat_shl [of "int d - 1" 1] assms(2) True p d1 by auto
  have "unat (sig + half) = unat sig + 2 ^ (d - 1)"
    using h(2) p assms(1) by (simp add: unat_plus_if')
  moreover obtain r where "shr (sig + half) (int d) = Some r" "unat r = unat (sig + half) div 2 ^ d"
    using unat_shr [of "int d" "sig + half"] True by auto
  ultimately show ?thesis using True h(1) by simp
next
  case False
  have "(2::nat) ^ 53 \<le> 2 ^ (d - 1)" using False by (intro power_increasing) simp_all
  then have "unat sig + 2 ^ (d - 1) < 2 * 2 ^ (d - 1)" using assms(1) by linarith
  also have "2 * 2 ^ (d - 1) = (2::nat) ^ d" using assms(2) by (cases d) simp_all
  finally show ?thesis using False by simp
qed


lemma flushed_ok:
  assumes f: "fmt_ok f M K" and s: "unat sg = s * 2 ^ (M + K)" "s < 2"
  shows "finite_elem M K sg" "sign_of M K sg = s" "mag M K sg = 0"
proof -
  note ff = fmt_facts [OF f]
  have "unat sg = s * 2 ^ (M + K) + (0 * 2 ^ M + 0)" using s(1) by simp
  from elem_made [OF this] have e: "sign_of M K sg = s" "expo_of M K sg = 0" "frac_of M sg = 0" by simp_all
  have "s * 2 ^ (M + K) < 2 * 2 ^ (M + K)" using s(2) by simp
  moreover have "(1::nat) < 2 ^ K" using ff(5) by (intro one_less_power) simp_all
  ultimately show "finite_elem M K sg" "sign_of M K sg = s" "mag M K sg = 0"
    using e s(1) by (simp_all add: finite_elem_def element_def mag_def)
qed

text \<open>A quantum that is not above the last place of the element leaves it as it is.\<close>

lemma round_mag_exact:
  assumes ok: "mx_opts_ok opts" and m: "m = sig * 2 ^ k" "sig > 0" and M: "3 < M" "k > 0 \<longrightarrow> 2 ^ M \<le> sig"
    and Q: "mx_quantum opts S m \<le> int k"
  shows "mx_round_mag opts S m = m"
proof (cases "mx_quantum opts S m \<le> 0")
  case False
  define q where "q = nat (mx_quantum opts S m)"
  have q: "mx_quantum opts S m = int q" "q > 0" "q \<le> k" using False Q by (simp_all add: q_def)
  have m0: "m > 0" using m by simp
  have lm: "log2n m = log2n sig + k" using m log2n_mult by simp
  have "log2n (2 ^ M) \<le> log2n sig" using M(2) q by (intro log2n_mono) simp_all
  then have "int (M + k) \<le> int (log2n m)" using lm by simp
  moreover have qm: "int (log2n m) \<le> int q + clo_mx_mbits opts" using q(1) by (auto simp: mx_quantum_def)
  ultimately have mb: "clo_mx_mbits opts \<ge> int M" using q(3) by simp
  define r where "r = sig * 2 ^ (k - q)"
  have mr: "m = r * 2 ^ q" using m q(3) by (simp add: r_def flip: power_add)
  have r0: "r > 0" using m(2) by (simp add: r_def)
  have "log2n m = log2n r + q" using mr log2n_mult [OF r0] by simp
  then have "log2n r < nat (clo_mx_mbits opts + 1)" using qm mb by linarith
  then have "(2::nat) ^ Suc (log2n r) \<le> 2 ^ nat (clo_mx_mbits opts + 1)" by (intro power_increasing) simp_all
  then have "r < 2 ^ nat (clo_mx_mbits opts + 1)" using log2n_bounds [OF r0] by simp
  then have "\<not> r > max_sig_nat opts" using mb M(1) by (simp add: max_sig_nat_def)
  moreover have "nearest q m = r" using nearest_exact [OF q(2)] mr by simp
  ultimately show ?thesis using round_mag_cut [OF m0 q(1,2)] mr by (simp add: cut_sig_def)
qed (simp add: mx_round_mag_def)

text \<open>The last step of \<^verbatim>\<open>mx_quantize\<close>, for a rounded significand \<open>r\<close> that is not zero.\<close>

definition mx_finish :: "ml_opts \<Rightarrow> FpFmt \<Rightarrow> ULong \<Rightarrow> int \<Rightarrow> int \<Rightarrow> ULong \<Rightarrow> mx_stats \<Rightarrow> (ULong \<times> mx_stats) option" where
  "mx_finish opts f sg shared qe r st = do {
     max_sig \<leftarrow> mx_max_sig opts;
     let (r, st) = (if qe = shared + clo_mx_emax opts - clo_mx_mbits opts \<and> r > max_sig
          then (max_sig, st\<lparr>mx_values_saturated := mx_values_saturated st + 1\<rparr>) else (r, st));
     x \<leftarrow> mx_pack f sg r qe;
     Some (x, st) }"

lemma quantize_steps:
  fixes opts :: ml_opts
  assumes f: "fmt_ok f M K" and el: "element M K v" and m: "mag M K v \<noteq> 0"
    and S: "shared = (1 - bias f - mant f) + S"
  defines "k \<equiv> expo_of M K v - 1" and "Q \<equiv> mx_quantum opts S (mag M K v)"
  shows "\<exists>sg sig. unat sg = sign_of M K v * 2 ^ (M + K) \<and> mag M K v = unat sig * 2 ^ k \<and>
     unat sig > 0 \<and> unat sig < 2 ^ (M + 1) \<and> (k > 0 \<longrightarrow> 2 ^ M \<le> unat sig) \<and>
     mx_quantize opts f st v shared =
        (if Q - int k \<le> 0 then Some (v, st)
         else do {
           r \<leftarrow> (if Q - int k < 64 then do { half \<leftarrow> shl 1 (Q - int k - 1); shr (sig + half) (Q - int k) } else Some 0);
           if r = 0 then Some (sg, st\<lparr>mx_values_flushed := mx_values_flushed st + 1\<rparr>)
           else mx_finish opts f sg shared ((1 - bias f - mant f) + Q) r st })"
proof -
  let ?L = "1 - bias f - mant f"
  obtain sbit where sb: "shl 1 (8 * esz f - 1) = Some sbit" "unat (v AND sbit) = sign_of M K v * 2 ^ (M + K)"
    "unat (v AND NOT (v AND sbit)) = expo_of M K v * 2 ^ M + frac_of M v"
    using sign_ok [OF f el] by blast
  define sg where "sg = v AND sbit"
  obtain sig where sig: "mx_split f v = Some (sig, ?L + int k)" "mag M K v = unat sig * 2 ^ k" "unat sig < 2 ^ (M + 1)"
    "expo_of M K v > 0 \<longrightarrow> 2 ^ M \<le> unat sig"
    using mag_sig [OF f, of v, folded k_def] by (elim exE conjE) (rule that)
  have s0: "sig \<noteq> 0" "unat sig > 0" using sig(2) m by (auto intro: gr0I)
  have nz: "v AND NOT sg \<noteq> 0" using m mag_zero_iff [OF f, of v] sb(3) by (auto simp: sg_def)
  have lm: "log2n (mag M K v) = log2n (unat sig) + k" using sig(2) log2n_mult [OF s0(2)] by simp
  have qe: "(if ?L + int k + 63 - (63 - int (log2n (unat sig))) - shared \<ge> clo_mx_emin opts
       then ?L + int k + 63 - (63 - int (log2n (unat sig))) else shared + clo_mx_emin opts) - clo_mx_mbits opts = ?L + Q"
    using lm S by (auto simp: Q_def mx_quantum_def max_def)
  have sh: "?L + Q - (?L + int k) = Q - int k" by simp
  have "mx_quantize opts f st v shared =
      (if Q - int k \<le> 0 then Some (v, st)
       else do {
         r \<leftarrow> (if Q - int k < 64 then do { half \<leftarrow> shl 1 (Q - int k - 1); shr (sig + half) (Q - int k) } else Some 0);
         if r = 0 then Some (sg, st\<lparr>mx_values_flushed := mx_values_flushed st + 1\<rparr>)
         else mx_finish opts f sg shared (?L + Q) r st })"
    unfolding mx_quantize_def sb(1) bind.bind_lunit Let_def sg_def [symmetric] sig(1) prod.case
      clzll_ok [OF s0(1)] qe sh mx_finish_def
    using nz by (simp only: if_False)
  moreover have "unat sg = sign_of M K v * 2 ^ (M + K)" using sb(2) by (simp only: sg_def)
  moreover have "k > 0 \<longrightarrow> 2 ^ M \<le> unat sig" using sig(4) by (simp add: k_def)
  ultimately show ?thesis using sig(2,3) s0(2) by blast
qed

lemma finish_ok:
  assumes f: "fmt_ok f M K" and ok: "mx_opts_ok opts" and sg: "unat sg = s * 2 ^ (M + K)" "s < 2"
    and S: "shared = (1 - bias f - mant f) + S" and qe: "qe = (1 - bias f - mant f) + int q"
    and r: "unat r = R" "0 < R" "R \<le> 2 ^ M"
    and top: "int (log2n (cut_sig opts S q R) + q) + 1 - int M < 2 ^ K - 1"
  shows "\<exists>x st'. mx_finish opts f sg shared qe r st = Some (x, st') \<and> finite_elem M K x \<and>
     sign_of M K x = s \<and> mag M K x = cut_sig opts S q R * 2 ^ q"
proof -
  define C where "C = cut_sig opts S q R"
  have C: "C > 0" "C < 2 ^ (M + 1)"
    using cut_pos [OF ok r(2)] le_less_trans [OF order_trans [OF cut_le [of opts S q R] r(3)], of "2 ^ (M + 1)"]
    by (simp_all add: C_def)
  obtain mxs where ms: "mx_max_sig opts = Some mxs" "unat mxs = max_sig_nat opts" using max_sig_ok [OF ok] by blast
  have qc: "qe = shared + clo_mx_emax opts - clo_mx_mbits opts \<longleftrightarrow>
      int q = S + clo_mx_emax opts - clo_mx_mbits opts" using S qe by linarith
  obtain r' st' where r': "(if qe = shared + clo_mx_emax opts - clo_mx_mbits opts \<and> r > mxs
        then (mxs, st\<lparr>mx_values_saturated := mx_values_saturated st + 1\<rparr>) else (r, st)) = (r', st')"
    by (cases "qe = shared + clo_mx_emax opts - clo_mx_mbits opts \<and> r > mxs") auto
  then have "unat r' = C"
    using ms(2) r(1) unfolding qc C_def cut_sig_def by (auto simp: word_less_nat_alt split: if_splits)
  from pack_ok [OF f sg this C qe] top obtain x where
    x: "mx_pack f sg r' qe = Some x" "finite_elem M K x" "sign_of M K x = s" "mag M K x = C * 2 ^ q"
    by (auto simp: C_def)
  have "mx_finish opts f sg shared qe r st = Some (x, st')"
    unfolding mx_finish_def ms(1) bind.bind_lunit r' Let_def using x(1) by simp
  with x show ?thesis by (simp add: C_def)
qed

lemma quantize_ok:
  assumes f: "fmt_ok f M K" and ok: "mx_opts_ok opts" and v: "finite_elem M K v"
    and S: "shared = (1 - bias f - mant f) + S"
    and l: "mag M K v > 0 \<Longrightarrow> int (log2n (mag M K v)) \<le> S + clo_mx_emax opts"
    and top: "S + clo_mx_emax opts + 1 - int M \<le> 2 ^ K - 2"
  shows "\<exists>x st'. mx_quantize opts f st v shared = Some (x, st') \<and> finite_elem M K x \<and>
     sign_of M K x = sign_of M K v \<and> mag M K x = mx_round_mag opts S (mag M K v)"
proof -
  note ff = fmt_facts [OF f]
  have el: "element M K v" using v by (simp add: finite_elem_def)
  define m where "m = mag M K v"
  show ?thesis
  proof (cases "m = 0")
    case True
    obtain sbit where sb: "shl 1 (8 * esz f - 1) = Some sbit"
      "unat (v AND NOT (v AND sbit)) = expo_of M K v * 2 ^ M + frac_of M v"
      using sign_ok [OF f el] by blast
    then have "unat (v AND NOT (v AND sbit)) = 0" using mag_zero_iff [OF f, of v] True by (simp add: m_def)
    then have "v AND NOT (v AND sbit) = 0" by (simp add: unat_eq_0)
    with sb(1) have "mx_quantize opts f st v shared = Some (v, st)" by (simp add: mx_quantize_def)
    with v True show ?thesis by (simp add: mx_round_mag_def m_def)
  next
    case False
    define k where "k = expo_of M K v - 1"
    define Q where "Q = mx_quantum opts S m"
    obtain sg sig where sg: "unat sg = sign_of M K v * 2 ^ (M + K)" and
      sig: "m = unat sig * 2 ^ k" "unat sig > 0" "unat sig < 2 ^ (M + 1)" "k > 0 \<longrightarrow> 2 ^ M \<le> unat sig" and
      quant: "mx_quantize opts f st v shared =
        (if Q - int k \<le> 0 then Some (v, st)
         else do {
           r \<leftarrow> (if Q - int k < 64 then do { half \<leftarrow> shl 1 (Q - int k - 1); shr (sig + half) (Q - int k) } else Some 0);
           if r = 0 then Some (sg, st\<lparr>mx_values_flushed := mx_values_flushed st + 1\<rparr>)
           else mx_finish opts f sg shared ((1 - bias f - mant f) + Q) r st })"
      using quantize_steps [OF f el _ S, of opts st, folded m_def k_def Q_def, OF False]
      by (elim exE conjE) (rule that)
    have m0: "m > 0" using False by simp
    have s2: "sign_of M K v < 2" using sign_less [OF el] .
    show ?thesis
    proof (cases "Q \<le> int k")
      case True
      have "mx_round_mag opts S m = m"
        using round_mag_exact [OF ok sig(1,2) ff(4) sig(4)] True by (simp add: Q_def)
      with True quant v show ?thesis by (simp add: m_def)
    next
      case False
      define d where "d = nat (Q - int k)"
      have d: "d > 0" "Q - int k = int d" "Q = int (k + d)" using False by (simp_all add: d_def)
      have kd: "k + d > 0" using d(1) by simp
      define N where "N = nearest (k + d) m"
      have near: "N = nearest d (unat sig)" using nearest_shift [OF d(1)] sig(1) by (simp add: N_def nearest_def)
      have "(2::nat) ^ (M + 1) \<le> 2 ^ 53" using ff(8) by (intro power_increasing) simp_all
      then have "unat sig < 2 ^ 53" using sig(3) by linarith
      from quotient_ok [OF this d(1)] near obtain r where
        r: "(if int d < 64 then do { half \<leftarrow> shl 1 (int d - 1); shr (sig + half) (int d) } else Some 0) = Some r"
        "unat r = N" unfolding nearest_def by (elim exE conjE) (rule that, assumption, simp only:)
      have Qr: "mx_quantize opts f st v shared =
          (if r = 0 then Some (sg, st\<lparr>mx_values_flushed := mx_values_flushed st + 1\<rparr>)
           else mx_finish opts f sg shared ((1 - bias f - mant f) + Q) r st)"
        unfolding quant d(2) r(1) bind.bind_lunit using d(1) by simp
      have rm: "mx_round_mag opts S m = cut_sig opts S (k + d) N * 2 ^ (k + d)"
        unfolding N_def by (rule round_mag_cut [OF m0 d(3) [unfolded Q_def] kd])
      show ?thesis
      proof (cases "r = 0")
        case True
        then have "mx_round_mag opts S m = 0" using rm r(2) by (simp add: cut_sig_def)
        with True Qr flushed_ok [OF f sg s2] show ?thesis by (simp add: m_def)
      next
        case False
        then have N0: "N > 0" using r(2) by (metis gr0I unat_eq_0)
        have "(2::nat) ^ (M + 1) \<le> 2 ^ (d + M)" using d(1) by (intro power_increasing) simp_all
        then have NM: "N \<le> 2 ^ M" unfolding near using sig(3) by (intro nearest_le [OF d(1)]) linarith
        have "int (log2n (cut_sig opts S (k + d) N) + (k + d)) \<le> S + clo_mx_emax opts"
          by (rule round_range [OF ok m0 d(3) [unfolded Q_def] kd])
            (use l m0 cut_pos [OF ok N0] in \<open>simp_all add: N_def m_def\<close>)
        with top have tp: "int (log2n (cut_sig opts S (k + d) N) + (k + d)) + 1 - int M < 2 ^ K - 1" by linarith
        from finish_ok [OF f ok sg s2 S _ r(2) N0 NM tp] d(3) Qr False rm show ?thesis by (simp add: m_def)
      qed
    qed
  qed
qed

end
