(* ===== verification/Ml_MxGroup.thy ===== *)
theory Ml_MxGroup
  imports Ml_MxRound
begin

text \<open>
  The encoding of groups of elements in memory: what the two passes of \<^verbatim>\<open>mx_encode_block\<close> read and
  write, the loop over the groups that a store touches, that encoding an encoded group changes
  nothing, and the memory range of all that.
\<close>

section \<open>Elements in memory\<close>

lemma bit_of_bytes:
  "length bs \<le> 8 \<Longrightarrow> bit (of_bytes bs) i \<longleftrightarrow> i div 8 < length bs \<and> bit (bs ! (i div 8)) (i mod 8)"
proof (induction bs arbitrary: i)
  case (Cons b bs)
  have "bit (of_bytes (b # bs)) i \<longleftrightarrow> (i < 8 \<and> bit b i) \<or> (8 \<le> i \<and> i < 64 \<and> bit (of_bytes bs) (i - 8))"
    by (auto simp: of_bytes_def bit_or_iff bit_push_bit_iff bit_ucast_iff dest: bit_imp_le_length)
  moreover have "(i - 8) div 8 = i div 8 - 1" "(i - 8) mod 8 = i mod 8" 
      "i div 8 - 1 < length bs \<longleftrightarrow> i div 8 < Suc (length bs)" "i div 8 \<noteq> 0" if "8 \<le> i"
    using that by (auto simp: le_div_geq le_mod_geq)
  moreover have "i < 64" if "i div 8 < Suc (length bs)" using that Cons.prems by (simp add: div_less_iff_less_mult)
  ultimately show ?case using Cons.IH [of "i - 8"] Cons.prems
    by (cases "i < 8") (auto simp: nth_Cons')
qed (simp add: of_bytes_def)

lemma bit_to_bytes: "j < n \<Longrightarrow> bit (to_bytes n w ! j) k \<longleftrightarrow> k < 8 \<and> bit w (8 * j + k)"
  by (auto simp: to_bytes_def bit_ucast_iff bit_drop_bit_eq dest: bit_imp_le_length)

lemma length_to_bytes [simp]: "length (to_bytes n w) = n"
  by (simp add: to_bytes_def)

lemma of_to_bytes: "n \<le> 8 \<Longrightarrow> of_bytes (to_bytes n w) = take_bit (8 * n) w"
  by (rule bit_eqI) (auto simp: bit_of_bytes bit_to_bytes bit_take_bit_iff div_less_iff_less_mult mult.commute)

lemma to_of_bytes: "length bs \<le> 8 \<Longrightarrow> to_bytes (length bs) (of_bytes bs) = bs"
proof (rule nth_equalityI)
  fix j assume "length bs \<le> 8" "j < length (to_bytes (length bs) (of_bytes bs))"
  then show "to_bytes (length bs) (of_bytes bs) ! j = bs ! j"
    by (intro bit_eqI) (auto simp: bit_of_bytes bit_to_bytes)
qed simp

definition ebytes :: "FpFmt \<Rightarrow> nat" where
  "ebytes f = (if esz f = 8 then 8 else 4)"

lemma ebytes_facts:
  assumes "fmt_ok f M K"
  shows "ebytes f \<le> 8" "8 * ebytes f = M + K + 1" "esz f = int (ebytes f)" "ebytes f > 0"
  using assms by (auto simp: fmt_ok_def ebytes_def FMT64_def FMT32_def)

lemma element_bytes:
  assumes "fmt_ok f M K"
  shows "element M K v \<longleftrightarrow> take_bit (8 * ebytes f) v = v"
proof -
  have "take_bit (8 * ebytes f) v = v \<longleftrightarrow> take_bit (8 * ebytes f) (unat v) = unat v"
    by (metis unsigned_take_bit_eq unsigned_word_eqI)
  then show ?thesis using ebytes_facts(2) [OF assms] by (simp add: element_def take_bit_nat_eq_self_iff)
qed

text \<open>The bytes of a sequence of elements, and their addresses.\<close>

definition elem_bytes :: "FpFmt \<Rightarrow> ULong list \<Rightarrow> 8 word list" where
  "elem_bytes f vs = concat (map (to_bytes (ebytes f)) vs)"

fun elem_at :: "FpFmt \<Rightarrow> Addr \<Rightarrow> nat \<Rightarrow> Addr list" where
  "elem_at f a 0 = []"
| "elem_at f a (Suc n) = a # elem_at f (a + of_nat (ebytes f)) n"

lemma elem_bytes_simps [simp]:
  "elem_bytes f [] = []" "elem_bytes f (v # vs) = to_bytes (ebytes f) v @ elem_bytes f vs"
  by (simp_all add: elem_bytes_def)

lemma length_elem_bytes [simp]: "length (elem_bytes f vs) = ebytes f * length vs"
  by (induction vs) simp_all

lemma elem_at_map: "elem_at f a n = map (\<lambda>i. a + of_nat i * of_nat (ebytes f)) [0..<n]"
proof (induction n arbitrary: a)
  case (Suc n)
  have "map (\<lambda>i. a + of_nat i * of_nat (ebytes f)) [0..<Suc n] =
      a # map (\<lambda>i. a + of_nat (Suc i) * of_nat (ebytes f)) [0..<n]"
    by (simp add: upt_rec [of 0] map_Suc_upt [symmetric] del: upt_Suc)
  then show ?case using Suc by (simp add: algebra_simps)
qed simp

lemma mapped_elems:
  assumes f: "fmt_ok f M K"
  shows "mapped m a (ebytes f * n) \<Longrightarrow>
    \<exists>vs. length vs = n \<and> list_all (element M K) vs \<and> holds_bytes m a (elem_bytes f vs)"
proof (induction n arbitrary: a)
  case (Suc n)
  then have m: "mapped m a (ebytes f)" "mapped m (a + of_nat (ebytes f)) (ebytes f * n)"
    using mapped_append [of m a "ebytes f" "ebytes f * n"] by simp_all
  from Suc.IH [OF m(2)] obtain vs where
    vs: "length vs = n" "list_all (element M K) vs" "holds_bytes m (a + of_nat (ebytes f)) (elem_bytes f vs)" by blast
  define bs where "bs = map (\<lambda>i. the (m (a + of_nat i))) [0..<ebytes f]"
  have b: "length bs = ebytes f" "holds_bytes m a bs"
    using m(1) by (auto simp: bs_def holds_bytes_def mapped_def)
  have t: "to_bytes (ebytes f) (of_bytes bs) = bs" using to_of_bytes [of bs] b(1) ebytes_facts(1) [OF f] by simp
  then have "element M K (of_bytes bs)"
    using element_bytes [OF f] of_to_bytes [OF ebytes_facts(1) [OF f], of "of_bytes bs"] by simp
  with vs b t show ?case by (intro exI [of _ "of_bytes bs # vs"]) (simp add: holds_append)
qed (simp add: holds_bytes_def)

lemma load_ok:
  assumes "fmt_ok f M K" "element M K v" "holds_bytes m a (to_bytes (ebytes f) v)"
  shows "mx_load f m a = Some v"
  using rd_bytes_holds [OF assms(3)] of_to_bytes [OF ebytes_facts(1) [OF assms(1)], of v] assms(2)
  by (simp add: mx_load_def ebytes_def element_bytes [OF assms(1)])

lemma over_same_bytes: "holds_bytes m a bs \<Longrightarrow> over m a bs = m"
proof
  fix x assume h: "holds_bytes m a bs"
  show "over m a bs x = m x"
  proof (cases "unat (x - a) < length bs")
    case True
    then have "m (a + of_nat (unat (x - a))) = Some (bs ! unat (x - a))" using h unfolding holds_bytes_def by blast
    with True show ?thesis by (simp add: over_def)
  qed (simp add: over_outside)
qed

lemma holds_mapped: "holds_bytes m a bs \<Longrightarrow> mapped m a (length bs)"
  by (simp add: holds_bytes_def mapped_def)

lemma holds_rest_over:
  assumes "holds_bytes m a (xs @ ys)" "length xs = length xs'" "length xs + length ys \<le> 2 ^ 64"
  shows "holds_bytes (over m a xs') (a + of_nat (length xs)) ys"
proof -
  have "holds_bytes m (a + of_nat (length xs)) ys" using assms(1) by (simp add: holds_append)
  moreover have "\<not> unat (a + of_nat (length xs) + of_nat i - a :: Addr) < length xs'" if "i < length ys" for i
    using that assms(2,3) unat64 [of "length xs + i"] by (simp add: algebra_simps)
  ultimately show ?thesis unfolding holds_bytes_def over_def by simp
qed

text \<open>The rewriting loop replaces each element by its image.\<close>

lemma rewrite_ok:
  assumes f: "fmt_ok f M K"
  shows "holds_bytes m a (elem_bytes f vs) \<Longrightarrow> list_all (element M K) vs \<Longrightarrow> ebytes f * length vs \<le> 2 ^ 64 \<Longrightarrow>
    (\<And>v st. v \<in> set vs \<Longrightarrow> \<exists>w st'. g st v = Some (w, st') \<and> P v w) \<Longrightarrow>
    \<exists>ws st'. mx_rewrite f g m st (elem_at f a (length vs)) = Some (over m a (elem_bytes f ws), st') \<and>
      list_all2 P vs ws"
proof (induction vs arbitrary: m a st)
  case (Cons v vs)
  let ?n = "ebytes f"
  have h: "holds_bytes m a (to_bytes ?n v)" using Cons.prems(1) by (simp add: holds_append)
  have el: "element M K v" using Cons.prems(2) by simp
  obtain w st1 where g: "g st v = Some (w, st1)" "P v w" using Cons.prems(4) [of v st] by auto
  let ?m1 = "over m a (to_bytes ?n w)"
  have len: "ebytes f + ebytes f * length vs \<le> 2 ^ 64" using Cons.prems(3) by simp
  have "mx_store f m a w = Some ?m1"
    using wr_bytes_over [of m a "to_bytes ?n w"] holds_mapped [OF h] ebytes_facts(1) [OF f]
    by (simp add: mx_store_def ebytes_def)
  moreover have "m = ?m1" if "w = v" using over_same_bytes [OF h] that by simp
  ultimately obtain st2 where st2: "(if w \<noteq> v then do {
         m \<leftarrow> mx_store f m a w;
         Some (m, st1\<lparr>mx_values_changed := mx_values_changed st1 + 1\<rparr>)
       } else Some (m, st1)) = Some (?m1, st2)"
    by (cases "w = v") auto
  have rest: "holds_bytes ?m1 (a + of_nat ?n) (elem_bytes f vs)"
    using holds_rest_over [of m a "to_bytes ?n v" "elem_bytes f vs" "to_bytes ?n w"] Cons.prems(1) len by simp
  obtain ws st3 where ws: "mx_rewrite f g ?m1 st2 (elem_at f (a + of_nat ?n) (length vs)) =
      Some (over ?m1 (a + of_nat ?n) (elem_bytes f ws), st3)" "list_all2 P vs ws"
    using Cons.IH [OF rest, of st2] Cons.prems len by auto
  have "mx_rewrite f g m st (elem_at f a (length (v # vs))) =
      Some (over ?m1 (a + of_nat ?n) (elem_bytes f ws), st3)"
    using load_ok [OF f el h] g(1) st2 ws(1) by (simp del: of_nat_add)
  moreover have "over ?m1 (a + of_nat ?n) (elem_bytes f ws) = over m a (elem_bytes f (w # ws))"
    using over_append [of "to_bytes ?n w" "elem_bytes f ws" m a] len list_all2_lengthD [OF ws(2)] by simp
  ultimately show ?case using g(2) ws(2) by (intro exI [of _ "w # ws"] exI [of _ st3]) simp
qed simp

section \<open>Groups of elements\<close>

text \<open>The largest exponent among the elements, relative to the least subnormal.\<close>

fun lead_max :: "nat \<Rightarrow> nat \<Rightarrow> ULong list \<Rightarrow> nat" where
  "lead_max M K [] = 0"
| "lead_max M K (v # vs) = max (log2n (mag M K v)) (lead_max M K vs)"

definition nonzero :: "nat \<Rightarrow> nat \<Rightarrow> ULong list \<Rightarrow> bool" where
  "nonzero M K vs \<longleftrightarrow> (\<exists>v \<in> set vs. mag M K v \<noteq> 0)"

lemma lead_max_ge: "v \<in> set vs \<Longrightarrow> log2n (mag M K v) \<le> lead_max M K vs"
  by (induction vs) auto

lemma log2n_0 [simp]: "log2n 0 = 0"
  by (simp add: log2n.simps)

lemma lead_max_le: "(\<And>v. v \<in> set vs \<Longrightarrow> mag M K v > 0 \<Longrightarrow> log2n (mag M K v) \<le> n) \<Longrightarrow> lead_max M K vs \<le> n"
proof (induction vs)
  case (Cons v vs)
  then have "log2n (mag M K v) \<le> n" by (cases "mag M K v = 0") auto
  with Cons show ?case by auto
qed simp

lemma lead_max_in: "nonzero M K vs \<Longrightarrow> \<exists>v \<in> set vs. mag M K v > 0 \<and> log2n (mag M K v) = lead_max M K vs"
proof (induction vs)
  case (Cons v vs)
  show ?case
  proof (cases "nonzero M K vs")
    case True
    then obtain u where "u \<in> set vs" "mag M K u > 0" "log2n (mag M K u) = lead_max M K vs" using Cons.IH by blast
    then show ?thesis by (cases "mag M K v = 0") (auto simp: max_def)
  next
    case False
    then have "lead_max M K vs \<le> 0" by (intro lead_max_le) (simp add: nonzero_def)
    with False Cons.prems show ?thesis by (auto simp: nonzero_def)
  qed
qed (simp add: nonzero_def)

text \<open>Classifying one element, as the first loop does.\<close>

lemma zero_test:
  assumes f: "fmt_ok f M K" and el: "element M K v" and s: "shl 1 (8 * esz f - 1) = Some sbit"
  shows "v AND NOT sbit = 0 \<longleftrightarrow> mag M K v = 0"
proof -
  have "v AND NOT sbit = v AND NOT (v AND sbit)" by (rule bit_eqI) (auto simp: bit_and_iff bit_not_iff bit_or_iff)
  then have "unat (v AND NOT sbit) = expo_of M K v * 2 ^ M + frac_of M v"
    using sign_ok [OF f el] s by auto
  with mag_zero_iff [OF f, of v] show ?thesis by (metis unat_0 unat_eq_0)
qed

lemma finite_test:
  assumes f: "fmt_ok f M K" and el: "element M K v"
  shows "\<exists>x. shr v (mant f) = Some x \<and> (x AND emask f = emask f \<longleftrightarrow> \<not> finite_elem M K v)"
proof -
  note ff = fmt_facts [OF f]
  obtain x where x: "shr v (mant f) = Some x" "unat x = unat v div 2 ^ M"
    using unat_shr [of "int M" v] ff by auto
  have e: "emask f = 2 ^ K - 1" using f by (auto simp: fmt_ok_def FMT64_def FMT32_def)
  have "unat (x AND emask f) = expo_of M K v"
    using unat_and_mask [of K x] ff(3) x(2) e by (simp add: expo_of_def)
  then have "x AND emask f = emask f \<longleftrightarrow> expo_of M K v = 2 ^ K - 1"
    using ff(7) by (metis unsigned_word_eqI)
  with x(1) el show ?thesis by (auto simp: finite_elem_def)
qed

lemma scan_ok:
  assumes f: "fmt_ok f M K" and s: "shl 1 (8 * esz f - 1) = Some sbit"
  shows "holds_bytes m a (elem_bytes f vs) \<Longrightarrow> list_all (element M K) vs \<Longrightarrow>
    (anyv \<Longrightarrow> lmax = (1 - bias f - mant f) + int l0) \<Longrightarrow>
    \<exists>anyv' lmax'. mx_scan f m sbit (elem_at f a (length vs)) anyv nonf lmax =
        Some (anyv', nonf \<or> \<not> list_all (finite_elem M K) vs, lmax') \<and>
      (list_all (finite_elem M K) vs \<longrightarrow> anyv' = (anyv \<or> nonzero M K vs)) \<and>
      (list_all (finite_elem M K) vs \<longrightarrow> anyv' \<longrightarrow>
         lmax' = (1 - bias f - mant f) + int (max (if anyv then l0 else 0) (lead_max M K vs)))"
proof (induction vs arbitrary: a anyv nonf lmax l0)
  case Nil
  then show ?case by (simp add: nonzero_def)
next
  case (Cons v vs)
  let ?L = "1 - bias f - mant f"
  have h: "holds_bytes m a (to_bytes (ebytes f) v)" "holds_bytes m (a + of_nat (ebytes f)) (elem_bytes f vs)"
    using Cons.prems(1) by (simp_all add: holds_append)
  have el: "element M K v" "list_all (element M K) vs" using Cons.prems(2) by simp_all
  note ld = load_ok [OF f el(1) h(1)]
  note IH = Cons.IH [OF h(2) el(2)]
  obtain x where x: "shr v (mant f) = Some x" "x AND emask f = emask f \<longleftrightarrow> \<not> finite_elem M K v"
    using finite_test [OF f el(1)] by blast
  consider (zero) "mag M K v = 0" | (nonfin) "mag M K v \<noteq> 0" "\<not> finite_elem M K v"
    | (num) "mag M K v \<noteq> 0" "finite_elem M K v" by blast
  then show ?case
  proof cases
    case zero
    have "expo_of M K v = 0" using zero by (auto simp: mag_def split: if_splits)
    moreover have "(1::nat) < 2 ^ K" using fmt_facts(5) [OF f] by (intro one_less_power) simp_all
    ultimately have "finite_elem M K v" using el(1) by (simp add: finite_elem_def)
    with zero IH [of anyv lmax l0 nonf] Cons.prems(3) ld zero_test [OF f el(1) s] show ?thesis
      by (auto simp: nonzero_def)
  next
    case nonfin
    with IH [of anyv lmax l0 True] Cons.prems(3) ld zero_test [OF f el(1) s] x show ?thesis by auto
  next
    case num
    define l1 where "l1 = (if anyv then max l0 (log2n (mag M K v)) else log2n (mag M K v))"
    have l: "(if \<not> anyv \<or> ?L + int (log2n (mag M K v)) > lmax then ?L + int (log2n (mag M K v)) else lmax) = ?L + int l1"
      using Cons.prems(3) by (auto simp: l1_def)
    have "mx_scan f m sbit (elem_at f a (length (v # vs))) anyv nonf lmax =
        mx_scan f m sbit (elem_at f (a + of_nat (ebytes f)) (length vs)) True nonf (?L + int l1)"
      using num ld zero_test [OF f el(1) s] x lead_ok [OF f num(1)] l by (auto split: if_splits)
    with IH [of True "?L + int l1" l1 nonf] num show ?thesis
      by (auto simp: nonzero_def l1_def max.assoc max.left_commute)
  qed
qed

section \<open>The encoding of a group\<close>

definition rounded :: "ml_opts \<Rightarrow> nat \<Rightarrow> nat \<Rightarrow> int \<Rightarrow> ULong \<Rightarrow> ULong \<Rightarrow> bool" where
  "rounded opts M K S v w \<longleftrightarrow> finite_elem M K w \<and> sign_of M K w = sign_of M K v \<and>
     mag M K w = mx_round_mag opts S (mag M K v)"

definition quiet_nan :: "nat \<Rightarrow> nat \<Rightarrow> ULong \<Rightarrow> bool" where
  "quiet_nan M K w \<longleftrightarrow> sign_of M K w = 0 \<and> expo_of M K w = 2 ^ K - 1 \<and> frac_of M w = 2 ^ (M - 1)"

text \<open>The largest exponent of a scale, and the exponent of the scale of a group.\<close>

definition mx_semax :: "ml_opts \<Rightarrow> int" where
  "mx_semax opts = 2 ^ nat (clo_mx_scale_bits opts - 1) - 1"

definition mx_scale_nan :: "ml_opts \<Rightarrow> FpFmt \<Rightarrow> nat \<Rightarrow> nat \<Rightarrow> ULong list \<Rightarrow> bool" where
  "mx_scale_nan opts f M K vs \<longleftrightarrow> \<not> list_all (finite_elem M K) vs \<or>
     (nonzero M K vs \<and> (1 - bias f - mant f) + int (lead_max M K vs) - clo_mx_emax opts > mx_semax opts)"

definition mx_scale :: "ml_opts \<Rightarrow> FpFmt \<Rightarrow> nat \<Rightarrow> nat \<Rightarrow> ULong list \<Rightarrow> int" where
  "mx_scale opts f M K vs =
     max (int (lead_max M K vs) - clo_mx_emax opts) (- mx_semax opts - (1 - bias f - mant f))"

definition mx_encoded :: "ml_opts \<Rightarrow> FpFmt \<Rightarrow> nat \<Rightarrow> nat \<Rightarrow> ULong list \<Rightarrow> ULong list \<Rightarrow> bool" where
  "mx_encoded opts f M K vs ws \<longleftrightarrow>
     (if mx_scale_nan opts f M K vs then length ws = length vs \<and> list_all (quiet_nan M K) ws
      else list_all2 (rounded opts M K (mx_scale opts f M K vs)) vs ws)"

lemma nan_element_ok:
  assumes f: "fmt_ok f M K"
  shows "\<exists>q. mx_nan_element f = Some q \<and> quiet_nan M K q"
proof -
  note ff = fmt_facts [OF f]
  have "mx_nan_element f = Some (if f = FMT64 then 0x7FF8000000000000 else 0x7FC00000)"
    using f by (auto simp: fmt_ok_def mx_nan_element_def shl_def FMT64_def FMT32_def push_bit_eq_mult)
  moreover have "quiet_nan M K (if f = FMT64 then 0x7FF8000000000000 else 0x7FC00000)"
    using f by (auto simp: fmt_ok_def quiet_nan_def sign_of_def expo_of_def frac_of_def FMT64_def FMT32_def)
  ultimately show ?thesis by blast
qed

lemma log2n_finite:
  assumes f: "fmt_ok f M K" and v: "finite_elem M K v" and m: "mag M K v > 0"
  shows "log2n (mag M K v) + 3 \<le> M + 2 ^ K"
proof -
  note ff = fmt_facts [OF f]
  let ?e = "expo_of M K v"
  have e: "?e < 2 ^ K - 1" using v expo_less [of M K v] by (auto simp: finite_elem_def)
  have x: "frac_of M v < 2 ^ M" by (rule frac_less)
  have "mag M K v < 2 ^ (M + (?e - 1) + 1)"
  proof (cases "?e = 0")
    case True
    then have "mag M K v < 2 ^ M" using x by (simp add: mag_def)
    also have "\<dots> \<le> 2 ^ (M + (?e - 1) + 1)" by (intro power_increasing) simp_all
    finally show ?thesis .
  next
    case False
    then have "mag M K v = (2 ^ M + frac_of M v) * 2 ^ (?e - 1)" by (simp add: mag_def)
    also have "\<dots> < (2 ^ M + 2 ^ M) * 2 ^ (?e - 1)" using x by (intro mult_strict_right_mono) simp_all
    also have "\<dots> = 2 ^ (M + (?e - 1) + 1)" by (simp only: power_add power_one_right mult_2_right) (simp only: ac_simps distrib_left)
    finally show ?thesis .
  qed
  then have "log2n (mag M K v) < M + (?e - 1) + 1" by (rule log2n_less [OF m])
  moreover have "(2::nat) ^ 4 \<le> 2 ^ K" using ff(5) by (intro power_increasing) simp_all
  then have "16 \<le> (2::nat) ^ K" by simp
  ultimately show ?thesis using e by arith
qed

definition mx_base :: "FpFmt \<Rightarrow> Block \<Rightarrow> SizeT \<Rightarrow> Addr" where
  "mx_base f bk bi = payload bk + bi * of_nat MX_BLOCK_ELEMS * word_of_int (esz f)"

definition mx_count :: "FpFmt \<Rightarrow> Block \<Rightarrow> SizeT \<Rightarrow> nat" where
  "mx_count f bk bi =
     (let left = req_szB bk div word_of_int (esz f) - bi * of_nat MX_BLOCK_ELEMS
      in if left < of_nat MX_BLOCK_ELEMS then unat left else MX_BLOCK_ELEMS)"

lemma elem_addrs: "fmt_ok f M K \<Longrightarrow> mx_elem_addrs f bk bi = elem_at f (mx_base f bk bi) (mx_count f bk bi)"
  using ebytes_facts(3) [of f M K]
  by (simp add: mx_elem_addrs_def elem_at_map mx_base_def mx_count_def Let_def)

lemma mx_count_le: "mx_count f bk bi \<le> MX_BLOCK_ELEMS"
  by (auto simp: mx_count_def Let_def MX_BLOCK_ELEMS_def word_less_nat_alt)

lemma semax_ok:
  assumes "mx_opts_ok opts"
  shows "\<exists>s. shl 1 (clo_mx_scale_bits opts - 1) = Some s \<and> uint s - 1 = mx_semax opts" "mx_semax opts \<ge> 0"
proof -
  let ?n = "clo_mx_scale_bits opts - 1"
  have n: "0 \<le> ?n" "?n < 16" using assms by (auto simp: mx_opts_ok_def)
  then have "(2::nat) ^ nat ?n < 2 ^ 64" by (intro power_strict_increasing) auto
  then obtain s where "shl 1 ?n = Some s" "unat s = 2 ^ nat ?n" using unat_shl [of ?n 1] n by auto
  then show "\<exists>s. shl 1 ?n = Some s \<and> uint s - 1 = mx_semax opts"
    by (simp add: mx_semax_def uint_nat del: of_nat_unat)
  show "mx_semax opts \<ge> 0" by (simp add: mx_semax_def)
qed

lemma list_all2_const: "list_all2 (\<lambda>_. P) xs ys \<longleftrightarrow> length ys = length xs \<and> list_all P ys"
  by (auto simp: list_all2_conv_all_nth list_all_length)

lemma scale_range:
  assumes f: "fmt_ok f M K" and ok: "mx_opts_ok opts" "clo_mx_emax opts \<le> bias f + mx_semax opts"
    and fin: "list_all (finite_elem M K) vs" "nonzero M K vs"
  shows "mx_scale opts f M K vs + clo_mx_emax opts + 1 - int M \<le> 2 ^ K - 2"
    "int (lead_max M K vs) \<le> mx_scale opts f M K vs + clo_mx_emax opts"
proof -
  note ff = fmt_facts [OF f]
  obtain v where v: "v \<in> set vs" "mag M K v > 0" "log2n (mag M K v) = lead_max M K vs"
    using lead_max_in [OF fin(2)] by blast
  then have "lead_max M K vs + 3 \<le> M + 2 ^ K" using log2n_finite [OF f _ v(2)] fin(1) by (simp add: list_all_iff)
  then have "int (lead_max M K vs + 3) \<le> int (M + 2 ^ K)" by (rule of_nat_mono)
  then have a: "int (lead_max M K vs) + 3 \<le> int M + 2 ^ K" by simp
  have "(2::int) ^ K = 2 * 2 ^ (K - 1)" using ff(5) by (cases K) simp_all
  then have "- mx_semax opts - (1 - bias f - mant f) + clo_mx_emax opts + 1 - int M \<le> 2 ^ K - 2"
    using ff(1,6) ok(2) semax_ok(2) [OF ok(1)] by linarith
  then show "mx_scale opts f M K vs + clo_mx_emax opts + 1 - int M \<le> 2 ^ K - 2"
    using a unfolding mx_scale_def by (simp add: max_def)
  show "int (lead_max M K vs) \<le> mx_scale opts f M K vs + clo_mx_emax opts" by (simp add: mx_scale_def)
qed

lemma rounded_zero: "finite_elem M K v \<Longrightarrow> mag M K v = 0 \<Longrightarrow> rounded opts M K S v v"
  by (simp add: rounded_def mx_round_mag_def)

lemma encode_ok:
  assumes f: "fmt_ok f M K" and ok: "mx_opts_ok opts" "clo_mx_emax opts \<le> bias f + mx_semax opts"
    and vs: "holds_bytes m (mx_base f bk bi) (elem_bytes f vs)" "list_all (element M K) vs" "length vs = mx_count f bk bi"
  shows "\<exists>ws st'. mx_encode_block opts f m st bk bi = Some (over m (mx_base f bk bi) (elem_bytes f ws), st') \<and>
     mx_encoded opts f M K vs ws"
proof -
  let ?L = "1 - bias f - mant f" and ?a = "mx_base f bk bi"
  let ?fin = "list_all (finite_elem M K) vs"
  obtain sbit where sb: "shl 1 (8 * esz f - 1) = Some sbit" using sign_ok [OF f, of 0] by (auto simp: element_def)
  obtain s where s: "shl 1 (clo_mx_scale_bits opts - 1) = Some s" "uint s - 1 = mx_semax opts" using semax_ok(1) [OF ok(1)] by blast
  have len: "ebytes f * length vs \<le> 2 ^ 64"
    using mult_le_mono [OF ebytes_facts(1) [OF f] mx_count_le [of f bk bi]] vs(3) by (simp add: MX_BLOCK_ELEMS_def)
  obtain anyv lmax where sc: "mx_scan f m sbit (elem_at f ?a (length vs)) False False 0 = Some (anyv, \<not> ?fin, lmax)"
    "?fin \<longrightarrow> anyv = nonzero M K vs" "?fin \<longrightarrow> anyv \<longrightarrow> lmax = ?L + int (lead_max M K vs)"
    using scan_ok [OF f sb vs(1,2), of False 0 0 False] by auto
  note start = mx_encode_block_def [of opts f m st bk bi] elem_addrs [OF f] vs(3) [symmetric] sb s(1) bind.bind_lunit
    Let_def sc(1) prod.case s(2)
  show ?thesis
  proof (cases "mx_scale_nan opts f M K vs")
    case True
    then have c: "\<not> ?fin \<or> (anyv \<and> lmax - clo_mx_emax opts > mx_semax opts)"
      using sc(2,3) by (auto simp: mx_scale_nan_def)
    obtain q where q: "mx_nan_element f = Some q" "quiet_nan M K q" using nan_element_ok [OF f] by blast
    from rewrite_ok [OF f vs(1,2) len, where P = "\<lambda>_. quiet_nan M K"
        and g = "\<lambda>st v. do { q \<leftarrow> mx_nan_element f; Some (q, st) }"] q
    obtain ws st' where ws: "mx_rewrite f (\<lambda>st v. do { q \<leftarrow> mx_nan_element f; Some (q, st) }) m
        (st\<lparr>mx_blocks_nan := mx_blocks_nan st + 1\<rparr>) (elem_at f ?a (length vs)) = Some (over m ?a (elem_bytes f ws), st')"
      "list_all2 (\<lambda>_. quiet_nan M K) vs ws" by fastforce
    have "mx_encode_block opts f m st bk bi = Some (over m ?a (elem_bytes f ws), st')"
      unfolding start using c ws(1) by (simp only: if_True)
    with ws(2) True show ?thesis by (auto simp: mx_encoded_def list_all2_const)
  next
    case False
    then have fin: ?fin and c: "\<not> (\<not> ?fin \<or> (anyv \<and> lmax - clo_mx_emax opts > mx_semax opts))"
      using sc(2,3) by (auto simp: mx_scale_nan_def)
    show ?thesis
    proof (cases anyv)
      case False
      then have "mag M K v = 0" if "v \<in> set vs" for v using that sc(2) fin by (auto simp: nonzero_def)
      then have "list_all2 (rounded opts M K (mx_scale opts f M K vs)) vs vs"
        using fin by (intro list.rel_refl_strong rounded_zero) (auto simp: list_all_iff)
      moreover have "mx_encode_block opts f m st bk bi = Some (m, st)"
        unfolding start using c False by simp
      ultimately show ?thesis using over_same_bytes [OF vs(1)] \<open>\<not> mx_scale_nan opts f M K vs\<close>
        by (intro exI [of _ vs] exI [of _ st]) (simp add: mx_encoded_def)
    next
      case True
      define S where "S = mx_scale opts f M K vs"
      have nz: "nonzero M K vs" and lm: "lmax = ?L + int (lead_max M K vs)" using True sc(2,3) fin by simp_all
      note sr = scale_range [OF f ok fin nz, folded S_def]
      obtain st1 where st1: "(if lmax - clo_mx_emax opts < - mx_semax opts
          then (- mx_semax opts, st\<lparr>mx_scales_clamped := mx_scales_clamped st + 1\<rparr>)
          else (lmax - clo_mx_emax opts, st)) = (?L + S, st1)"
        unfolding S_def mx_scale_def lm by (cases "?L + int (lead_max M K vs) - clo_mx_emax opts < - mx_semax opts") auto
      have q: "\<exists>w st'. mx_quantize opts f st v (?L + S) = Some (w, st') \<and> rounded opts M K S v w" if "v \<in> set vs" for v st
      proof -
        have "int (log2n (mag M K v)) \<le> S + clo_mx_emax opts"
          using lead_max_ge [OF that, of M K] sr(2) by linarith
        then show ?thesis
          using quantize_ok [OF f ok(1) _ refl _ sr(1), of v st] that fin by (auto simp: rounded_def list_all_iff)
      qed
      from rewrite_ok [OF f vs(1,2) len, where P = "rounded opts M K S" and g = "\<lambda>st v. mx_quantize opts f st v (?L + S)", OF q]
      obtain ws st' where ws: "mx_rewrite f (\<lambda>st v. mx_quantize opts f st v (?L + S)) m st1 (elem_at f ?a (length vs)) =
          Some (over m ?a (elem_bytes f ws), st')" "list_all2 (rounded opts M K S) vs ws" by blast
      have "mx_encode_block opts f m st bk bi = Some (over m ?a (elem_bytes f ws), st')"
        unfolding start using c True ws(1) st1 by simp
      with ws(2) \<open>\<not> mx_scale_nan opts f M K vs\<close> show ?thesis by (auto simp: mx_encoded_def S_def)
    qed
  qed
qed

section \<open>Encoding again\<close>

text \<open>An element is determined by its sign and magnitude.\<close>

lemma log2n_mag:
  assumes "expo_of M K v > 0"
  shows "log2n (mag M K v) = M + (expo_of M K v - 1)"
proof -
  have "log2n (2 ^ M + frac_of M v) = M" using frac_less [of M v] by (intro log2n_unique) simp_all
  then show ?thesis using assms log2n_mult [of "2 ^ M + frac_of M v"] by (simp add: mag_def)
qed

lemma expo_mag: "expo_of M K v > 0 \<longleftrightarrow> mag M K v \<ge> 2 ^ M"
proof (cases "expo_of M K v = 0")
  case True
  then show ?thesis using frac_less [of M v] by (simp add: mag_def)
next
  case False
  have "2 ^ M * 1 \<le> (2 ^ M + frac_of M v) * 2 ^ (expo_of M K v - 1)" by (intro mult_mono) simp_all
  with False show ?thesis by (simp add: mag_def)
qed

lemma mag_inj:
  assumes "mag M K v = mag M K w" "sign_of M K v = sign_of M K w"
  shows "v = w"
proof -
  have "expo_of M K v = expo_of M K w"
    using assms(1) expo_mag [of M K v] expo_mag [of M K w] log2n_mag [of M K v] log2n_mag [of M K w]
    by (cases "expo_of M K v = 0") auto
  moreover from this assms(1) have "frac_of M v = frac_of M w" by (auto simp: mag_def split: if_splits)
  ultimately have "unat v = unat w" using elem_parts [of v M K] elem_parts [of w M K] assms(2) by simp
  then show ?thesis by (rule unsigned_word_eqI)
qed

lemma nan_unique:
  assumes "quiet_nan M K v" "quiet_nan M K w"
  shows "v = w"
proof -
  have "unat v = unat w" using assms elem_parts [of v M K] elem_parts [of w M K] by (simp add: quiet_nan_def)
  then show ?thesis by (rule unsigned_word_eqI)
qed

text \<open>A multiple of the quantum with a significand in range is left as it is.\<close>

lemma round_multiple:
  assumes "r > 0" "mx_quantum opts S (r * 2 ^ q) \<le> int q"
    "int q = S + clo_mx_emax opts - clo_mx_mbits opts \<Longrightarrow> r \<le> max_sig_nat opts"
    "int q \<le> S + clo_mx_emax opts - clo_mx_mbits opts"
  shows "mx_round_mag opts S (r * 2 ^ q) = r * 2 ^ q"
proof (cases "mx_quantum opts S (r * 2 ^ q) \<le> 0")
  case False
  define p where "p = nat (mx_quantum opts S (r * 2 ^ q))"
  have p: "mx_quantum opts S (r * 2 ^ q) = int p" "p > 0" "p \<le> q" using False assms(2) by (simp_all add: p_def)
  have m: "r * 2 ^ q = (r * 2 ^ (q - p)) * 2 ^ p" using p(3) by (simp flip: power_add)
  have "nearest p (r * 2 ^ q) = r * 2 ^ (q - p)" unfolding m by (rule nearest_exact [OF p(2)])
  moreover have "\<not> (int p = S + clo_mx_emax opts - clo_mx_mbits opts \<and> r * 2 ^ (q - p) > max_sig_nat opts)"
    using assms(3,4) p(3) by (cases "p = q") auto
  ultimately have "cut_sig opts S p (nearest p (r * 2 ^ q)) = r * 2 ^ (q - p)" by (auto simp: cut_sig_def)
  then show ?thesis using round_mag_cut [OF _ p(1,2)] assms(1) by (simp only: m) simp
qed (simp add: mx_round_mag_def)

lemma quantum_bounds:
  assumes ok: "mx_opts_ok opts" and l: "int (log2n m) \<le> S + clo_mx_emax opts" and q: "mx_quantum opts S m = int q"
  shows "int q \<le> S + clo_mx_emax opts - clo_mx_mbits opts" "S + clo_mx_emin opts - clo_mx_mbits opts \<le> int q"
    "int (log2n m) - clo_mx_mbits opts \<le> int q"
  using assms by (auto simp: mx_quantum_def mx_opts_ok_def)

lemma nearest_sig:
  assumes ok: "mx_opts_ok opts" and m: "m > 0" and q: "mx_quantum opts S m = int q" "q > 0"
  shows "nearest q m \<le> 2 ^ nat (clo_mx_mbits opts + 1)"
proof -
  have "log2n m < q + nat (clo_mx_mbits opts + 1)" using ok q(1) by (auto simp: mx_quantum_def mx_opts_ok_def)
  then have "(2::nat) ^ Suc (log2n m) \<le> 2 ^ (q + nat (clo_mx_mbits opts + 1))" by (intro power_increasing) simp_all
  with log2n_bounds [OF m] have "m < 2 ^ (q + nat (clo_mx_mbits opts + 1))" by linarith
  then show ?thesis by (rule nearest_le [OF q(2)])
qed

lemma round_idem:
  assumes ok: "mx_opts_ok opts" and l: "m > 0 \<Longrightarrow> int (log2n m) \<le> S + clo_mx_emax opts"
  shows "mx_round_mag opts S (mx_round_mag opts S m) = mx_round_mag opts S m"
proof (cases "m = 0 \<or> mx_quantum opts S m \<le> 0")
  case False
  define q where "q = nat (mx_quantum opts S m)"
  have m: "m > 0" and q: "mx_quantum opts S m = int q" "q > 0" using False by (simp_all add: q_def)
  let ?mb = "clo_mx_mbits opts"
  have mb: "?mb \<ge> 0" "nat (?mb + 1) = Suc (nat ?mb)" using ok by (auto simp: mx_opts_ok_def)
  define R where "R = cut_sig opts S q (nearest q m)"
  have rm: "mx_round_mag opts S m = R * 2 ^ q" using round_mag_cut [OF m q] by (simp add: R_def)
  note qb = quantum_bounds [OF ok l [OF m] q(1)]
  have RN: "R \<le> 2 ^ nat (?mb + 1)" using cut_le nearest_sig [OF ok m q] unfolding R_def by (rule order_trans)
  have top: "int q = S + clo_mx_emax opts - ?mb \<Longrightarrow> R \<le> max_sig_nat opts" by (auto simp: R_def cut_sig_def)
  consider "R = 0" | "R > 0" "R < 2 ^ nat (?mb + 1)" | "R = 2 ^ nat (?mb + 1)" using RN by linarith
  then show ?thesis
  proof cases
    case 2
    then have "log2n R < nat (?mb + 1)" by (rule log2n_less)
    then have "int (log2n R) \<le> ?mb" using mb by linarith
    then have "mx_quantum opts S (R * 2 ^ q) \<le> int q"
      using log2n_mult [OF 2(1), of q] qb(2) by (simp add: mx_quantum_def)
    from round_multiple [OF 2(1) this top qb(1)] rm show ?thesis by simp
  next
    case 3
    then have eq: "R * 2 ^ q = 2 ^ nat ?mb * 2 ^ (q + 1)" using mb(2) by simp
    have R0: "R > 0" using 3 by simp
    have "int (log2n R + q) \<le> S + clo_mx_emax opts" by (rule round_range [OF ok m q R_def R0 l [OF m]])
    then have q1: "int (q + 1) \<le> S + clo_mx_emax opts - ?mb" unfolding 3 log2n_pow using mb by simp
    have "log2n (R * 2 ^ q) = nat ?mb + (q + 1)" unfolding eq by (subst log2n_mult) simp_all
    then have "mx_quantum opts S (2 ^ nat ?mb * 2 ^ (q + 1)) \<le> int (q + 1)"
      using qb(2) mb(1) unfolding eq [symmetric] mx_quantum_def by simp
    from round_multiple [OF _ this max_sig_ge [OF ok] q1] rm eq show ?thesis by simp
  qed (simp add: rm mx_round_mag_def [of _ _ 0])
qed (auto simp: mx_round_mag_def)

text \<open>The leading one of a rounded magnitude.\<close>

lemma round_lead:
  assumes ok: "mx_opts_ok opts" and m: "m > 0" "int (log2n m) \<le> S + clo_mx_emax opts" and r: "mx_round_mag opts S m > 0"
  shows "int (log2n (mx_round_mag opts S m)) \<le> S + clo_mx_emax opts"
proof (cases "mx_quantum opts S m \<le> 0")
  case False
  define q where "q = nat (mx_quantum opts S m)"
  have q: "mx_quantum opts S m = int q" "q > 0" using False by (simp_all add: q_def)
  define R where "R = cut_sig opts S q (nearest q m)"
  have rm: "mx_round_mag opts S m = R * 2 ^ q" using round_mag_cut [OF m(1) q] by (simp add: R_def)
  then have "R > 0" using r by simp
  with round_range [OF ok m(1) q R_def this m(2)] rm log2n_mult [OF this, of q] show ?thesis by simp
qed (use m in \<open>simp add: mx_round_mag_def\<close>)

lemma round_top:
  assumes ok: "mx_opts_ok opts" and m: "m > 0" "int (log2n m) = S + clo_mx_emax opts"
  shows "mx_round_mag opts S m > 0" "log2n (mx_round_mag opts S m) \<ge> log2n m"
proof -
  have "mx_round_mag opts S m \<ge> 2 ^ log2n m"
  proof (cases "mx_quantum opts S m \<le> 0")
    case True
    with m log2n_bounds [OF m(1)] show ?thesis by (simp add: mx_round_mag_def)
  next
    case False
    define q where "q = nat (mx_quantum opts S m)"
    have q: "mx_quantum opts S m = int q" "q > 0" using False by (simp_all add: q_def)
    then have lq: "log2n m = nat (clo_mx_mbits opts) + q" using ok m(2) by (auto simp: mx_quantum_def mx_opts_ok_def)
    have "nearest q (2 ^ log2n m) \<le> nearest q m"
      using log2n_bounds [OF m(1)] by (simp add: nearest_def div_le_mono)
    then have "2 ^ nat (clo_mx_mbits opts) \<le> nearest q m"
      using nearest_exact [OF q(2), of "2 ^ nat (clo_mx_mbits opts)"] by (simp add: lq power_add)
    then have "2 ^ nat (clo_mx_mbits opts) \<le> cut_sig opts S q (nearest q m)"
      using max_sig_ge [OF ok] by (simp add: cut_sig_def)
    then show ?thesis unfolding round_mag_cut [OF m(1) q] lq power_add by simp
  qed
  moreover from this have p: "mx_round_mag opts S m > 0" using less_le_trans [of "0::nat" "2 ^ log2n m"] by simp
  ultimately show "mx_round_mag opts S m > 0" "log2n (mx_round_mag opts S m) \<ge> log2n m"
    using log2n_mono [of "2 ^ log2n m" "mx_round_mag opts S m"] by simp_all
qed

text \<open>Encoding an encoded group changes nothing.\<close>

lemma scale_rounded:
  assumes f: "fmt_ok f M K" and ok: "mx_opts_ok opts"
    and n: "\<not> mx_scale_nan opts f M K vs"
    and r: "list_all2 (rounded opts M K (mx_scale opts f M K vs)) vs ws" and nz: "nonzero M K ws"
  shows "mx_scale opts f M K ws = mx_scale opts f M K vs" "\<not> mx_scale_nan opts f M K ws"
proof -
  define S where "S = mx_scale opts f M K vs"
  let ?c = "- mx_semax opts - (1 - bias f - mant f)" and ?e = "clo_mx_emax opts"
  have le: "int (log2n (mag M K v)) \<le> S + ?e" if "v \<in> set vs" for v
    using lead_max_ge [OF that, of M K] by (simp add: S_def mx_scale_def)
  have pre: "\<exists>v \<in> set vs. rounded opts M K S v w" if "w \<in> set ws" for w
    using r that by (force simp: list_all2_conv_all_nth in_set_conv_nth S_def)
  have up: "int (log2n (mag M K w)) \<le> S + ?e" if w: "w \<in> set ws" "mag M K w > 0" for w
  proof -
    obtain v where v: "v \<in> set vs" "mag M K w = mx_round_mag opts S (mag M K v)" using pre [OF w(1)] by (auto simp: rounded_def)
    with w(2) have "mag M K v > 0" by (cases "mag M K v = 0") (auto simp: mx_round_mag_def)
    with round_lead [OF ok this le [OF v(1)]] w(2) v(2) show ?thesis by simp
  qed
  obtain w where w: "w \<in> set ws" "mag M K w > 0" "log2n (mag M K w) = lead_max M K ws" using lead_max_in [OF nz] by blast
  have ub: "int (lead_max M K ws) \<le> S + ?e" using up [OF w(1,2)] w(3) by simp
  obtain v where v: "v \<in> set vs" "mag M K w = mx_round_mag opts S (mag M K v)"
    using pre [OF w(1)] by (auto simp: rounded_def)
  have "mag M K v \<noteq> 0"
  proof
    assume "mag M K v = 0"
    then have "mag M K w = 0" using v(2) by (simp add: mx_round_mag_def)
    with w(2) show False by simp
  qed
  with v(1) have nzv: "nonzero M K vs" by (auto simp: nonzero_def)
  have fin: "list_all (finite_elem M K) ws" using pre by (auto simp: list_all_iff rounded_def)
  have sc: "mx_scale opts f M K ws = S"
  proof (cases "int (lead_max M K vs) - ?e \<ge> ?c")
    case True
    then have S: "S = int (lead_max M K vs) - ?e" by (simp add: S_def mx_scale_def)
    obtain v where v: "v \<in> set vs" "mag M K v > 0" "log2n (mag M K v) = lead_max M K vs" using lead_max_in [OF nzv] by blast
    obtain i where "i < length vs" "vs ! i = v" using v(1) by (auto simp: in_set_conv_nth)
    then obtain u where u: "u \<in> set ws" "rounded opts M K S v u"
      using that [of "ws ! i"] list_all2_nthD [OF r, of i] list_all2_lengthD [OF r] by (auto simp: S_def)
    have "log2n (mag M K v) \<le> log2n (mag M K u)"
      using round_top(2) [OF ok v(2)] v(3) S u(2) by (simp add: rounded_def)
    then have "lead_max M K vs \<le> lead_max M K ws" using lead_max_ge [OF u(1), of M K] v(3) by linarith
    with ub S True show ?thesis by (simp add: mx_scale_def)
  next
    case False
    then have "S = ?c" by (simp add: S_def mx_scale_def)
    with ub show ?thesis by (simp add: mx_scale_def)
  qed
  then show "mx_scale opts f M K ws = mx_scale opts f M K vs" by (simp add: S_def)
  have "(1 - bias f - mant f) + S \<le> mx_semax opts"
    using n nzv semax_ok(2) [OF ok] by (auto simp: mx_scale_nan_def S_def mx_scale_def)
  with ub fin show "\<not> mx_scale_nan opts f M K ws" by (simp add: mx_scale_nan_def)
qed

lemma rounded_again:
  assumes ok: "mx_opts_ok opts" and l: "mag M K v > 0 \<Longrightarrow> int (log2n (mag M K v)) \<le> S + clo_mx_emax opts"
    and "rounded opts M K S v w" "rounded opts M K S w u"
  shows "u = w"
  using assms round_idem [OF ok l] by (intro mag_inj [of M K]) (simp_all add: rounded_def)

lemma encoded_again:
  assumes f: "fmt_ok f M K" and ok: "mx_opts_ok opts"
    and vw: "mx_encoded opts f M K vs ws" and wu: "mx_encoded opts f M K ws us"
  shows "us = ws"
proof (cases "mx_scale_nan opts f M K vs")
  case True
  then have ws: "list_all (quiet_nan M K) ws" using vw by (simp add: mx_encoded_def)
  then have "list_all (quiet_nan M K) us \<and> length us = length ws"
  proof (cases ws)
    case (Cons w ws')
    then have "\<not> list_all (finite_elem M K) ws" using ws by (simp add: quiet_nan_def finite_elem_def)
    then show ?thesis using wu by (simp add: mx_encoded_def mx_scale_nan_def)
  qed (use wu in \<open>auto simp: mx_encoded_def split: if_splits\<close>)
  with ws show ?thesis by (intro nth_equalityI nan_unique [of M K]) (auto simp: list_all_length)
next
  case False
  define S where "S = mx_scale opts f M K vs"
  have r: "list_all2 (rounded opts M K S) vs ws" using vw False by (simp add: mx_encoded_def S_def)
  show ?thesis
  proof (cases "nonzero M K ws")
    case True
    note sr = scale_rounded [OF f ok False r [unfolded S_def] True, folded S_def]
    have r2: "list_all2 (rounded opts M K S) ws us" using wu sr by (simp add: mx_encoded_def)
    have "us ! i = ws ! i" if "i < length ws" for i
    proof (rule rounded_again [OF ok])
      show "rounded opts M K S (vs ! i) (ws ! i)" "rounded opts M K S (ws ! i) (us ! i)"
        using r r2 that by (auto simp: list_all2_conv_all_nth)
      show "int (log2n (mag M K (vs ! i))) \<le> S + clo_mx_emax opts"
        using lead_max_ge [of "vs ! i" vs M K] that list_all2_lengthD [OF r] by (simp add: S_def mx_scale_def)
    qed
    with list_all2_lengthD [OF r2] show ?thesis by (intro nth_equalityI) simp_all
  next
    case nz: False
    have "list_all (finite_elem M K) ws" using r by (auto simp: list_all2_conv_all_nth list_all_length rounded_def)
    with nz wu have r2: "list_all2 (rounded opts M K (mx_scale opts f M K ws)) ws us"
      by (simp add: mx_encoded_def mx_scale_nan_def)
    have "us ! i = ws ! i" if "i < length ws" for i
      using r2 that nz by (intro mag_inj [of M K]) (auto simp: list_all2_conv_all_nth rounded_def nonzero_def mx_round_mag_def)
    with list_all2_lengthD [OF r2] show ?thesis by (intro nth_equalityI) simp_all
  qed
qed

section \<open>All groups a store touches\<close>

text \<open>The bytes of a group, by their offset in the block.\<close>

definition mx_span :: "FpFmt \<Rightarrow> nat" where
  "mx_span f = MX_BLOCK_ELEMS * ebytes f"

definition group_elems :: "FpFmt \<Rightarrow> Block \<Rightarrow> nat \<Rightarrow> nat" where
  "group_elems f bk j = min MX_BLOCK_ELEMS (unat (req_szB bk) div ebytes f - MX_BLOCK_ELEMS * j)"

definition group_count :: "FpFmt \<Rightarrow> Block \<Rightarrow> nat" where
  "group_count f bk = unat (req_szB bk) div mx_span f +
     (if unat (req_szB bk) mod mx_span f \<ge> ebytes f then 1 else 0)"

definition group_bytes :: "FpFmt \<Rightarrow> Block \<Rightarrow> nat \<Rightarrow> Addr set" where
  "group_bytes f bk j = {x. mx_span f * j \<le> unat (x - payload bk) \<and>
     unat (x - payload bk) < mx_span f * j + ebytes f * group_elems f bk j}"

definition group_addr :: "FpFmt \<Rightarrow> Block \<Rightarrow> nat \<Rightarrow> Addr" where
  "group_addr f bk j = payload bk + of_nat (mx_span f * j)"

definition group_encoded ::
  "ml_opts \<Rightarrow> FpFmt \<Rightarrow> nat \<Rightarrow> nat \<Rightarrow> Block \<Rightarrow> mem \<Rightarrow> mem \<Rightarrow> nat \<Rightarrow> bool" where
  "group_encoded opts f M K bk m m' j \<longleftrightarrow>
     (\<exists>vs ws. length vs = group_elems f bk j \<and> list_all (element M K) vs \<and>
        holds_bytes m (group_addr f bk j) (elem_bytes f vs) \<and>
        holds_bytes m' (group_addr f bk j) (elem_bytes f ws) \<and> mx_encoded opts f M K vs ws)"

lemma group_fits:
  assumes f: "fmt_ok f M K" and j: "j < group_count f bk"
  shows "mx_span f * j + ebytes f * group_elems f bk j \<le> unat (req_szB bk)"
    "MX_BLOCK_ELEMS * j \<le> unat (req_szB bk) div ebytes f"
proof -
  let ?R = "unat (req_szB bk)" and ?E = "ebytes f"
  have E: "?E > 0" by (rule ebytes_facts(4) [OF f])
  have "j \<le> ?R div mx_span f" using j by (simp add: group_count_def split: if_splits)
  then have "mx_span f * j \<le> mx_span f * (?R div mx_span f)" by (rule mult_le_mono2)
  then have sj: "mx_span f * j \<le> ?R" using times_div_less_eq_dividend [of "mx_span f" ?R] by (rule order_trans)
  have "MX_BLOCK_ELEMS * j * ?E \<le> ?R" using sj by (simp add: mx_span_def ac_simps)
  then show a: "MX_BLOCK_ELEMS * j \<le> ?R div ?E" using E by (simp add: less_eq_div_iff_mult_less_eq)
  have "?E * group_elems f bk j \<le> ?E * (?R div ?E - MX_BLOCK_ELEMS * j)"
    by (intro mult_le_mono2) (simp add: group_elems_def)
  also have "\<dots> = ?E * (?R div ?E) - mx_span f * j" by (simp add: diff_mult_distrib2 mx_span_def ac_simps)
  also have "\<dots> \<le> ?R - mx_span f * j" using times_div_less_eq_dividend [of ?E ?R] by (rule diff_le_mono)
  finally show "mx_span f * j + ?E * group_elems f bk j \<le> ?R" using sj by linarith
qed

lemma group_words:
  assumes f: "fmt_ok f M K" and j: "unat bi < group_count f bk"
  shows "mx_base f bk bi = group_addr f bk (unat bi)" "mx_count f bk bi = group_elems f bk (unat bi)"
proof -
  let ?R = "req_szB bk" and ?E = "ebytes f"
  note ef = ebytes_facts [OF f]
  have w: "word_of_int (esz f) = (of_nat ?E :: 64 word)" using ef(3) by simp
  show "mx_base f bk bi = group_addr f bk (unat bi)"
    unfolding mx_base_def group_addr_def mx_span_def w by (simp add: ac_simps)
  note g = group_fits [OF f j]
  have E: "unat (of_nat ?E :: 64 word) = ?E" using ef(1) by (intro unat64) simp
  have d: "unat (?R div of_nat ?E) = unat ?R div ?E" by (simp only: unat_div E)
  have "MX_BLOCK_ELEMS * unat bi < 2 ^ 64"
    using g(2) div_le_dividend [of "unat ?R" ?E] unat64_less [of ?R] by linarith
  then have b: "unat (bi * of_nat MX_BLOCK_ELEMS) = MX_BLOCK_ELEMS * unat bi"
    using unat64 [of "MX_BLOCK_ELEMS * unat bi"] by (simp add: mult.commute)
  have l: "unat (?R div of_nat ?E - bi * of_nat MX_BLOCK_ELEMS) = unat ?R div ?E - MX_BLOCK_ELEMS * unat bi"
    using g(2) by (simp only: unat_diff64 d b if_True)
  have mb: "unat (of_nat MX_BLOCK_ELEMS :: 64 word) = MX_BLOCK_ELEMS" by (simp add: MX_BLOCK_ELEMS_def)
  show "mx_count f bk bi = group_elems f bk (unat bi)"
    unfolding mx_count_def Let_def w word_less_nat_alt mb l group_elems_def by simp
qed

lemma group_offset:
  assumes f: "fmt_ok f M K" and j: "j < group_count f bk" and i: "i < ebytes f * group_elems f bk j"
  shows "unat (group_addr f bk j + of_nat i - payload bk) = mx_span f * j + i"
proof -
  have "mx_span f * j + i < 2 ^ 64" using group_fits(1) [OF f j] i unat64_less [of "req_szB bk"] by linarith
  from unat64 [OF this] show ?thesis by (simp add: group_addr_def algebra_simps)
qed

lemma group_inside:
  "fmt_ok f M K \<Longrightarrow> j < group_count f bk \<Longrightarrow> i < ebytes f * group_elems f bk j \<Longrightarrow>
   group_addr f bk j + of_nat i \<in> group_bytes f bk j"
  using group_offset [of f M K j bk i] by (simp add: group_bytes_def)

lemma over_group:
  assumes f: "fmt_ok f M K" and j: "j < group_count f bk" and bs: "length bs = ebytes f * group_elems f bk j"
    and x: "x \<notin> group_bytes f bk j"
  shows "over m (group_addr f bk j) bs x = m x"
proof (rule over_outside)
  show "\<not> unat (x - group_addr f bk j) < length bs"
  proof
    assume "unat (x - group_addr f bk j) < length bs"
    with bs have "group_addr f bk j + of_nat (unat (x - group_addr f bk j)) \<in> group_bytes f bk j"
      by (intro group_inside [OF f j]) simp
    with x show False by simp
  qed
qed

lemma group_disjoint: "i < j \<Longrightarrow> x \<in> group_bytes f bk i \<Longrightarrow> x \<notin> group_bytes f bk j"
proof
  assume ij: "i < j" and x: "x \<in> group_bytes f bk i" "x \<in> group_bytes f bk j"
  have "ebytes f * group_elems f bk i \<le> mx_span f"
    by (simp add: mx_span_def group_elems_def mult.commute [of "ebytes f"])
  moreover have "mx_span f * Suc i \<le> mx_span f * j" using ij by (intro mult_le_mono2) simp
  ultimately show False using x by (simp add: group_bytes_def)
qed

lemma holds_cong:
  "(\<And>i. i < length bs \<Longrightarrow> m (a + of_nat i) = m' (a + of_nat i)) \<Longrightarrow> holds_bytes m a bs = holds_bytes m' a bs"
  by (simp add: holds_bytes_def)

lemma group_holds_cong:
  assumes f: "fmt_ok f M K" "j < group_count f bk" "length vs = group_elems f bk j"
    and eq: "\<And>x. x \<in> group_bytes f bk j \<Longrightarrow> m x = m' x"
  shows "holds_bytes m (group_addr f bk j) (elem_bytes f vs) = holds_bytes m' (group_addr f bk j) (elem_bytes f vs)"
  using assms by (intro holds_cong eq group_inside [OF f(1,2)]) simp

lemma encoded_length: "mx_encoded opts f M K vs ws \<Longrightarrow> length ws = length vs"
  by (auto simp: mx_encoded_def dest: list_all2_lengthD split: if_splits)

lemma mapped_group:
  assumes f: "fmt_ok f M K" "j < group_count f bk" and m: "mapped m (payload bk) (unat (req_szB bk))"
  shows "mapped m (group_addr f bk j) (ebytes f * group_elems f bk j)"
proof -
  have "m (group_addr f bk j + of_nat i) \<noteq> None" if "i < ebytes f * group_elems f bk j" for i
  proof -
    have "mx_span f * j + i < unat (req_szB bk)" using that group_fits(1) [OF f] by linarith
    with m have "m (payload bk + of_nat (mx_span f * j + i)) \<noteq> None" unfolding mapped_def by blast
    then show ?thesis by (simp add: group_addr_def algebra_simps)
  qed
  then show ?thesis by (simp add: mapped_def)
qed

lemma group_ok:
  assumes f: "fmt_ok f M K" and ok: "mx_opts_ok opts" "clo_mx_emax opts \<le> bias f + mx_semax opts"
    and m: "mapped m (payload bk) (unat (req_szB bk))" and j: "unat bi < group_count f bk"
  shows "\<exists>m' st'. mx_encode_block opts f m st bk bi = Some (m', st') \<and> group_encoded opts f M K bk m m' (unat bi) \<and>
     (\<forall>x. x \<notin> group_bytes f bk (unat bi) \<longrightarrow> m' x = m x) \<and> mapped m' (payload bk) (unat (req_szB bk))"
proof -
  let ?a = "group_addr f bk (unat bi)"
  obtain vs where vs: "length vs = group_elems f bk (unat bi)" "list_all (element M K) vs" "holds_bytes m ?a (elem_bytes f vs)"
    using mapped_elems [OF f mapped_group [OF f j m]] by blast
  from encode_ok [OF f ok, of m bk bi vs st] vs group_words [OF f j] obtain ws st' where
    e: "mx_encode_block opts f m st bk bi = Some (over m ?a (elem_bytes f ws), st')" "mx_encoded opts f M K vs ws" by auto
  have len: "length (elem_bytes f ws) = ebytes f * group_elems f bk (unat bi)"
    using encoded_length [OF e(2)] vs(1) by simp
  have "length (elem_bytes f ws) \<le> 2 ^ 64"
    using len group_fits(1) [OF f j] unat64_less [of "req_szB bk"] by linarith
  then have h: "holds_bytes (over m ?a (elem_bytes f ws)) ?a (elem_bytes f ws)" by (rule holds_over)
  have "group_encoded opts f M K bk m (over m ?a (elem_bytes f ws)) (unat bi)"
    unfolding group_encoded_def using vs e(2) h by blast
  with e(1) over_group [OF f j len] mapped_over [OF m] show ?thesis by blast
qed

definition groups_encoded ::
  "ml_opts \<Rightarrow> FpFmt \<Rightarrow> nat \<Rightarrow> nat \<Rightarrow> Block \<Rightarrow> nat set \<Rightarrow> mem \<Rightarrow> mem \<Rightarrow> bool" where
  "groups_encoded opts f M K bk J m m' \<longleftrightarrow>
     (\<forall>j \<in> J. group_encoded opts f M K bk m m' j) \<and>
     (\<forall>x. x \<notin> (\<Union>j\<in>J. group_bytes f bk j) \<longrightarrow> m' x = m x) \<and>
     mapped m' (payload bk) (unat (req_szB bk))"

lemma groups_none: "mapped m (payload bk) (unat (req_szB bk)) \<Longrightarrow> groups_encoded opts f M K bk {} m m"
  by (simp add: groups_encoded_def)

text \<open>One group, then groups behind it.\<close>

lemma groups_step:
  assumes f: "fmt_ok f M K" and i: "i < group_count f bk"
    and J: "\<And>j. j \<in> J \<Longrightarrow> i < j \<and> j < group_count f bk"
    and e: "group_encoded opts f M K bk m m1 i" "\<And>x. x \<notin> group_bytes f bk i \<Longrightarrow> m1 x = m x"
    and r: "groups_encoded opts f M K bk J m1 m'"
  shows "groups_encoded opts f M K bk (insert i J) m m'"
proof -
  have "group_encoded opts f M K bk m m' j" if j: "j \<in> J" for j
  proof -
    obtain vs ws where v: "length vs = group_elems f bk j" "list_all (element M K) vs"
      "holds_bytes m1 (group_addr f bk j) (elem_bytes f vs)"
      "holds_bytes m' (group_addr f bk j) (elem_bytes f ws)" "mx_encoded opts f M K vs ws"
      using r j unfolding groups_encoded_def group_encoded_def by blast
    have "m1 x = m x" if "x \<in> group_bytes f bk j" for x
      using that e(2) group_disjoint [of i j x f bk] J [OF j] by blast
    then have "holds_bytes m (group_addr f bk j) (elem_bytes f vs)"
      using v(1,3) group_holds_cong [OF f, of j bk vs m1 m] J [OF j] by blast
    with v show ?thesis unfolding group_encoded_def by blast
  qed
  moreover have "group_encoded opts f M K bk m m' i"
  proof -
    obtain vs ws where v: "length vs = group_elems f bk i" "list_all (element M K) vs"
      "holds_bytes m (group_addr f bk i) (elem_bytes f vs)"
      "holds_bytes m1 (group_addr f bk i) (elem_bytes f ws)" "mx_encoded opts f M K vs ws"
      using e(1) unfolding group_encoded_def by blast
    have "m' x = m1 x" if "x \<in> group_bytes f bk i" for x
    proof -
      have "x \<notin> (\<Union>j\<in>J. group_bytes f bk j)" using group_disjoint [OF _ that] J by blast
      with r show ?thesis unfolding groups_encoded_def by blast
    qed
    moreover have "length ws = group_elems f bk i" using encoded_length [OF v(5)] v(1) by simp
    ultimately have "holds_bytes m' (group_addr f bk i) (elem_bytes f ws)"
      using v(4) group_holds_cong [OF f i, of ws m' m1] by blast
    with v show ?thesis unfolding group_encoded_def by blast
  qed
  moreover have "m' x = m x" if "x \<notin> (\<Union>j\<in>insert i J. group_bytes f bk j)" for x
  proof -
    have "m' x = m1 x" using r that by (simp add: groups_encoded_def)
    with e(2) that show ?thesis by simp
  qed
  ultimately show ?thesis using r unfolding groups_encoded_def by simp
qed

lemma blocks_loop_ok:
  assumes f: "fmt_ok f M K" and ok: "mx_opts_ok opts" "clo_mx_emax opts \<le> bias f + mx_semax opts"
    and nb: "unat nblocks \<le> group_count f bk"
  shows "mapped m (payload bk) (unat (req_szB bk)) \<Longrightarrow>
    \<exists>m' st'. mx_blocks_loop opts f m st bk bi lastb nblocks = Some (m', st') \<and>
      groups_encoded opts f M K bk {j. unat bi \<le> j \<and> j \<le> unat lastb \<and> j < unat nblocks} m m'"
proof (induction "unat nblocks - unat bi" arbitrary: m st bi rule: less_induct)
  case less
  show ?case
  proof (cases "bi \<le> lastb \<and> bi < nblocks")
    case False
    then have "{j. unat bi \<le> j \<and> j \<le> unat lastb \<and> j < unat nblocks} = {}"
      by (auto simp: word_le_nat_alt word_less_nat_alt)
    moreover have "mx_blocks_loop opts f m st bk bi lastb nblocks = Some (m, st)"
      by (subst mx_blocks_loop.simps) (use False in \<open>simp only: if_False\<close>)
    ultimately show ?thesis using groups_none [OF less.prems] by metis
  next
    case True
    then have b: "unat bi \<le> unat lastb" "unat bi < unat nblocks" by (simp_all add: word_le_nat_alt word_less_nat_alt)
    have b1: "unat (bi + 1) = unat bi + 1" using b(2) unat64_less [of nblocks] unat_add64 [of bi 1] by simp
    have i: "unat bi < group_count f bk" using b(2) nb by linarith
    obtain m1 st1 where e: "mx_encode_block opts f m st bk bi = Some (m1, st1)"
      "group_encoded opts f M K bk m m1 (unat bi)" "\<And>x. x \<notin> group_bytes f bk (unat bi) \<Longrightarrow> m1 x = m x"
      "mapped m1 (payload bk) (unat (req_szB bk))"
      using group_ok [OF f ok less.prems i, of st] by blast
    have dec: "unat nblocks - unat (bi + 1) < unat nblocks - unat bi" using b(2) b1 by simp
    let ?J = "{j. unat (bi + 1) \<le> j \<and> j \<le> unat lastb \<and> j < unat nblocks}"
    obtain m' st' where r: "mx_blocks_loop opts f m1 st1 bk (bi + 1) lastb nblocks = Some (m', st')"
      "groups_encoded opts f M K bk ?J m1 m'"
      using less.hyps [OF dec e(4), of st1] by blast
    have "insert (unat bi) ?J = {j. unat bi \<le> j \<and> j \<le> unat lastb \<and> j < unat nblocks}" using b b1 by auto
    moreover have "groups_encoded opts f M K bk (insert (unat bi) ?J) m m'"
      using b1 nb by (intro groups_step [OF f i _ e(2,3) r(2)]) auto
    ultimately show ?thesis using e(1) r(1) True by (simp add: mx_blocks_loop.simps [of opts f m st])
  qed
qed

text \<open>The groups a store of \<open>sz\<close> bytes at \<open>addr\<close> touches.\<close>

definition touched :: "FpFmt \<Rightarrow> Block \<Rightarrow> Addr \<Rightarrow> SizeT \<Rightarrow> nat set" where
  "touched f bk addr sz = {j. unat (addr - payload bk) div mx_span f \<le> j \<and>
     j \<le> (unat (addr - payload bk) + unat sz - 1) div mx_span f \<and> j < group_count f bk}"

definition fmt_bits :: "FpFmt \<Rightarrow> nat \<times> nat" where
  "fmt_bits f = (if esz f = 8 then (52, 11) else (23, 8))"

lemma fmt_bits_ok: "fmt_ok (mx_fmt opts) (fst (fmt_bits (mx_fmt opts))) (snd (fmt_bits (mx_fmt opts)))"
  by (simp add: fmt_bits_def mx_fmt_def fmt_ok_def FMT32_def FMT64_def)

lemma span_word: "fmt_ok f M K \<Longrightarrow> unat (of_nat MX_BLOCK_ELEMS * word_of_int (esz f) :: 64 word) = mx_span f"
  by (auto simp: fmt_ok_def mx_span_def ebytes_def FMT32_def FMT64_def MX_BLOCK_ELEMS_def)

lemma group_count_word:
  assumes f: "fmt_ok f M K"
  defines "span \<equiv> of_nat MX_BLOCK_ELEMS * word_of_int (esz f) :: 64 word"
  shows "unat (req_szB bk div span + (if req_szB bk mod span \<ge> word_of_int (esz f) then 1 else 0)) = group_count f bk"
proof -
  have sp: "unat span = mx_span f" unfolding span_def by (rule span_word [OF f])
  have s1: "mx_span f > 1" using f by (auto simp: fmt_ok_def mx_span_def ebytes_def MX_BLOCK_ELEMS_def FMT32_def FMT64_def)
  have E: "unat (word_of_int (esz f) :: 64 word) = ebytes f"
    using f by (auto simp: fmt_ok_def ebytes_def FMT32_def FMT64_def)
  have "unat (req_szB bk) div mx_span f \<le> unat (req_szB bk) div 2" using s1 by (intro div_le_mono2) simp_all
  then have "unat (req_szB bk) div mx_span f + 1 < 2 ^ 64" using unat64_less [of "req_szB bk"] by auto
  then show ?thesis
    using unat_add64 [of "req_szB bk div span" 1] by (auto simp: group_count_def word_le_nat_alt unat_mod unat_div sp E)
qed

lemma after_store_ok:
  assumes ok: "mx_opts_ok opts" "clo_mx_emax opts \<le> bias (mx_fmt opts) + mx_semax opts"
    and b: "find_block_containing bst addr = Some (Some b)" "blks bst b = Some bk" "mx bk"
    and m: "mapped m (payload bk) (unat (req_szB bk))"
    and sz: "sz > 0" "unat (addr - payload bk) + unat sz \<le> 2 ^ 64"
  shows "\<exists>m' st'. mx_after_store opts bst m st addr sz = Some (m', st') \<and>
     groups_encoded opts (mx_fmt opts) (fst (fmt_bits (mx_fmt opts))) (snd (fmt_bits (mx_fmt opts))) bk
       (touched (mx_fmt opts) bk addr sz) m m'"
proof -
  let ?f = "mx_fmt opts"
  note f = fmt_bits_ok [of opts]
  let ?span = "of_nat MX_BLOCK_ELEMS * word_of_int (esz ?f) :: 64 word"
  have s0: "unat sz > 0" using sz(1) by (simp add: word_less_nat_alt)
  have a: "unat ((addr - payload bk) + of_nat (unat sz - 1)) = unat (addr - payload bk) + (unat sz - 1)"
    using sz(2) s0 by (intro unat_add64) linarith
  have "of_nat (unat sz - 1) = sz - 1" using s0 by (simp add: of_nat_diff Suc_leI)
  then have "(addr - payload bk) + of_nat (unat sz - 1) = addr + sz - 1 - payload bk" by (simp only:) simp
  with a have "unat (addr + sz - 1 - payload bk) = unat (addr - payload bk) + (unat sz - 1)" by (simp only:)
  then have l: "unat (addr + sz - 1 - payload bk) = unat (addr - payload bk) + unat sz - 1" using s0 by simp
  from blocks_loop_ok [OF f ok eq_refl [OF group_count_word [OF f, of bk]] m,
      of "st\<lparr>mx_stores := mx_stores st + 1\<rparr>" "(addr - payload bk) div ?span" "(addr + sz - 1 - payload bk) div ?span"]
  show ?thesis using b unfolding mx_after_store_def touched_def
    by (simp add: unat_div span_word [OF f] l group_count_word [OF f] Let_def)
qed

lemma to_bytes_inj:
  assumes f: "fmt_ok f M K" and e: "element M K v" "element M K w" and eq: "to_bytes (ebytes f) v = to_bytes (ebytes f) w"
  shows "v = w"
proof -
  have "of_bytes (to_bytes (ebytes f) x) = x" if "element M K x" for x
    using of_to_bytes [OF ebytes_facts(1) [OF f], of x] that unfolding element_bytes [OF f] by (rule trans)
  note this [OF e(1), symmetric]
  also note eq
  also note \<open>\<And>x. element M K x \<Longrightarrow> of_bytes (to_bytes (ebytes f) x) = x\<close> [OF e(2)]
  finally show ?thesis .
qed

lemma elem_bytes_inj:
  assumes f: "fmt_ok f M K"
  shows "list_all (element M K) vs \<Longrightarrow> list_all (element M K) ws \<Longrightarrow> length vs = length ws \<Longrightarrow>
    elem_bytes f vs = elem_bytes f ws \<Longrightarrow> vs = ws"
proof (induction vs arbitrary: ws)
  case (Cons v vs)
  then obtain w ws' where "ws = w # ws'" by (cases ws) auto
  with Cons.prems have e: "element M K v" "element M K w" "list_all (element M K) vs" "list_all (element M K) ws'"
      "length vs = length ws'" "to_bytes (ebytes f) v = to_bytes (ebytes f) w" "elem_bytes f vs = elem_bytes f ws'"
    by (simp_all add: append_eq_append_conv)
  from to_bytes_inj [OF f e(1,2,6)] Cons.IH [OF e(3,4,5,7)] \<open>ws = w # ws'\<close> show ?case by simp
qed simp

lemma holds_unique: "holds_bytes m a xs \<Longrightarrow> holds_bytes m a ys \<Longrightarrow> length xs = length ys \<Longrightarrow> xs = ys"
  by (intro nth_equalityI) (auto simp: holds_bytes_def)

lemma quiet_nan_element: "quiet_nan M K w \<Longrightarrow> element M K w"
proof -
  assume "quiet_nan M K w"
  then have "unat w div 2 ^ (M + K) = 0" by (simp add: quiet_nan_def sign_of_def)
  then have "unat w < 2 ^ (M + K)" by (simp only: div_eq_0_iff) simp
  then show ?thesis by (simp add: element_def)
qed

lemma encoded_elements:
  assumes f: "fmt_ok f M K" and "mx_encoded opts f M K vs ws"
  shows "list_all (element M K) ws"
proof (cases "mx_scale_nan opts f M K vs")
  case True
  with assms(2) quiet_nan_element [of M K] show ?thesis
    by (auto simp: mx_encoded_def list_all_iff)
next
  case False
  with assms(2) show ?thesis
    by (auto simp: mx_encoded_def list_all2_conv_all_nth list_all_length rounded_def finite_elem_def)
qed

text \<open>A byte of a group is a byte of its elements.\<close>

lemma group_byte:
  assumes f: "fmt_ok f M K" and j: "j < group_count f bk" and x: "x \<in> group_bytes f bk j"
  shows "\<exists>i < ebytes f * group_elems f bk j. x = group_addr f bk j + of_nat i"
proof -
  define i where "i = unat (x - payload bk) - mx_span f * j"
  have "unat (x - payload bk) = mx_span f * j + i" using x by (simp add: i_def group_bytes_def)
  then have "of_nat (unat (x - payload bk)) = (of_nat (mx_span f * j + i) :: 64 word)" by (simp only:)
  moreover have "of_nat (unat (x - payload bk)) = x - payload bk" by simp
  ultimately have "x - payload bk = of_nat (mx_span f * j + i)" by (simp only:)
  then have "x = group_addr f bk j + of_nat i" by (simp add: group_addr_def algebra_simps)
  moreover have "i < ebytes f * group_elems f bk j" using x by (auto simp: i_def group_bytes_def)
  ultimately show ?thesis by blast
qed

lemma groups_again:
  assumes f: "fmt_ok f M K" and ok: "mx_opts_ok opts" and J: "\<And>j. j \<in> J \<Longrightarrow> j < group_count f bk"
    and e: "groups_encoded opts f M K bk J m m'" "groups_encoded opts f M K bk J m' m''"
  shows "m'' = m'"
proof
  fix x
  show "m'' x = m' x"
  proof (cases "x \<in> (\<Union>j\<in>J. group_bytes f bk j)")
    case True
    then obtain j where j: "j \<in> J" "x \<in> group_bytes f bk j" by blast
    obtain vs ws where v: "length vs = group_elems f bk j" "list_all (element M K) vs"
      "holds_bytes m' (group_addr f bk j) (elem_bytes f ws)" "mx_encoded opts f M K vs ws"
      using e(1) j(1) unfolding groups_encoded_def group_encoded_def by blast
    obtain vs' us where u: "length vs' = group_elems f bk j" "list_all (element M K) vs'"
      "holds_bytes m' (group_addr f bk j) (elem_bytes f vs')"
      "holds_bytes m'' (group_addr f bk j) (elem_bytes f us)" "mx_encoded opts f M K vs' us"
      using e(2) j(1) unfolding groups_encoded_def group_encoded_def by blast
    have len: "length ws = group_elems f bk j" using encoded_length [OF v(4)] v(1) by simp
    have "elem_bytes f vs' = elem_bytes f ws" using holds_unique [OF u(3) v(3)] u(1) len by simp
    then have "vs' = ws" using elem_bytes_inj [OF f u(2) encoded_elements [OF f v(4)]] u(1) len by simp
    then have us: "us = ws" using encoded_again [OF f ok v(4)] u(5) by simp
    obtain i where i: "i < ebytes f * group_elems f bk j" "x = group_addr f bk j + of_nat i"
      using group_byte [OF f J [OF j(1)] j(2)] by blast
    with u(4) v(3) us len show ?thesis by (simp add: holds_bytes_def)
  next
    case False
    with e(2) show ?thesis unfolding groups_encoded_def by blast
  qed
qed

text \<open>What is rewritten lies within 256 bytes of the store.\<close>

lemma touched_range:
  assumes f: "fmt_ok f M K" and sz: "sz > 0" "unat (addr - payload bk) + unat sz \<le> 2 ^ 64"
    and j: "j \<in> touched f bk addr sz" and x: "x \<in> group_bytes f bk j"
  shows "unat (x - payload bk) < unat (req_szB bk)" "unat (x - (addr - 256)) < 512 + unat sz"
proof -
  let ?o = "unat (addr - payload bk)" and ?x = "unat (x - payload bk)" and ?s = "mx_span f"
  have jc: "j < group_count f bk" using j by (simp add: touched_def)
  show "?x < unat (req_szB bk)" using x group_fits(1) [OF f jc] by (simp add: group_bytes_def)
  have s0: "unat sz > 0" using sz(1) by (simp add: word_less_nat_alt)
  have s: "0 < ?s" "?s \<le> 256" using f by (auto simp: fmt_ok_def mx_span_def ebytes_def MX_BLOCK_ELEMS_def FMT32_def FMT64_def)
  have "ebytes f * group_elems f bk j \<le> ?s" by (simp add: mx_span_def group_elems_def mult.commute [of "ebytes f"])
  then have xj: "?s * j \<le> ?x" "?x < ?s * j + ?s" using x by (auto simp: group_bytes_def)
  have "?s * (?o div ?s) \<le> ?s * j" using j by (intro mult_le_mono2) (simp add: touched_def)
  moreover have "?o < ?s * (?o div ?s) + ?s" using dividend_less_times_div [OF s(1), of ?o] by (simp only: add.commute)
  ultimately have lo: "?o < ?x + 256" using xj(1) s(2) by linarith
  have "?s * j \<le> ?s * ((?o + unat sz - 1) div ?s)" using j by (intro mult_le_mono2) (simp add: touched_def)
  also have "\<dots> \<le> ?o + unat sz - 1" by (rule times_div_less_eq_dividend)
  finally have hi: "?x < ?o + unat sz + 256" using xj(2) s(2) s0 by linarith
  define d where "d = ?x + 256 - ?o"
  have "(of_nat (d + ?o) :: 64 word) = of_nat (?x + 256)" using lo by (simp add: d_def)
  then have "of_nat d + (addr - payload bk) = (x - payload bk) + 256" by simp
  then have "x - (addr - 256) = of_nat d" by (simp add: algebra_simps)
  then have "unat (x - (addr - 256)) = unat (of_nat d :: 64 word)" by (simp only:)
  also have "\<dots> \<le> d" by (simp add: unsigned_of_nat take_bit_eq_mod)
  also have "d < 512 + unat sz" using lo hi unfolding d_def by linarith
  finally show "unat (x - (addr - 256)) < 512 + unat sz" .
qed

section \<open>Properties of the encoding\<close>

lemma round_mag_error:
  assumes ok: "mx_opts_ok opts" and m: "m > 0" and q: "mx_quantum opts S m = int q" "q > 0"
  shows "2 ^ q dvd mx_round_mag opts S m" "mx_round_mag opts S m \<le> m + 2 ^ (q - 1)"
    "m < mx_round_mag opts S m + 2 ^ (q - 1) \<or>
     (int q = S + clo_mx_emax opts - clo_mx_mbits opts \<and> mx_round_mag opts S m = max_sig_nat opts * 2 ^ q)"
proof -
  note r = round_mag_cut [OF m q]
  show "2 ^ q dvd mx_round_mag opts S m" by (simp add: r)
  have "mx_round_mag opts S m \<le> nearest q m * 2 ^ q" unfolding r using cut_le by (rule mult_le_mono1)
  also have "\<dots> \<le> m + 2 ^ (q - 1)" by (rule nearest_bounds(1) [OF q(2)])
  finally show "mx_round_mag opts S m \<le> m + 2 ^ (q - 1)" .
  show "m < mx_round_mag opts S m + 2 ^ (q - 1) \<or>
     (int q = S + clo_mx_emax opts - clo_mx_mbits opts \<and> mx_round_mag opts S m = max_sig_nat opts * 2 ^ q)"
    using nearest_bounds(2) [OF q(2), of m] unfolding r by (auto simp: cut_sig_def)
qed

text \<open>A state with one marked block, of 520 bytes.\<close>

definition sample_mx_block :: Block where
  "sample_mx_block = \<lparr>payload = 4096, req_szB = 520, alloc_ec = None, mx = True\<rparr>"

text \<open>The state that tracks one block.\<close>

definition one_block :: "Block \<Rightarrow> block_state" where
  "one_block bk = the (insert_block_rb (no_blocks\<lparr>blks := [4 \<mapsto> bk]\<rparr>) 4 5)"

lemma one_block_found:
  assumes "payload bk \<le> addr" "addr < payload bk + req_szB bk"
  shows "find_block_containing (one_block bk) addr = Some (Some 4)" "blks (one_block bk) 4 = Some bk"
proof -
  let ?st = "no_blocks\<lparr>blks := [4 \<mapsto> bk]\<rparr>"
  have "holds_blocks ?st []" using holds_empty by (simp add: holds_blocks_def no_blocks_def)
  moreover have "nodes (tracked_blocks ?st) 5 = None" by (simp add: no_blocks_def RB_ROOT_def)
  ultimately obtain st' where st: "insert_block_rb ?st 4 5 = Some st'" "blks st' = [4 \<mapsto> bk]"
    "holds_blocks st' [(payload bk, 4)]"
    using insert_block_ok [of ?st "[]" 4 bk 5] by auto
  then have s: "one_block bk = st'" by (simp add: one_block_def)
  show "blks (one_block bk) 4 = Some bk" using st(2) by (simp add: s)
  show "find_block_containing (one_block bk) addr = Some (Some 4)"
    unfolding s find_block_ok [OF st(3)] using assms by (simp add: st(2))
qed

definition sample_mx :: block_state where
  "sample_mx = one_block sample_mx_block"

lemma sample_mx_found:
  "find_block_containing sample_mx 4360 = Some (Some 4)" "blks sample_mx 4 = Some sample_mx_block"
  using one_block_found [of sample_mx_block 4360] by (simp_all add: sample_mx_def sample_mx_block_def)

lemma sample_opts_ok: "mx_opts_ok ml_default_opts"
    "clo_mx_emax ml_default_opts \<le> bias (mx_fmt ml_default_opts) + mx_semax ml_default_opts"
  by (simp_all add: mx_opts_ok_def ml_default_opts_def mx_fmt_def mx_semax_def FMT64_def)

section \<open>The largest float with a wide exponent range\<close>












text \<open>
  C13. \<^verbatim>\<open>mx_quantize\<close> never shifts by an amount that C leaves undefined and never asks for the leading
  one of zero. For a finite element that the shared exponent bounds it returns the element with
  the same sign and the rounded magnitude: a multiple of the quantum, at most half a quantum
  away, ties away from zero, or the largest significand of the top binade. Elements without bits
  below the quantum are returned as they are.
\<close>

theorem mx_quantize_correct:
  assumes "fmt_ok f M K" "mx_opts_ok opts" "finite_elem M K v"
    "shared = (1 - bias f - mant f) + S"
    "int (log2n (mag M K v)) \<le> S + clo_mx_emax opts"
    "S + clo_mx_emax opts + 1 - int M \<le> 2 ^ K - 2"
  shows "\<exists>x st'. mx_quantize opts f st v shared = Some (x, st') \<and> finite_elem M K x \<and>
     sign_of M K x = sign_of M K v \<and>
     (let m = mag M K v; r = mag M K x; q = nat (mx_quantum opts S m) in
        r = mx_round_mag opts S m \<and>
        (m > 0 \<longrightarrow> q > 0 \<longrightarrow> 2 ^ q dvd r \<and> r \<le> m + 2 ^ (q - 1) \<and>
           (m < r + 2 ^ (q - 1) \<or> r = max_sig_nat opts * 2 ^ q)) \<and>
        (q = 0 \<longrightarrow> x = v))"
proof -
  obtain x st' where x: "mx_quantize opts f st v shared = Some (x, st')" "finite_elem M K x"
    "sign_of M K x = sign_of M K v" "mag M K x = mx_round_mag opts S (mag M K v)"
    using quantize_ok [OF assms(1,2,3,4) assms(5) assms(6), of st] by blast
  define q where "q = nat (mx_quantum opts S (mag M K v))"
  have "x = v" if "q = 0"
    using that x(3,4) by (intro mag_inj [of M K]) (simp_all add: mx_round_mag_def q_def)
  moreover have "2 ^ q dvd mag M K x \<and> mag M K x \<le> mag M K v + 2 ^ (q - 1) \<and>
      (mag M K v < mag M K x + 2 ^ (q - 1) \<or> mag M K x = max_sig_nat opts * 2 ^ q)" if "mag M K v > 0" "q > 0"
    using round_mag_error [OF assms(2) that(1) _ that(2), of S] that(2) unfolding x(4) by (auto simp: q_def)
  ultimately show ?thesis using x by (intro exI [of _ x] exI [of _ st']) (simp add: Let_def q_def)
qed

theorem mx_quantize_correct_witness:
  "\<exists>x st'. mx_quantize ml_default_opts FMT64 mx_no_stats 0x3FF8000000000001 (- 8) = Some (x, st') \<and> finite_elem 52 11 x"
proof -
  have v: "finite_elem 52 11 0x3FF8000000000001" by (simp add: finite_elem_def element_def expo_of_def)
  have "log2n 6755399441055745 = 52" by (rule log2n_unique) simp_all
  then have "log2n (6755399441055745 * 2 ^ 1022) = 52 + 1022" by (simp only: log2n_mult)
  moreover have "mag 52 11 0x3FF8000000000001 = 6755399441055745 * 2 ^ 1022"
    by (simp add: mag_def expo_of_def frac_of_def)
  ultimately have l: "log2n (mag 52 11 0x3FF8000000000001) = 1074" by (simp only:)
  show ?thesis
    using mx_quantize_correct [of FMT64 52 11 ml_default_opts "0x3FF8000000000001" "- 8" 1066 mx_no_stats] v l sample_opts_ok
    by (auto simp: fmt_ok_def FMT64_def ml_default_opts_def)
qed

text \<open>
  C14. After a store into a marked block \<^verbatim>\<open>mx_after_store\<close> has re-encoded every group of 32 elements
  that the store touches, and changed nothing else. A group with an infinity, a NaN or a
  scale above the range of the scale format becomes all NaN. In any other group each element is
  rounded for the exponent shared by the group, which is the exponent of its largest element
  less \<^verbatim>\<open>emax\<close>, or the least scale when that is smaller. The options have to be in the ranges that the
  tool accepts, and \<^verbatim>\<open>emax\<close> at most the bias of the element format plus the largest scale. Every
  accepted combination satisfies this for binary64 elements, not every one for binary32.
\<close>

theorem mx_after_store_correct:
  assumes "mx_opts_ok opts" "clo_mx_emax opts \<le> bias (mx_fmt opts) + mx_semax opts"
    "find_block_containing bst addr = Some (Some b)" "blks bst b = Some bk" "mx bk"
    "mapped m (payload bk) (unat (req_szB bk))"
    "sz > 0" "unat (addr - payload bk) + unat sz \<le> 2 ^ 64"
  shows "\<exists>m' st'. mx_after_store opts bst m st addr sz = Some (m', st') \<and>
     groups_encoded opts (mx_fmt opts) (fst (fmt_bits (mx_fmt opts))) (snd (fmt_bits (mx_fmt opts))) bk
       (touched (mx_fmt opts) bk addr sz) m m'"
  by (rule after_store_ok [OF assms])

theorem mx_after_store_correct_witness:
  "\<exists>m' st'. mx_after_store ml_default_opts sample_mx (\<lambda>_. Some 7) mx_no_stats 4360 8 = Some (m', st')"
  using mx_after_store_correct [OF sample_opts_ok sample_mx_found, of "\<lambda>_. Some 7" 8 mx_no_stats]
  by (auto simp: sample_mx_block_def mapped_def)

text \<open>
  C15. Every byte that \<^verbatim>\<open>mx_after_store\<close> changes is in the tracked block and in the memory range
  that \<^verbatim>\<open>wire_mx\<close> declares for the call: \<open>512 + size\<close> bytes from 256 bytes before the store. The options
  are those of the preceding property: \<^verbatim>\<open>emax\<close> at most the bias plus the largest scale.
\<close>

theorem mx_after_store_footprint:
  assumes "mx_opts_ok opts" "clo_mx_emax opts \<le> bias (mx_fmt opts) + mx_semax opts"
    "find_block_containing bst addr = Some (Some b)" "blks bst b = Some bk" "mx bk"
    "mapped m (payload bk) (unat (req_szB bk))"
    "sz > 0" "unat (addr - payload bk) + unat sz \<le> 2 ^ 64"
  shows "\<exists>m' st'. mx_after_store opts bst m st addr sz = Some (m', st') \<and>
     (\<forall>x. m' x = m x \<or> (unat (x - payload bk) < unat (req_szB bk) \<and> unat (x - (addr - 256)) < 512 + unat sz))"
proof -
  obtain m' st' where e: "mx_after_store opts bst m st addr sz = Some (m', st')"
    "groups_encoded opts (mx_fmt opts) (fst (fmt_bits (mx_fmt opts))) (snd (fmt_bits (mx_fmt opts))) bk
      (touched (mx_fmt opts) bk addr sz) m m'"
    using after_store_ok [OF assms, of st] by blast
  have "unat (x - payload bk) < unat (req_szB bk) \<and> unat (x - (addr - 256)) < 512 + unat sz" if "m' x \<noteq> m x" for x
  proof -
    from that e(2) obtain j where "j \<in> touched (mx_fmt opts) bk addr sz" "x \<in> group_bytes (mx_fmt opts) bk j"
      unfolding groups_encoded_def by blast
    from touched_range [OF fmt_bits_ok assms(7,8) this] show ?thesis by blast
  qed
  with e(1) show ?thesis by blast
qed

theorem mx_after_store_footprint_witness:
  "\<exists>m' st'. mx_after_store ml_default_opts sample_mx (\<lambda>_. Some 7) mx_no_stats 4360 8 = Some (m', st') \<and>
     m' 0 = Some 7 \<and> m' 4100 = Some 7"
proof -
  obtain m' st' where e: "mx_after_store ml_default_opts sample_mx (\<lambda>_. Some 7) mx_no_stats 4360 8 = Some (m', st')"
    "\<forall>x. m' x = Some 7 \<or> (unat (x - 4096) < 520 \<and> unat (x - (4360 - 256)) < 512 + unat (8 :: 64 word))"
    using mx_after_store_footprint [OF sample_opts_ok sample_mx_found, of "\<lambda>_. Some 7" 8 mx_no_stats]
    by (auto simp: sample_mx_block_def mapped_def)
  from e(2) [THEN spec, of 0] e(2) [THEN spec, of 4100] have "m' 0 = Some 7" "m' 4100 = Some 7" by simp_all
  with e(1) show ?thesis by blast
qed

text \<open>
  C16. Encoding is idempotent when \<^verbatim>\<open>emax\<close> is at most the bias of the element format plus the largest
  scale: running \<^verbatim>\<open>mx_after_store\<close> again for the same store leaves the memory as it is. The condition
  holds for all accepted options with binary64 elements. With binary32 elements it is needed.
\<close>

theorem mx_after_store_idempotent:
  assumes "mx_opts_ok opts" "clo_mx_emax opts \<le> bias (mx_fmt opts) + mx_semax opts"
    "find_block_containing bst addr = Some (Some b)" "blks bst b = Some bk" "mx bk"
    "mapped m (payload bk) (unat (req_szB bk))"
    "sz > 0" "unat (addr - payload bk) + unat sz \<le> 2 ^ 64"
  shows "\<exists>m' st' st''. mx_after_store opts bst m st addr sz = Some (m', st') \<and>
     mx_after_store opts bst m' st' addr sz = Some (m', st'')"
proof -
  let ?f = "mx_fmt opts" let ?M = "fst (fmt_bits ?f)" let ?K = "snd (fmt_bits ?f)" let ?J = "touched ?f bk addr sz"
  obtain m' st' where e: "mx_after_store opts bst m st addr sz = Some (m', st')" "groups_encoded opts ?f ?M ?K bk ?J m m'"
    using after_store_ok [OF assms, of st] by blast
  then have "mapped m' (payload bk) (unat (req_szB bk))" by (simp add: groups_encoded_def)
  from after_store_ok [OF assms(1-5) this assms(7,8), of st'] obtain m'' st'' where
    s: "mx_after_store opts bst m' st' addr sz = Some (m'', st'')" "groups_encoded opts ?f ?M ?K bk ?J m' m''" by blast
  have "m'' = m'" using groups_again [OF fmt_bits_ok assms(1) _ e(2) s(2)] by (simp add: touched_def)
  with e(1) s(1) show ?thesis by blast
qed

theorem mx_after_store_idempotent_witness:
  "\<exists>m' st' st''. mx_after_store ml_default_opts sample_mx (\<lambda>_. Some 7) mx_no_stats 4360 8 = Some (m', st') \<and>
     mx_after_store ml_default_opts sample_mx m' st' 4360 8 = Some (m', st'')"
  using mx_after_store_idempotent [OF sample_opts_ok sample_mx_found, of "\<lambda>_. Some 7" 8 mx_no_stats]
  by (auto simp: sample_mx_block_def mapped_def)





end
