(* ===== verification/Vex_IR.thy ===== *)
theory Vex_IR
  imports Ml_Prelude
begin

text \<open>
  The intermediate representation that tools instrument: the data types of \<^verbatim>\<open>VEX/pub/libvex_ir.h\<close>
  and, from \<^verbatim>\<open>VEX/priv/ir_defs.c\<close>, construction, deep copies, types of expressions and the
  sanity check that every block has to pass after instrumentation. A failed assertion, a panic
  and a failed sanity check end the process: they are \<open>None\<close> or \<open>False\<close>. Of the primitive
  operations those used by the tool are named; the types of the others are given by an argument
  \<open>po\<close> of the definitions.
\<close>

section \<open>Types, constants, expressions\<close>

datatype IRType =
    Ity_INVALID | Ity_I1 | Ity_I8 | Ity_I16 | Ity_I32 | Ity_I64 | Ity_I128 | Ity_F16 | Ity_F32 | Ity_F64
  | Ity_D32 | Ity_D64 | Ity_D128 | Ity_F128 | Ity_V128 | Ity_V256

datatype IREndness = Iend_LE | Iend_BE

text \<open>Floating-point constants are given by their bits.\<close>

datatype IRConst =
    Ico_U1 bool
  | Ico_U8 "8 word"
  | Ico_U16 "16 word"
  | Ico_U32 "32 word"
  | Ico_U64 "64 word"
  | Ico_U128 "16 word"
  | Ico_F32 "32 word"
  | Ico_F32i "32 word"
  | Ico_F64 "64 word"
  | Ico_F64i "64 word"
  | Ico_V128 "16 word"
  | Ico_V256 "32 word"

text \<open>The name may be \<^verbatim>\<open>NULL\<close>; \<^verbatim>\<open>addr\<close> is the address of the function.\<close>

record IRCallee =
  ce_regparms :: int
  ce_name :: "string option"
  ce_addr :: "64 word"
  ce_mcx_mask :: "32 word"

record IRRegArray =
  ra_base :: int
  ra_elemTy :: IRType
  ra_nElems :: int

type_synonym IRTemp = nat

definition IRTemp_INVALID :: IRTemp where
  "IRTemp_INVALID = 0xFFFFFFFF"

datatype IROp =
    Iop_Add64 | Iop_Sub64 | Iop_1Uto64 | Iop_8Uto64 | Iop_16Uto64 | Iop_32Uto64
  | Iop_128to64 | Iop_128HIto64 | Iop_ReinterpF64asI64 | Iop_ReinterpF32asI32
  | Iop_F128HItoF64 | Iop_F128LOtoF64 | Iop_D128HItoD64 | Iop_D128LOtoD64 | Iop_ReinterpD64asI64
  | Iop_V128to64 | Iop_V128HIto64 | Iop_V256to64_0 | Iop_V256to64_1 | Iop_V256to64_2 | Iop_V256to64_3
  | Iop_other nat

datatype IRExpr =
    Iex_Binder int
  | Iex_Get int IRType
  | Iex_GetI IRRegArray IRExpr int
  | Iex_RdTmp IRTemp
  | Iex_Qop IROp IRExpr IRExpr IRExpr IRExpr
  | Iex_Triop IROp IRExpr IRExpr IRExpr
  | Iex_Binop IROp IRExpr IRExpr
  | Iex_Unop IROp IRExpr
  | Iex_Load IREndness IRType IRExpr
  | Iex_Const IRConst
  | Iex_CCall IRCallee IRType "IRExpr list"
  | Iex_ITE IRExpr IRExpr IRExpr
  | Iex_VECRET
  | Iex_GSPTR

fun is_IRExpr_VECRET_or_GSPTR :: "IRExpr \<Rightarrow> bool" where
  "is_IRExpr_VECRET_or_GSPTR Iex_VECRET = True"
| "is_IRExpr_VECRET_or_GSPTR Iex_GSPTR = True"
| "is_IRExpr_VECRET_or_GSPTR e = False"

fun isIRAtom :: "IRExpr \<Rightarrow> bool" where
  "isIRAtom (Iex_RdTmp tmp) = True"
| "isIRAtom (Iex_Const con) = True"
| "isIRAtom e = False"

section \<open>Statements and blocks\<close>

datatype IRJumpKind =
    Ijk_INVALID | Ijk_Boring | Ijk_Call | Ijk_Ret | Ijk_ClientReq | Ijk_Yield | Ijk_EmWarn | Ijk_EmFail
  | Ijk_NoDecode | Ijk_MapFail | Ijk_InvalICache | Ijk_FlushDCache | Ijk_NoRedir | Ijk_SigILL | Ijk_SigTRAP
  | Ijk_SigSEGV | Ijk_SigBUS | Ijk_SigFPE | Ijk_SigFPE_IntDiv | Ijk_SigFPE_IntOvf | Ijk_Sys_syscall
  | Ijk_Sys_int32 | Ijk_Sys_int128 | Ijk_Sys_int129 | Ijk_Sys_int130 | Ijk_Sys_int145 | Ijk_Sys_int210
  | Ijk_Sys_sysenter | Ijk_Extension

datatype IREffect = Ifx_None | Ifx_Read | Ifx_Write | Ifx_Modify

definition VEX_N_FXSTATE :: nat where
  "VEX_N_FXSTATE = 7"

record FxState =
  fx_fx :: IREffect
  fx_offset :: "16 word"
  fx_size :: "16 word"
  fx_nRepeats :: "8 word"
  fx_repeatLen :: "8 word"

text \<open>\<open>d_fxState\<close> is the used part of the array: its length is \<^verbatim>\<open>nFxState\<close>. Pointers that may be \<^verbatim>\<open>NULL\<close> are options.\<close>

record IRDirty =
  d_cee :: "IRCallee option"
  d_guard :: "IRExpr option"
  d_args :: "IRExpr list option"
  d_tmp :: IRTemp
  d_mFx :: IREffect
  d_mAddr :: "IRExpr option"
  d_mSize :: int
  d_fxState :: "FxState list"

datatype IRMBusEvent = Imbe_Fence | Imbe_CancelReservation

record IRCAS =
  cas_oldHi :: IRTemp
  cas_oldLo :: IRTemp
  cas_end :: IREndness
  cas_addr :: IRExpr
  cas_expdHi :: "IRExpr option"
  cas_expdLo :: IRExpr
  cas_dataHi :: "IRExpr option"
  cas_dataLo :: IRExpr

datatype IRLoadGOp =
    ILGop_INVALID | ILGop_IdentV128 | ILGop_Ident64 | ILGop_Ident32 | ILGop_16Uto32 | ILGop_16Sto32
  | ILGop_8Uto32 | ILGop_8Sto32

text \<open>The fields of \<^verbatim>\<open>IRPutI\<close>, \<^verbatim>\<open>IRStoreG\<close> and \<^verbatim>\<open>IRLoadG\<close> are arguments of the constructors, in their order.\<close>

datatype IRStmt =
    Ist_NoOp
  | Ist_IMark Addr "32 word" "8 word"
  | Ist_AbiHint IRExpr int IRExpr
  | Ist_Put int IRExpr
  | Ist_PutI IRRegArray IRExpr int IRExpr
  | Ist_WrTmp IRTemp IRExpr
  | Ist_Store IREndness IRExpr IRExpr
  | Ist_StoreG IREndness IRExpr IRExpr IRExpr
  | Ist_LoadG IREndness IRLoadGOp IRTemp IRExpr IRExpr IRExpr
  | Ist_CAS IRCAS
  | Ist_LLSC IREndness IRTemp IRExpr "IRExpr option"
  | Ist_Dirty IRDirty
  | Ist_MBE IRMBusEvent
  | Ist_Exit IRExpr IRConst IRJumpKind int

text \<open>The used parts of the arrays are lists: \<^verbatim>\<open>types_used\<close> and \<^verbatim>\<open>stmts_used\<close> are their lengths.\<close>

record IRTypeEnv =
  types :: "IRType list"
  types_size :: nat

record IRSB =
  tyenv :: IRTypeEnv
  stmts :: "IRStmt option list"
  stmts_size :: nat
  sb_next :: "IRExpr option"
  jumpkind :: IRJumpKind
  offsIP :: int

section \<open>Construction\<close>

definition mkIRCallee :: "int \<Rightarrow> string option \<Rightarrow> 64 word \<Rightarrow> IRCallee option" where
  "mkIRCallee regparms name addr =
     (if 0 \<le> regparms \<and> regparms \<le> 3 \<and> name \<noteq> None \<and> addr \<noteq> 0
      then Some \<lparr>ce_regparms = regparms, ce_name = name, ce_addr = addr, ce_mcx_mask = 0\<rparr> else None)"

definition mkIRRegArray :: "int \<Rightarrow> IRType \<Rightarrow> int \<Rightarrow> IRRegArray option" where
  "mkIRRegArray base elemTy nElems =
     (if \<not> (base < 0 \<or> base > 10000) \<and> \<not> elemTy = Ity_I1 \<and> \<not> (nElems \<le> 0 \<or> nElems > 500)
      then Some \<lparr>ra_base = base, ra_elemTy = elemTy, ra_nElems = nElems\<rparr> else None)"

definition mkIRExprVec_2 :: "IRExpr \<Rightarrow> IRExpr \<Rightarrow> IRExpr list" where
  "mkIRExprVec_2 arg1 arg2 = [arg1, arg2]"

definition emptyIRDirty :: IRDirty where
  "emptyIRDirty = \<lparr>d_cee = None, d_guard = None, d_args = None, d_tmp = IRTemp_INVALID, d_mFx = Ifx_None,
     d_mAddr = None, d_mSize = 0, d_fxState = []\<rparr>"

definition unsafeIRDirty_0_N :: "int \<Rightarrow> string option \<Rightarrow> 64 word \<Rightarrow> IRExpr list \<Rightarrow> IRDirty option" where
  "unsafeIRDirty_0_N regparms name addr args = do {
     ce \<leftarrow> mkIRCallee regparms name addr;
     Some (emptyIRDirty\<lparr>d_cee := Some ce, d_guard := Some (Iex_Const (Ico_U1 True)), d_args := Some args\<rparr>)
   }"

definition unsafeIRDirty_1_N :: "IRTemp \<Rightarrow> int \<Rightarrow> string option \<Rightarrow> 64 word \<Rightarrow> IRExpr list \<Rightarrow> IRDirty option" where
  "unsafeIRDirty_1_N dst regparms name addr args = do {
     ce \<leftarrow> mkIRCallee regparms name addr;
     Some (emptyIRDirty\<lparr>d_cee := Some ce, d_guard := Some (Iex_Const (Ico_U1 True)), d_args := Some args, d_tmp := dst\<rparr>)
   }"

definition emptyIRTypeEnv :: IRTypeEnv where
  "emptyIRTypeEnv = \<lparr>types = [], types_size = 8\<rparr>"

definition emptyIRSB :: IRSB where
  "emptyIRSB = \<lparr>tyenv = emptyIRTypeEnv, stmts = [], stmts_size = 8, sb_next = None, jumpkind = Ijk_Boring, offsIP = 0\<rparr>"

section \<open>Deep copies\<close>

text \<open>The copy of an object is an equal object, or a panic.\<close>

fun deepCopyIRConst :: "IRConst \<Rightarrow> IRConst option" where
  "deepCopyIRConst (Ico_U128 c) = None"
| "deepCopyIRConst c = Some c"

definition deepCopyIRCallee :: "IRCallee \<Rightarrow> IRCallee option" where
  "deepCopyIRCallee ce = do {
     ce2 \<leftarrow> mkIRCallee (ce_regparms ce) (ce_name ce) (ce_addr ce);
     Some (ce2\<lparr>ce_mcx_mask := ce_mcx_mask ce\<rparr>)
   }"

definition deepCopyIRRegArray :: "IRRegArray \<Rightarrow> IRRegArray option" where
  "deepCopyIRRegArray d = mkIRRegArray (ra_base d) (ra_elemTy d) (ra_nElems d)"

fun deepCopyIRExpr :: "IRExpr \<Rightarrow> IRExpr option"
  and deepCopyIRExprVec :: "IRExpr list \<Rightarrow> IRExpr list option" where
  "deepCopyIRExpr (Iex_Get offset ty) = Some (Iex_Get offset ty)"
| "deepCopyIRExpr (Iex_GetI descr ix bi) = do {
     descr \<leftarrow> deepCopyIRRegArray descr;
     ix \<leftarrow> deepCopyIRExpr ix;
     Some (Iex_GetI descr ix bi)
   }"
| "deepCopyIRExpr (Iex_RdTmp tmp) = Some (Iex_RdTmp tmp)"
| "deepCopyIRExpr (Iex_Qop op arg1 arg2 arg3 arg4) = do {
     arg1 \<leftarrow> deepCopyIRExpr arg1;
     arg2 \<leftarrow> deepCopyIRExpr arg2;
     arg3 \<leftarrow> deepCopyIRExpr arg3;
     arg4 \<leftarrow> deepCopyIRExpr arg4;
     Some (Iex_Qop op arg1 arg2 arg3 arg4)
   }"
| "deepCopyIRExpr (Iex_Triop op arg1 arg2 arg3) = do {
     arg1 \<leftarrow> deepCopyIRExpr arg1;
     arg2 \<leftarrow> deepCopyIRExpr arg2;
     arg3 \<leftarrow> deepCopyIRExpr arg3;
     Some (Iex_Triop op arg1 arg2 arg3)
   }"
| "deepCopyIRExpr (Iex_Binop op arg1 arg2) = do {
     arg1 \<leftarrow> deepCopyIRExpr arg1;
     arg2 \<leftarrow> deepCopyIRExpr arg2;
     Some (Iex_Binop op arg1 arg2)
   }"
| "deepCopyIRExpr (Iex_Unop op arg) = do {
     arg \<leftarrow> deepCopyIRExpr arg;
     Some (Iex_Unop op arg)
   }"
| "deepCopyIRExpr (Iex_Load e ty addr) = do {
     addr \<leftarrow> deepCopyIRExpr addr;
     Some (Iex_Load e ty addr)
   }"
| "deepCopyIRExpr (Iex_Const con) = do {
     con \<leftarrow> deepCopyIRConst con;
     Some (Iex_Const con)
   }"
| "deepCopyIRExpr (Iex_CCall cee retty args) = do {
     cee \<leftarrow> deepCopyIRCallee cee;
     args \<leftarrow> deepCopyIRExprVec args;
     Some (Iex_CCall cee retty args)
   }"
| "deepCopyIRExpr (Iex_ITE cond iftrue iffalse) = do {
     cond \<leftarrow> deepCopyIRExpr cond;
     iftrue \<leftarrow> deepCopyIRExpr iftrue;
     iffalse \<leftarrow> deepCopyIRExpr iffalse;
     Some (Iex_ITE cond iftrue iffalse)
   }"
| "deepCopyIRExpr Iex_VECRET = Some Iex_VECRET"
| "deepCopyIRExpr Iex_GSPTR = Some Iex_GSPTR"
| "deepCopyIRExpr (Iex_Binder binder) = Some (Iex_Binder binder)"
| "deepCopyIRExprVec [] = Some []"
| "deepCopyIRExprVec (e # vec) = do {
     e \<leftarrow> deepCopyIRExpr e;
     vec \<leftarrow> deepCopyIRExprVec vec;
     Some (e # vec)
   }"

text \<open>\<^verbatim>\<open>e == NULL ? NULL : deepCopyIRExpr(e)\<close>\<close>

definition deepCopy_opt :: "IRExpr option \<Rightarrow> IRExpr option option" where
  "deepCopy_opt e = (case e of None \<Rightarrow> Some None | Some e \<Rightarrow> map_option Some (deepCopyIRExpr e))"

definition deepCopyIRDirty :: "IRDirty \<Rightarrow> IRDirty option" where
  "deepCopyIRDirty d = do {
     cee \<leftarrow> d_cee d;
     cee \<leftarrow> deepCopyIRCallee cee;
     guard \<leftarrow> d_guard d;
     guard \<leftarrow> deepCopyIRExpr guard;
     args \<leftarrow> d_args d;
     args \<leftarrow> deepCopyIRExprVec args;
     mAddr \<leftarrow> deepCopy_opt (d_mAddr d);
     Some (emptyIRDirty\<lparr>d_cee := Some cee, d_guard := Some guard, d_args := Some args, d_tmp := d_tmp d, d_mFx := d_mFx d,
       d_mAddr := mAddr, d_mSize := d_mSize d, d_fxState := d_fxState d\<rparr>)
   }"

definition deepCopyIRCAS :: "IRCAS \<Rightarrow> IRCAS option" where
  "deepCopyIRCAS cas = do {
     addr \<leftarrow> deepCopyIRExpr (cas_addr cas);
     expdHi \<leftarrow> deepCopy_opt (cas_expdHi cas);
     expdLo \<leftarrow> deepCopyIRExpr (cas_expdLo cas);
     dataHi \<leftarrow> deepCopy_opt (cas_dataHi cas);
     dataLo \<leftarrow> deepCopyIRExpr (cas_dataLo cas);
     Some \<lparr>cas_oldHi = cas_oldHi cas, cas_oldLo = cas_oldLo cas, cas_end = cas_end cas, cas_addr = addr,
       cas_expdHi = expdHi, cas_expdLo = expdLo, cas_dataHi = dataHi, cas_dataLo = dataLo\<rparr>
   }"

fun deepCopyIRStmt :: "IRStmt \<Rightarrow> IRStmt option" where
  "deepCopyIRStmt Ist_NoOp = Some Ist_NoOp"
| "deepCopyIRStmt (Ist_AbiHint base len nia) = do {
     base \<leftarrow> deepCopyIRExpr base;
     nia \<leftarrow> deepCopyIRExpr nia;
     Some (Ist_AbiHint base len nia)
   }"
| "deepCopyIRStmt (Ist_IMark addr len delta) = Some (Ist_IMark addr len delta)"
| "deepCopyIRStmt (Ist_Put offset d) = do {
     d \<leftarrow> deepCopyIRExpr d;
     Some (Ist_Put offset d)
   }"
| "deepCopyIRStmt (Ist_PutI descr ix bi d) = do {
     descr \<leftarrow> deepCopyIRRegArray descr;
     ix \<leftarrow> deepCopyIRExpr ix;
     d \<leftarrow> deepCopyIRExpr d;
     Some (Ist_PutI descr ix bi d)
   }"
| "deepCopyIRStmt (Ist_WrTmp tmp d) = do {
     d \<leftarrow> deepCopyIRExpr d;
     Some (Ist_WrTmp tmp d)
   }"
| "deepCopyIRStmt (Ist_Store e addr d) = do {
     addr \<leftarrow> deepCopyIRExpr addr;
     d \<leftarrow> deepCopyIRExpr d;
     Some (Ist_Store e addr d)
   }"
| "deepCopyIRStmt (Ist_StoreG e addr d guard) = do {
     addr \<leftarrow> deepCopyIRExpr addr;
     d \<leftarrow> deepCopyIRExpr d;
     guard \<leftarrow> deepCopyIRExpr guard;
     Some (Ist_StoreG e addr d guard)
   }"
| "deepCopyIRStmt (Ist_LoadG e cvt dst addr alt guard) = do {
     addr \<leftarrow> deepCopyIRExpr addr;
     alt \<leftarrow> deepCopyIRExpr alt;
     guard \<leftarrow> deepCopyIRExpr guard;
     Some (Ist_LoadG e cvt dst addr alt guard)
   }"
| "deepCopyIRStmt (Ist_CAS cas) = map_option Ist_CAS (deepCopyIRCAS cas)"
| "deepCopyIRStmt (Ist_LLSC e result addr storedata) = do {
     addr \<leftarrow> deepCopyIRExpr addr;
     storedata \<leftarrow> deepCopy_opt storedata;
     Some (Ist_LLSC e result addr storedata)
   }"
| "deepCopyIRStmt (Ist_Dirty d) = map_option Ist_Dirty (deepCopyIRDirty d)"
| "deepCopyIRStmt (Ist_MBE event) = Some (Ist_MBE event)"
| "deepCopyIRStmt (Ist_Exit guard dst jk offs) = do {
     guard \<leftarrow> deepCopyIRExpr guard;
     dst \<leftarrow> deepCopyIRConst dst;
     Some (Ist_Exit guard dst jk offs)
   }"

definition deepCopyIRTypeEnv :: "IRTypeEnv \<Rightarrow> IRTypeEnv" where
  "deepCopyIRTypeEnv src = \<lparr>types = types src, types_size = types_size src\<rparr>"

definition deepCopyIRSBExceptStmts :: "IRSB \<Rightarrow> IRSB option" where
  "deepCopyIRSBExceptStmts bb = do {
     nx \<leftarrow> sb_next bb;
     nx \<leftarrow> deepCopyIRExpr nx;
     Some (emptyIRSB\<lparr>tyenv := deepCopyIRTypeEnv (tyenv bb), sb_next := Some nx, jumpkind := jumpkind bb, offsIP := offsIP bb\<rparr>)
   }"

fun deepCopy_stmts :: "IRStmt option list \<Rightarrow> IRStmt option list option" where
  "deepCopy_stmts [] = Some []"
| "deepCopy_stmts (s # ss) = do {
     st \<leftarrow> s;
     st \<leftarrow> deepCopyIRStmt st;
     ss \<leftarrow> deepCopy_stmts ss;
     Some (Some st # ss)
   }"

definition deepCopyIRSB :: "IRSB \<Rightarrow> IRSB option" where
  "deepCopyIRSB bb = do {
     bb2 \<leftarrow> deepCopyIRSBExceptStmts bb;
     sts2 \<leftarrow> deepCopy_stmts (stmts bb);
     Some (bb2\<lparr>stmts := sts2, stmts_size := length (stmts bb)\<rparr>)
   }"


section \<open>Growing blocks and type environments\<close>

definition addStmtToIRSB :: "IRSB \<Rightarrow> IRStmt option \<Rightarrow> IRSB option" where
  "addStmtToIRSB bb st =
     (let bb = (if length (stmts bb) = stmts_size bb then bb\<lparr>stmts_size := stmts_size bb * 2\<rparr> else bb) in
      if length (stmts bb) < stmts_size bb then Some (bb\<lparr>stmts := stmts bb @ [st]\<rparr>) else None)"

function newIRTemp :: "IRTypeEnv \<Rightarrow> IRType \<Rightarrow> (IRTypeEnv \<times> IRTemp) option" where
  "newIRTemp env ty =
     (if \<not> length (types env) \<le> types_size env then None
      else if length (types env) < types_size env
      then Some (env\<lparr>types := types env @ [ty]\<rparr>, length (types env))
      else newIRTemp (env\<lparr>types_size := (if types_size env = 0 then 8 else 2 * types_size env)\<rparr>) ty)"
  by pat_completeness auto
termination
  by (relation "measure (\<lambda>(env, ty). length (types env) + 1 - types_size env)") auto

declare newIRTemp.simps [simp del]

section \<open>Types of expressions\<close>

text \<open>The result type of an operation and the types of its arguments, \<^verbatim>\<open>Ity_INVALID\<close> for those it has not.\<close>

type_synonym primop_type = "IRType \<times> IRType \<times> IRType \<times> IRType \<times> IRType"

definition UNARY :: "IRType \<Rightarrow> IRType \<Rightarrow> primop_type" where
  "UNARY ta1 td = (td, ta1, Ity_INVALID, Ity_INVALID, Ity_INVALID)"

definition BINARY :: "IRType \<Rightarrow> IRType \<Rightarrow> IRType \<Rightarrow> primop_type" where
  "BINARY ta1 ta2 td = (td, ta1, ta2, Ity_INVALID, Ity_INVALID)"

fun typeOfPrimop :: "(nat \<Rightarrow> primop_type option) \<Rightarrow> IROp \<Rightarrow> primop_type option" where
  "typeOfPrimop po Iop_Add64 = Some (BINARY Ity_I64 Ity_I64 Ity_I64)"
| "typeOfPrimop po Iop_Sub64 = Some (BINARY Ity_I64 Ity_I64 Ity_I64)"
| "typeOfPrimop po Iop_128HIto64 = Some (UNARY Ity_I128 Ity_I64)"
| "typeOfPrimop po Iop_128to64 = Some (UNARY Ity_I128 Ity_I64)"
| "typeOfPrimop po Iop_1Uto64 = Some (UNARY Ity_I1 Ity_I64)"
| "typeOfPrimop po Iop_32Uto64 = Some (UNARY Ity_I32 Ity_I64)"
| "typeOfPrimop po Iop_8Uto64 = Some (UNARY Ity_I8 Ity_I64)"
| "typeOfPrimop po Iop_16Uto64 = Some (UNARY Ity_I16 Ity_I64)"
| "typeOfPrimop po Iop_ReinterpF64asI64 = Some (UNARY Ity_F64 Ity_I64)"
| "typeOfPrimop po Iop_ReinterpF32asI32 = Some (UNARY Ity_F32 Ity_I32)"
| "typeOfPrimop po Iop_V128to64 = Some (UNARY Ity_V128 Ity_I64)"
| "typeOfPrimop po Iop_V128HIto64 = Some (UNARY Ity_V128 Ity_I64)"
| "typeOfPrimop po Iop_F128HItoF64 = Some (UNARY Ity_F128 Ity_F64)"
| "typeOfPrimop po Iop_F128LOtoF64 = Some (UNARY Ity_F128 Ity_F64)"
| "typeOfPrimop po Iop_ReinterpD64asI64 = Some (UNARY Ity_D64 Ity_I64)"
| "typeOfPrimop po Iop_D128HItoD64 = Some (UNARY Ity_D128 Ity_D64)"
| "typeOfPrimop po Iop_D128LOtoD64 = Some (UNARY Ity_D128 Ity_D64)"
| "typeOfPrimop po Iop_V256to64_0 = Some (UNARY Ity_V256 Ity_I64)"
| "typeOfPrimop po Iop_V256to64_1 = Some (UNARY Ity_V256 Ity_I64)"
| "typeOfPrimop po Iop_V256to64_2 = Some (UNARY Ity_V256 Ity_I64)"
| "typeOfPrimop po Iop_V256to64_3 = Some (UNARY Ity_V256 Ity_I64)"
| "typeOfPrimop po (Iop_other n) = po n"

definition typeOfIRTemp :: "IRTypeEnv \<Rightarrow> IRTemp \<Rightarrow> IRType option" where
  "typeOfIRTemp env tmp = (if tmp < length (types env) then Some (types env ! tmp) else None)"

fun typeOfIRConst :: "IRConst \<Rightarrow> IRType" where
  "typeOfIRConst (Ico_U1 c) = Ity_I1"
| "typeOfIRConst (Ico_U8 c) = Ity_I8"
| "typeOfIRConst (Ico_U16 c) = Ity_I16"
| "typeOfIRConst (Ico_U32 c) = Ity_I32"
| "typeOfIRConst (Ico_U64 c) = Ity_I64"
| "typeOfIRConst (Ico_U128 c) = Ity_I128"
| "typeOfIRConst (Ico_F32 c) = Ity_F32"
| "typeOfIRConst (Ico_F32i c) = Ity_F32"
| "typeOfIRConst (Ico_F64 c) = Ity_F64"
| "typeOfIRConst (Ico_F64i c) = Ity_F64"
| "typeOfIRConst (Ico_V128 c) = Ity_V128"
| "typeOfIRConst (Ico_V256 c) = Ity_V256"

text \<open>The type of the result and the type that is loaded.\<close>

fun typeOfIRLoadGOp :: "IRLoadGOp \<Rightarrow> (IRType \<times> IRType) option" where
  "typeOfIRLoadGOp ILGop_IdentV128 = Some (Ity_V128, Ity_V128)"
| "typeOfIRLoadGOp ILGop_Ident64 = Some (Ity_I64, Ity_I64)"
| "typeOfIRLoadGOp ILGop_Ident32 = Some (Ity_I32, Ity_I32)"
| "typeOfIRLoadGOp ILGop_16Uto32 = Some (Ity_I32, Ity_I16)"
| "typeOfIRLoadGOp ILGop_16Sto32 = Some (Ity_I32, Ity_I16)"
| "typeOfIRLoadGOp ILGop_8Uto32 = Some (Ity_I32, Ity_I8)"
| "typeOfIRLoadGOp ILGop_8Sto32 = Some (Ity_I32, Ity_I8)"
| "typeOfIRLoadGOp ILGop_INVALID = None"

fun typeOfIRExpr :: "(nat \<Rightarrow> primop_type option) \<Rightarrow> IRTypeEnv \<Rightarrow> IRExpr \<Rightarrow> IRType option" where
  "typeOfIRExpr po env (Iex_Load e ty addr) = Some ty"
| "typeOfIRExpr po env (Iex_Get offset ty) = Some ty"
| "typeOfIRExpr po env (Iex_GetI descr ix bi) = Some (ra_elemTy descr)"
| "typeOfIRExpr po env (Iex_RdTmp tmp) = typeOfIRTemp env tmp"
| "typeOfIRExpr po env (Iex_Const con) = Some (typeOfIRConst con)"
| "typeOfIRExpr po env (Iex_Qop op arg1 arg2 arg3 arg4) = map_option fst (typeOfPrimop po op)"
| "typeOfIRExpr po env (Iex_Triop op arg1 arg2 arg3) = map_option fst (typeOfPrimop po op)"
| "typeOfIRExpr po env (Iex_Binop op arg1 arg2) = map_option fst (typeOfPrimop po op)"
| "typeOfIRExpr po env (Iex_Unop op arg) = map_option fst (typeOfPrimop po op)"
| "typeOfIRExpr po env (Iex_CCall cee retty args) = Some retty"
| "typeOfIRExpr po env (Iex_ITE cond iftrue iffalse) = typeOfIRExpr po env iffalse"
| "typeOfIRExpr po env (Iex_Binder b) = None"
| "typeOfIRExpr po env Iex_VECRET = None"
| "typeOfIRExpr po env Iex_GSPTR = None"

fun isPlausibleIRType :: "IRType \<Rightarrow> bool" where
  "isPlausibleIRType ty \<longleftrightarrow> ty \<in> {Ity_INVALID, Ity_I1, Ity_I8, Ity_I16, Ity_I32, Ity_I64, Ity_I128, Ity_F16, Ity_F32, Ity_F64,
     Ity_F128, Ity_D32, Ity_D64, Ity_D128, Ity_V128, Ity_V256}"

section \<open>Flatness\<close>

definition isIRAtom_or_VECRET_or_GSPTR :: "IRExpr \<Rightarrow> bool" where
  "isIRAtom_or_VECRET_or_GSPTR e \<longleftrightarrow> isIRAtom e \<or> is_IRExpr_VECRET_or_GSPTR e"

fun isFlat_rhs :: "IRExpr \<Rightarrow> bool" where
  "isFlat_rhs (Iex_Binder b) = True"
| "isFlat_rhs (Iex_Get offset ty) = True"
| "isFlat_rhs (Iex_GetI descr ix bi) = isIRAtom ix"
| "isFlat_rhs (Iex_RdTmp tmp) = True"
| "isFlat_rhs (Iex_Qop op arg1 arg2 arg3 arg4) \<longleftrightarrow> isIRAtom arg1 \<and> isIRAtom arg2 \<and> isIRAtom arg3 \<and> isIRAtom arg4"
| "isFlat_rhs (Iex_Triop op arg1 arg2 arg3) \<longleftrightarrow> isIRAtom arg1 \<and> isIRAtom arg2 \<and> isIRAtom arg3"
| "isFlat_rhs (Iex_Binop op arg1 arg2) \<longleftrightarrow> isIRAtom arg1 \<and> isIRAtom arg2"
| "isFlat_rhs (Iex_Unop op arg) = isIRAtom arg"
| "isFlat_rhs (Iex_Load e ty addr) = isIRAtom addr"
| "isFlat_rhs (Iex_Const con) = True"
| "isFlat_rhs (Iex_CCall cee retty args) = list_all isIRAtom args"
| "isFlat_rhs (Iex_ITE cond iftrue iffalse) \<longleftrightarrow> isIRAtom cond \<and> isIRAtom iftrue \<and> isIRAtom iffalse"
| "isFlat_rhs Iex_VECRET = False"
| "isFlat_rhs Iex_GSPTR = False"

definition isFlat_dirty :: "IRDirty \<Rightarrow> bool" where
  "isFlat_dirty d \<longleftrightarrow> (case d_guard d of None \<Rightarrow> False | Some g \<Rightarrow> isIRAtom g) \<and>
     (case d_args d of None \<Rightarrow> False | Some args \<Rightarrow> list_all isIRAtom_or_VECRET_or_GSPTR args) \<and>
     pred_option isIRAtom (d_mAddr d)"

fun isFlatIRStmt :: "IRStmt \<Rightarrow> bool" where
  "isFlatIRStmt (Ist_AbiHint base len nia) \<longleftrightarrow> isIRAtom base \<and> isIRAtom nia"
| "isFlatIRStmt (Ist_Put offset d) = isIRAtom d"
| "isFlatIRStmt (Ist_PutI descr ix bi d) \<longleftrightarrow> isIRAtom ix \<and> isIRAtom d"
| "isFlatIRStmt (Ist_WrTmp tmp d) = isFlat_rhs d"
| "isFlatIRStmt (Ist_Store e addr d) \<longleftrightarrow> isIRAtom addr \<and> isIRAtom d"
| "isFlatIRStmt (Ist_StoreG e addr d guard) \<longleftrightarrow> isIRAtom addr \<and> isIRAtom d \<and> isIRAtom guard"
| "isFlatIRStmt (Ist_LoadG e cvt dst addr alt guard) \<longleftrightarrow> isIRAtom addr \<and> isIRAtom alt \<and> isIRAtom guard"
| "isFlatIRStmt (Ist_CAS cas) \<longleftrightarrow> isIRAtom (cas_addr cas) \<and> pred_option isIRAtom (cas_expdHi cas) \<and>
     isIRAtom (cas_expdLo cas) \<and> pred_option isIRAtom (cas_dataHi cas) \<and> isIRAtom (cas_dataLo cas)"
| "isFlatIRStmt (Ist_LLSC e result addr storedata) \<longleftrightarrow> isIRAtom addr \<and> pred_option isIRAtom storedata"
| "isFlatIRStmt (Ist_Dirty d) = isFlat_dirty d"
| "isFlatIRStmt Ist_NoOp = True"
| "isFlatIRStmt (Ist_IMark addr len delta) = True"
| "isFlatIRStmt (Ist_MBE event) = True"
| "isFlatIRStmt (Ist_Exit guard dst jk offs) = isIRAtom guard"

definition isFlatIRSB :: "IRSB \<Rightarrow> bool" where
  "isFlatIRSB sb \<longleftrightarrow> list_all (\<lambda>s. case s of None \<Rightarrow> False | Some st \<Rightarrow> isFlatIRStmt st) (stmts sb) \<and>
     (case sb_next sb of None \<Rightarrow> False | Some e \<Rightarrow> isIRAtom e)"


section \<open>Small helpers\<close>

definition eqIRRegArray :: "IRRegArray \<Rightarrow> IRRegArray \<Rightarrow> bool" where
  "eqIRRegArray d1 d2 \<longleftrightarrow> ra_base d1 = ra_base d2 \<and> ra_elemTy d1 = ra_elemTy d2 \<and> ra_nElems d1 = ra_nElems d2"

fun sizeofIRType :: "IRType \<Rightarrow> int option" where
  "sizeofIRType Ity_I8 = Some 1"
| "sizeofIRType Ity_I16 = Some 2"
| "sizeofIRType Ity_I32 = Some 4"
| "sizeofIRType Ity_I64 = Some 8"
| "sizeofIRType Ity_I128 = Some 16"
| "sizeofIRType Ity_F16 = Some 2"
| "sizeofIRType Ity_F32 = Some 4"
| "sizeofIRType Ity_F64 = Some 8"
| "sizeofIRType Ity_F128 = Some 16"
| "sizeofIRType Ity_D32 = Some 4"
| "sizeofIRType Ity_D64 = Some 8"
| "sizeofIRType Ity_D128 = Some 16"
| "sizeofIRType Ity_V128 = Some 16"
| "sizeofIRType Ity_V256 = Some 32"
| "sizeofIRType Ity_I1 = None"
| "sizeofIRType Ity_INVALID = None"

definition integerIRTypeOfSize :: "int \<Rightarrow> IRType option" where
  "integerIRTypeOfSize szB =
     (if szB = 16 then Some Ity_I128 else if szB = 8 then Some Ity_I64 else if szB = 4 then Some Ity_I32
      else if szB = 2 then Some Ity_I16 else if szB = 1 then Some Ity_I8 else None)"

end
