(* ===== verification/Vex_Sanity.thy ===== *)
theory Vex_Sanity
  imports Vex_IR
begin

text \<open>
  The sanity check of \<^verbatim>\<open>VEX/priv/ir_defs.c\<close>: flatness, single assignment before use, and types.
  \<^verbatim>\<open>sanityCheckFail\<close> and \<^verbatim>\<open>vpanic\<close> do not return; a check that reaches one of them is \<open>False\<close>.
\<close>

section \<open>Pieces\<close>

definition saneIRRegArray :: "IRRegArray \<Rightarrow> bool" where
  "saneIRRegArray arr \<longleftrightarrow> \<not> (ra_base arr < 0 \<or> ra_base arr > 10000) \<and> ra_elemTy arr \<noteq> Ity_I1 \<and>
     \<not> (ra_nElems arr \<le> 0 \<or> ra_nElems arr > 500)"

definition saneIRCallee :: "IRCallee \<Rightarrow> bool" where
  "saneIRCallee cee \<longleftrightarrow> ce_name cee \<noteq> None \<and> ce_addr cee \<noteq> 0 \<and> \<not> (ce_regparms cee < 0 \<or> ce_regparms cee > 3)"

definition saneIRConst :: "IRConst \<Rightarrow> bool" where
  "saneIRConst con = True"

section \<open>Definition before use, once\<close>

text \<open>\<open>dc\<close> counts the definitions of each temporary so far.\<close>

definition useBeforeDef_Temp :: "IRTypeEnv \<Rightarrow> IRTemp \<Rightarrow> nat list \<Rightarrow> bool" where
  "useBeforeDef_Temp env tmp dc \<longleftrightarrow> \<not> tmp \<ge> length (types env) \<and> \<not> dc ! tmp < 1"

definition assignedOnce_Temp :: "IRTemp \<Rightarrow> nat list \<Rightarrow> nat \<Rightarrow> nat list option" where
  "assignedOnce_Temp tmp dc n =
     (if tmp \<ge> n then None
      else let dc = dc[tmp := dc ! tmp + 1] in if dc ! tmp > 1 then None else Some dc)"

fun useBeforeDef_Expr :: "IRTypeEnv \<Rightarrow> IRExpr \<Rightarrow> nat list \<Rightarrow> bool" where
  "useBeforeDef_Expr env (Iex_Get offset ty) dc = True"
| "useBeforeDef_Expr env (Iex_GetI descr ix bi) dc = useBeforeDef_Expr env ix dc"
| "useBeforeDef_Expr env (Iex_RdTmp tmp) dc = useBeforeDef_Temp env tmp dc"
| "useBeforeDef_Expr env (Iex_Qop op arg1 arg2 arg3 arg4) dc \<longleftrightarrow> useBeforeDef_Expr env arg1 dc \<and>
     useBeforeDef_Expr env arg2 dc \<and> useBeforeDef_Expr env arg3 dc \<and> useBeforeDef_Expr env arg4 dc"
| "useBeforeDef_Expr env (Iex_Triop op arg1 arg2 arg3) dc \<longleftrightarrow> useBeforeDef_Expr env arg1 dc \<and>
     useBeforeDef_Expr env arg2 dc \<and> useBeforeDef_Expr env arg3 dc"
| "useBeforeDef_Expr env (Iex_Binop op arg1 arg2) dc \<longleftrightarrow> useBeforeDef_Expr env arg1 dc \<and> useBeforeDef_Expr env arg2 dc"
| "useBeforeDef_Expr env (Iex_Unop op arg) dc = useBeforeDef_Expr env arg dc"
| "useBeforeDef_Expr env (Iex_Load e ty addr) dc = useBeforeDef_Expr env addr dc"
| "useBeforeDef_Expr env (Iex_Const con) dc = True"
| "useBeforeDef_Expr env (Iex_CCall cee retty args) dc =
     list_all (\<lambda>arg. \<not> is_IRExpr_VECRET_or_GSPTR arg \<and> useBeforeDef_Expr env arg dc) args"
| "useBeforeDef_Expr env (Iex_ITE cond iftrue iffalse) dc \<longleftrightarrow> useBeforeDef_Expr env cond dc \<and>
     useBeforeDef_Expr env iftrue dc \<and> useBeforeDef_Expr env iffalse dc"
| "useBeforeDef_Expr env (Iex_Binder b) dc = False"
| "useBeforeDef_Expr env Iex_VECRET dc = False"
| "useBeforeDef_Expr env Iex_GSPTR dc = False"

definition useBeforeDef_dirty :: "IRTypeEnv \<Rightarrow> IRDirty \<Rightarrow> nat list \<Rightarrow> bool" where
  "useBeforeDef_dirty env d dc \<longleftrightarrow>
     (case d_args d of None \<Rightarrow> False
      | Some args \<Rightarrow> list_all (\<lambda>arg. is_IRExpr_VECRET_or_GSPTR arg \<or> useBeforeDef_Expr env arg dc) args) \<and>
     (d_mFx d \<noteq> Ifx_None \<longrightarrow> (case d_mAddr d of None \<Rightarrow> False | Some a \<Rightarrow> useBeforeDef_Expr env a dc))"

fun useBeforeDef_Stmt :: "IRTypeEnv \<Rightarrow> IRStmt \<Rightarrow> nat list \<Rightarrow> bool" where
  "useBeforeDef_Stmt env (Ist_IMark addr len delta) dc = True"
| "useBeforeDef_Stmt env (Ist_AbiHint base len nia) dc \<longleftrightarrow> useBeforeDef_Expr env base dc \<and> useBeforeDef_Expr env nia dc"
| "useBeforeDef_Stmt env (Ist_Put offset d) dc = useBeforeDef_Expr env d dc"
| "useBeforeDef_Stmt env (Ist_PutI descr ix bi d) dc \<longleftrightarrow> useBeforeDef_Expr env ix dc \<and> useBeforeDef_Expr env d dc"
| "useBeforeDef_Stmt env (Ist_WrTmp tmp d) dc = useBeforeDef_Expr env d dc"
| "useBeforeDef_Stmt env (Ist_Store e addr d) dc \<longleftrightarrow> useBeforeDef_Expr env addr dc \<and> useBeforeDef_Expr env d dc"
| "useBeforeDef_Stmt env (Ist_StoreG e addr d guard) dc \<longleftrightarrow> useBeforeDef_Expr env addr dc \<and> useBeforeDef_Expr env d dc \<and>
     useBeforeDef_Expr env guard dc"
| "useBeforeDef_Stmt env (Ist_LoadG e cvt dst addr alt guard) dc \<longleftrightarrow> useBeforeDef_Expr env addr dc \<and>
     useBeforeDef_Expr env alt dc \<and> useBeforeDef_Expr env guard dc"
| "useBeforeDef_Stmt env (Ist_CAS cas) dc \<longleftrightarrow> useBeforeDef_Expr env (cas_addr cas) dc \<and>
     pred_option (\<lambda>e. useBeforeDef_Expr env e dc) (cas_expdHi cas) \<and> useBeforeDef_Expr env (cas_expdLo cas) dc \<and>
     pred_option (\<lambda>e. useBeforeDef_Expr env e dc) (cas_dataHi cas) \<and> useBeforeDef_Expr env (cas_dataLo cas) dc"
| "useBeforeDef_Stmt env (Ist_LLSC e result addr storedata) dc \<longleftrightarrow> useBeforeDef_Expr env addr dc \<and>
     pred_option (\<lambda>e. useBeforeDef_Expr env e dc) storedata"
| "useBeforeDef_Stmt env (Ist_Dirty d) dc = useBeforeDef_dirty env d dc"
| "useBeforeDef_Stmt env Ist_NoOp dc = True"
| "useBeforeDef_Stmt env (Ist_MBE event) dc = True"
| "useBeforeDef_Stmt env (Ist_Exit guard dst jk offs) dc = useBeforeDef_Expr env guard dc"

fun assignedOnce_Stmt :: "IRStmt \<Rightarrow> nat list \<Rightarrow> nat \<Rightarrow> nat list option" where
  "assignedOnce_Stmt (Ist_WrTmp tmp d) dc n = assignedOnce_Temp tmp dc n"
| "assignedOnce_Stmt (Ist_LoadG e cvt dst addr alt guard) dc n = assignedOnce_Temp dst dc n"
| "assignedOnce_Stmt (Ist_Dirty d) dc n =
     (if d_tmp d \<noteq> IRTemp_INVALID then assignedOnce_Temp (d_tmp d) dc n else Some dc)"
| "assignedOnce_Stmt (Ist_CAS cas) dc n = do {
     dc \<leftarrow> (if cas_oldHi cas \<noteq> IRTemp_INVALID then assignedOnce_Temp (cas_oldHi cas) dc n else Some dc);
     assignedOnce_Temp (cas_oldLo cas) dc n
   }"
| "assignedOnce_Stmt (Ist_LLSC e result addr storedata) dc n = assignedOnce_Temp result dc n"
| "assignedOnce_Stmt s dc n = Some dc"

fun defs_loop :: "IRTypeEnv \<Rightarrow> IRStmt option list \<Rightarrow> nat list \<Rightarrow> nat list option" where
  "defs_loop env [] dc = Some dc"
| "defs_loop env (s # ss) dc = do {
     st \<leftarrow> s;
     dc \<leftarrow> (if useBeforeDef_Stmt env st dc then assignedOnce_Stmt st dc (length (types env)) else None);
     defs_loop env ss dc
   }"

section \<open>Types\<close>

definition tc_Qop where
  "tc_Qop po env op arg1 arg2 arg3 arg4 \<longleftrightarrow>
     (case typeOfPrimop po op of
        None \<Rightarrow> False
      | Some (t_dst, t_arg1, t_arg2, t_arg3, t_arg4) \<Rightarrow>
          \<not> (t_arg1 = Ity_INVALID \<or> t_arg2 = Ity_INVALID \<or> t_arg3 = Ity_INVALID \<or> t_arg4 = Ity_INVALID) \<and>
          typeOfIRExpr po env arg1 = Some t_arg1 \<and> typeOfIRExpr po env arg2 = Some t_arg2 \<and>
          typeOfIRExpr po env arg3 = Some t_arg3 \<and> typeOfIRExpr po env arg4 = Some t_arg4)"

definition tc_Triop where
  "tc_Triop po env op arg1 arg2 arg3 \<longleftrightarrow>
     (case typeOfPrimop po op of
        None \<Rightarrow> False
      | Some (t_dst, t_arg1, t_arg2, t_arg3, t_arg4) \<Rightarrow>
          \<not> (t_arg1 = Ity_INVALID \<or> t_arg2 = Ity_INVALID \<or> t_arg3 = Ity_INVALID \<or> t_arg4 \<noteq> Ity_INVALID) \<and>
          typeOfIRExpr po env arg1 = Some t_arg1 \<and> typeOfIRExpr po env arg2 = Some t_arg2 \<and>
          typeOfIRExpr po env arg3 = Some t_arg3)"

definition tc_Binop where
  "tc_Binop po env op arg1 arg2 \<longleftrightarrow>
     (case typeOfPrimop po op of
        None \<Rightarrow> False
      | Some (t_dst, t_arg1, t_arg2, t_arg3, t_arg4) \<Rightarrow>
          \<not> (t_arg1 = Ity_INVALID \<or> t_arg2 = Ity_INVALID \<or> t_arg3 \<noteq> Ity_INVALID \<or> t_arg4 \<noteq> Ity_INVALID) \<and>
          typeOfIRExpr po env arg1 = Some t_arg1 \<and> typeOfIRExpr po env arg2 = Some t_arg2)"

definition tc_Unop where
  "tc_Unop po env op arg \<longleftrightarrow>
     (case typeOfPrimop po op of
        None \<Rightarrow> False
      | Some (t_dst, t_arg1, t_arg2, t_arg3, t_arg4) \<Rightarrow>
          \<not> (t_arg1 = Ity_INVALID \<or> t_arg2 \<noteq> Ity_INVALID \<or> t_arg3 \<noteq> Ity_INVALID \<or> t_arg4 \<noteq> Ity_INVALID) \<and>
          typeOfIRExpr po env arg = Some t_arg1)"

text \<open>\<open>is_typed\<close> and \<open>not_I1\<close>: the type exists, and it is the given one or not \<^verbatim>\<open>Ity_I1\<close>.\<close>

abbreviation not_I1 :: "IRType option \<Rightarrow> bool" where
  "not_I1 t \<equiv> t \<noteq> None \<and> t \<noteq> Some Ity_I1"

fun tcExpr :: "(nat \<Rightarrow> primop_type option) \<Rightarrow> IRTypeEnv \<Rightarrow> IRType \<Rightarrow> IRExpr \<Rightarrow> bool" where
  "tcExpr po env g (Iex_Get offset ty) = True"
| "tcExpr po env g (Iex_RdTmp tmp) = True"
| "tcExpr po env g (Iex_GetI descr ix bi) \<longleftrightarrow> tcExpr po env g ix \<and> typeOfIRExpr po env ix = Some Ity_I32 \<and> saneIRRegArray descr"
| "tcExpr po env g (Iex_Qop op arg1 arg2 arg3 arg4) \<longleftrightarrow> tcExpr po env g arg1 \<and> tcExpr po env g arg2 \<and>
     tcExpr po env g arg3 \<and> tcExpr po env g arg4 \<and> tc_Qop po env op arg1 arg2 arg3 arg4"
| "tcExpr po env g (Iex_Triop op arg1 arg2 arg3) \<longleftrightarrow> tcExpr po env g arg1 \<and> tcExpr po env g arg2 \<and>
     tcExpr po env g arg3 \<and> tc_Triop po env op arg1 arg2 arg3"
| "tcExpr po env g (Iex_Binop op arg1 arg2) \<longleftrightarrow> tcExpr po env g arg1 \<and> tcExpr po env g arg2 \<and> tc_Binop po env op arg1 arg2"
| "tcExpr po env g (Iex_Unop op arg) \<longleftrightarrow> tcExpr po env g arg \<and> tc_Unop po env op arg"
| "tcExpr po env g (Iex_Load e ty addr) \<longleftrightarrow> tcExpr po env g addr \<and> typeOfIRExpr po env addr = Some g"
| "tcExpr po env g (Iex_CCall cee retty args) \<longleftrightarrow> saneIRCallee cee \<and> ce_regparms cee \<le> int (length args) \<and> length args \<le> 32 \<and>
     list_all (\<lambda>arg. \<not> is_IRExpr_VECRET_or_GSPTR arg \<and> tcExpr po env g arg) args \<and> retty \<noteq> Ity_I1 \<and>
     list_all (\<lambda>arg. not_I1 (typeOfIRExpr po env arg)) args"
| "tcExpr po env g (Iex_Const con) = saneIRConst con"
| "tcExpr po env g (Iex_ITE cond iftrue iffalse) \<longleftrightarrow> tcExpr po env g cond \<and> tcExpr po env g iftrue \<and> tcExpr po env g iffalse \<and>
     typeOfIRExpr po env cond = Some Ity_I1 \<and>
     typeOfIRExpr po env iftrue \<noteq> None \<and> typeOfIRExpr po env iftrue = typeOfIRExpr po env iffalse"
| "tcExpr po env g (Iex_Binder b) = False"
| "tcExpr po env g Iex_VECRET = False"
| "tcExpr po env g Iex_GSPTR = False"

definition tc_CAS :: "(nat \<Rightarrow> primop_type option) \<Rightarrow> IRTypeEnv \<Rightarrow> IRType \<Rightarrow> IRCAS \<Rightarrow> bool" where
  "tc_CAS po env g cas \<longleftrightarrow>
     (cas_oldHi cas = IRTemp_INVALID \<and> cas_expdHi cas = None \<and> cas_dataHi cas = None \<or>
      cas_oldHi cas \<noteq> IRTemp_INVALID \<and> cas_expdHi cas \<noteq> None \<and> cas_dataHi cas \<noteq> None) \<and>
     tcExpr po env g (cas_addr cas) \<and> typeOfIRExpr po env (cas_addr cas) = Some g \<and>
     (case typeOfIRExpr po env (cas_expdLo cas) of
        None \<Rightarrow> False
      | Some tyExpd \<Rightarrow>
          typeOfIRExpr po env (cas_dataLo cas) = Some tyExpd \<and> typeOfIRTemp env (cas_oldLo cas) = Some tyExpd \<and>
          (tyExpd = Ity_I8 \<or> tyExpd = Ity_I16 \<or> tyExpd = Ity_I32 \<or> g = Ity_I64 \<and> tyExpd = Ity_I64)) \<and>
     (cas_oldHi cas \<noteq> IRTemp_INVALID \<longrightarrow>
        (case typeOfIRExpr po env (the (cas_expdHi cas)) of
           None \<Rightarrow> False
         | Some tyExpd \<Rightarrow>
             typeOfIRExpr po env (the (cas_dataHi cas)) = Some tyExpd \<and> typeOfIRTemp env (cas_oldHi cas) = Some tyExpd \<and>
             typeOfIRTemp env (cas_oldLo cas) = Some tyExpd))"

definition ll_sc_type :: "IRType option \<Rightarrow> bool" where
  "ll_sc_type t \<longleftrightarrow> t \<in> Some ` {Ity_I128, Ity_I64, Ity_I32, Ity_I16, Ity_I8}"

definition tc_LLSC where
  "tc_LLSC po env g result addr storedata \<longleftrightarrow> typeOfIRExpr po env addr = Some g \<and>
     (case storedata of
        None \<Rightarrow> ll_sc_type (typeOfIRTemp env result)
      | Some d \<Rightarrow> typeOfIRTemp env result = Some Ity_I1 \<and> ll_sc_type (typeOfIRExpr po env d))"

definition tc_fx :: "FxState \<Rightarrow> bool" where
  "tc_fx fx \<longleftrightarrow> fx_fx fx \<noteq> Ifx_None \<and> fx_size fx \<noteq> 0 \<and>
     (if fx_nRepeats fx = 0 then fx_repeatLen fx = 0
      else unat (fx_repeatLen fx) > unat (fx_size fx) \<and> unat (fx_repeatLen fx) mod unat (fx_size fx) = 0)"

text \<open>The loop over the arguments of a dirty call: \<open>i\<close> is the index, \<open>nv\<close> and \<open>ng\<close> the numbers of \<^verbatim>\<open>VECRET\<close>s and \<^verbatim>\<open>GSPTR\<close>s.\<close>

fun tc_dirty_args ::
  "(nat \<Rightarrow> primop_type option) \<Rightarrow> IRTypeEnv \<Rightarrow> IRType \<Rightarrow> IRExpr list \<Rightarrow> nat \<Rightarrow> nat \<Rightarrow> nat \<Rightarrow> nat option" where
  "tc_dirty_args po env retTy [] i nv ng = Some ng"
| "tc_dirty_args po env retTy (arg # args) i nv ng =
     (let nv = (if arg = Iex_VECRET then nv + 1 else nv);
          ng = (if arg = Iex_GSPTR then ng + 1 else ng) in
      if i \<ge> 32 \<or> \<not> (is_IRExpr_VECRET_or_GSPTR arg \<or> not_I1 (typeOfIRExpr po env arg)) \<or> ng > 1 \<or>
         nv = 1 \<and> retTy \<noteq> Ity_V128 \<and> retTy \<noteq> Ity_V256 \<or>
         nv = 0 \<and> (retTy = Ity_V128 \<or> retTy = Ity_V256) \<or> nv > 1
      then None
      else tc_dirty_args po env retTy args (i + 1) nv ng)"

definition dirty_retTy :: "IRTypeEnv \<Rightarrow> IRDirty \<Rightarrow> IRType option" where
  "dirty_retTy env d = (if d_tmp d \<noteq> IRTemp_INVALID then typeOfIRTemp env (d_tmp d) else Some Ity_INVALID)"

definition tc_Dirty :: "(nat \<Rightarrow> primop_type option) \<Rightarrow> IRTypeEnv \<Rightarrow> IRType \<Rightarrow> IRDirty \<Rightarrow> bool" where
  "tc_Dirty po env g d \<longleftrightarrow>
     (case (d_cee d, d_args d, d_guard d) of
        (Some cee, Some args, Some guard) \<Rightarrow>
          saneIRCallee cee \<and> ce_regparms cee \<le> int (length args) \<and>
          (if d_mFx d = Ifx_None then d_mAddr d = None \<and> d_mSize d = 0 else d_mAddr d \<noteq> None \<and> d_mSize d \<noteq> 0) \<and>
          length (d_fxState d) \<le> VEX_N_FXSTATE \<and> list_all tc_fx (d_fxState d) \<and>
          tcExpr po env g guard \<and> typeOfIRExpr po env guard = Some Ity_I1 \<and>
          (case dirty_retTy env d of
             None \<Rightarrow> False
           | Some retTy \<Rightarrow> retTy \<noteq> Ity_I1 \<and>
               (case tc_dirty_args po env retTy args 0 0 0 of
                  None \<Rightarrow> False | Some ng \<Rightarrow> ng \<le> 1 \<and> \<not> (d_fxState d = [] \<and> ng \<noteq> 0)))
      | _ \<Rightarrow> False)"

fun tcStmt :: "(nat \<Rightarrow> primop_type option) \<Rightarrow> IRTypeEnv \<Rightarrow> IRType \<Rightarrow> IRStmt \<Rightarrow> bool" where
  "tcStmt po env g (Ist_IMark addr len delta) \<longleftrightarrow> \<not> len > 24 \<and> \<not> delta > 1"
| "tcStmt po env g (Ist_AbiHint base len nia) \<longleftrightarrow> typeOfIRExpr po env base = Some g \<and> typeOfIRExpr po env nia = Some g"
| "tcStmt po env g (Ist_Put offset d) \<longleftrightarrow> tcExpr po env g d \<and> not_I1 (typeOfIRExpr po env d)"
| "tcStmt po env g (Ist_PutI descr ix bi d) \<longleftrightarrow> tcExpr po env g d \<and> tcExpr po env g ix \<and> not_I1 (typeOfIRExpr po env d) \<and>
     typeOfIRExpr po env d = Some (ra_elemTy descr) \<and> typeOfIRExpr po env ix = Some Ity_I32 \<and> saneIRRegArray descr"
| "tcStmt po env g (Ist_WrTmp tmp d) \<longleftrightarrow> tcExpr po env g d \<and> typeOfIRTemp env tmp \<noteq> None \<and>
     typeOfIRTemp env tmp = typeOfIRExpr po env d"
| "tcStmt po env g (Ist_Store e addr d) \<longleftrightarrow> tcExpr po env g addr \<and> tcExpr po env g d \<and> typeOfIRExpr po env addr = Some g \<and>
     not_I1 (typeOfIRExpr po env d)"
| "tcStmt po env g (Ist_StoreG e addr d guard) \<longleftrightarrow> tcExpr po env g addr \<and> tcExpr po env g d \<and> tcExpr po env g guard \<and>
     typeOfIRExpr po env addr = Some g \<and> not_I1 (typeOfIRExpr po env d) \<and> typeOfIRExpr po env guard = Some Ity_I1"
| "tcStmt po env g (Ist_LoadG e cvt dst addr alt guard) \<longleftrightarrow> tcExpr po env g addr \<and> tcExpr po env g alt \<and> tcExpr po env g guard \<and>
     typeOfIRExpr po env guard = Some Ity_I1 \<and> typeOfIRExpr po env addr = Some g \<and>
     typeOfIRTemp env dst \<noteq> None \<and> typeOfIRExpr po env alt = typeOfIRTemp env dst \<and>
     map_option fst (typeOfIRLoadGOp cvt) = typeOfIRTemp env dst"
| "tcStmt po env g (Ist_CAS cas) = tc_CAS po env g cas"
| "tcStmt po env g (Ist_LLSC e result addr storedata) = tc_LLSC po env g result addr storedata"
| "tcStmt po env g (Ist_Dirty d) = tc_Dirty po env g d"
| "tcStmt po env g Ist_NoOp = True"
| "tcStmt po env g (Ist_MBE event) = True"
| "tcStmt po env g (Ist_Exit guard dst jk offs) \<longleftrightarrow> tcExpr po env g guard \<and> typeOfIRExpr po env guard = Some Ity_I1 \<and>
     saneIRConst dst \<and> typeOfIRConst dst = g \<and> \<not> offs < 16"

section \<open>Blocks\<close>

definition all_stmts :: "(IRStmt \<Rightarrow> bool) \<Rightarrow> IRStmt option list \<Rightarrow> bool" where
  "all_stmts P ss \<longleftrightarrow> list_all (\<lambda>s. case s of None \<Rightarrow> False | Some st \<Rightarrow> P st) ss"

definition sanityCheckIRSB :: "(nat \<Rightarrow> primop_type option) \<Rightarrow> IRSB \<Rightarrow> bool \<Rightarrow> IRType \<Rightarrow> bool" where
  "sanityCheckIRSB po bb require_flat g \<longleftrightarrow>
     (g = Ity_I32 \<or> g = Ity_I64) \<and> \<not> (stmts_size bb < 8 \<or> length (stmts bb) > stmts_size bb) \<and>
     list_all isPlausibleIRType (types (tyenv bb)) \<and>
     (require_flat \<longrightarrow> all_stmts isFlatIRStmt (stmts bb) \<and> (case sb_next bb of None \<Rightarrow> False | Some e \<Rightarrow> isIRAtom e)) \<and>
     defs_loop (tyenv bb) (stmts bb) (replicate (length (types (tyenv bb))) 0) \<noteq> None \<and>
     all_stmts (tcStmt po (tyenv bb) g) (stmts bb) \<and>
     (case sb_next bb of None \<Rightarrow> False | Some e \<Rightarrow> typeOfIRExpr po (tyenv bb) e = Some g) \<and>
     \<not> offsIP bb < 16"

end
