(* ===== verification/Vex_Extend.thy ===== *)
theory Vex_Extend
  imports Vex_Sanity
begin

text \<open>
  The sanity check under more temporaries: types, type checks and the counts of definitions are
  kept when the type environment is extended at its end.
\<close>

section \<open>Types\<close>

definition extends :: "IRTypeEnv \<Rightarrow> IRTypeEnv \<Rightarrow> bool" where
  "extends env env' \<longleftrightarrow> (\<exists>ts. types env' = types env @ ts)"

lemma extends_length: "extends env env' \<Longrightarrow> length (types env) \<le> length (types env')"
  by (auto simp: extends_def)

lemma temp_extends: "extends env env' \<Longrightarrow> typeOfIRTemp env t = Some ty \<Longrightarrow> typeOfIRTemp env' t = Some ty"
  by (auto simp: extends_def typeOfIRTemp_def nth_append split: if_splits)

lemma type_extends: "extends env env' \<Longrightarrow> typeOfIRExpr po env e = Some ty \<Longrightarrow> typeOfIRExpr po env' e = Some ty"
  by (induction e) (auto simp: temp_extends)

lemma type_extends_eq: "extends env env' \<Longrightarrow> typeOfIRExpr po env e \<noteq> None \<Longrightarrow> typeOfIRExpr po env' e = typeOfIRExpr po env e"
  using type_extends by (metis option.exhaust)

lemma temp_extends_eq: "extends env env' \<Longrightarrow> typeOfIRTemp env e \<noteq> None \<Longrightarrow> typeOfIRTemp env' e = typeOfIRTemp env e"
  using temp_extends by (metis option.exhaust)

lemma tc_ops_extend:
  assumes "extends env env'"
  shows "tc_Qop po env op a b c d \<Longrightarrow> tc_Qop po env' op a b c d" "tc_Triop po env op a b c \<Longrightarrow> tc_Triop po env' op a b c"
    "tc_Binop po env op a b \<Longrightarrow> tc_Binop po env' op a b" "tc_Unop po env op a \<Longrightarrow> tc_Unop po env' op a"
  using type_extends [OF assms]
  by (auto simp: tc_Qop_def tc_Triop_def tc_Binop_def tc_Unop_def split: option.splits)

lemma tcExpr_extends: "extends env env' \<Longrightarrow> tcExpr po env g e \<Longrightarrow> tcExpr po env' g e"
proof (induction e)
  case (Iex_CCall cee retty args)
  then show ?case by (auto simp: list_all_iff type_extends_eq)
next
  case (Iex_ITE cond iftrue iffalse)
  then obtain ty where "typeOfIRExpr po env iftrue = Some ty" "typeOfIRExpr po env iffalse = Some ty" by fastforce
  with Iex_ITE show ?case by (simp add: type_extends)
qed (auto simp: type_extends tc_ops_extend)

lemma dirty_args_extend:
  "extends env env' \<Longrightarrow> tc_dirty_args po env retTy args i nv ng = Some k \<Longrightarrow> tc_dirty_args po env' retTy args i nv ng = Some k"
proof (induction args arbitrary: i nv ng)
  case (Cons arg args)
  have "typeOfIRExpr po env' arg = typeOfIRExpr po env arg" if "\<not> is_IRExpr_VECRET_or_GSPTR arg"
    using that Cons.prems type_extends_eq by (auto simp: Let_def split: if_splits)
  then show ?case using Cons by (auto simp: Let_def split: if_splits)
qed simp

lemma tc_Dirty_extends:
  assumes "extends env env'" "tc_Dirty po env g d"
  shows "tc_Dirty po env' g d"
proof -
  from assms(2) obtain cee args guard where s: "d_cee d = Some cee" "d_args d = Some args" "d_guard d = Some guard"
    by (auto simp: tc_Dirty_def split: option.splits)
  with assms(2) obtain retTy ng where r: "dirty_retTy env d = Some retTy" "tc_dirty_args po env retTy args 0 0 0 = Some ng"
    by (auto simp: tc_Dirty_def split: option.splits)
  have "dirty_retTy env' d = Some retTy" using r(1) temp_extends [OF assms(1)] by (auto simp: dirty_retTy_def split: if_splits)
  with assms s r dirty_args_extend [OF assms(1) r(2)] show ?thesis
    by (auto simp: tc_Dirty_def tcExpr_extends type_extends)
qed

lemma tc_CAS_extends:
  assumes "extends env env'" "tc_CAS po env g cas"
  shows "tc_CAS po env' g cas"
proof -
  note e = type_extends [OF assms(1)] temp_extends [OF assms(1)] tcExpr_extends [OF assms(1)]
  show ?thesis using assms(2) e unfolding tc_CAS_def by (auto split: option.splits)
qed

lemma tcStmt_extends: "extends env env' \<Longrightarrow> tcStmt po env g s \<Longrightarrow> tcStmt po env' g s"
proof (cases s)
  case (Ist_LLSC e result addr storedata)
  assume a: "extends env env'" "tcStmt po env g s"
  then show ?thesis using Ist_LLSC type_extends [OF a(1)] temp_extends [OF a(1)]
    by (auto simp: tc_LLSC_def ll_sc_type_def split: option.splits)
next
  case (Ist_WrTmp tmp d)
  assume a: "extends env env'" "tcStmt po env g s"
  then obtain ty where "typeOfIRExpr po env d = Some ty" "typeOfIRTemp env tmp = Some ty" using Ist_WrTmp by fastforce
  then show ?thesis using a Ist_WrTmp by (simp add: type_extends temp_extends tcExpr_extends)
qed (auto simp: tcExpr_extends type_extends type_extends_eq temp_extends temp_extends_eq tc_Dirty_extends tc_CAS_extends)

section \<open>Definitions and uses\<close>

text \<open>
  \<open>dsim env env' dc dc' n\<close>: the counts \<open>dc'\<close> agree with \<open>dc\<close> on the temporaries of \<open>env\<close>, and those from
  \<open>n\<close> on are not defined yet.
\<close>

definition dsim :: "IRTypeEnv \<Rightarrow> IRTypeEnv \<Rightarrow> nat list \<Rightarrow> nat list \<Rightarrow> nat \<Rightarrow> bool" where
  "dsim env env' dc dc' n \<longleftrightarrow> length dc = length (types env) \<and> length dc' = length (types env') \<and> length dc \<le> n \<and>
     length dc \<le> length dc' \<and> (\<forall>i<length dc. dc' ! i = dc ! i) \<and> (\<forall>i. n \<le> i \<longrightarrow> i < length dc' \<longrightarrow> dc' ! i = 0)"

lemma use_temp_sim: "dsim env env' dc dc' n \<Longrightarrow> useBeforeDef_Temp env t dc \<Longrightarrow> useBeforeDef_Temp env' t dc'"
  by (auto simp: useBeforeDef_Temp_def dsim_def)

lemma use_expr_sim: "dsim env env' dc dc' n \<Longrightarrow> useBeforeDef_Expr env e dc \<Longrightarrow> useBeforeDef_Expr env' e dc'"
  by (induction e) (auto simp: use_temp_sim list_all_iff)

lemma use_dirty_sim: "dsim env env' dc dc' n \<Longrightarrow> useBeforeDef_dirty env d dc \<Longrightarrow> useBeforeDef_dirty env' d dc'"
  using use_expr_sim by (fastforce simp: useBeforeDef_dirty_def list_all_iff split: option.splits)

lemma use_stmt_sim: "dsim env env' dc dc' n \<Longrightarrow> useBeforeDef_Stmt env s dc \<Longrightarrow> useBeforeDef_Stmt env' s dc'"
  using use_expr_sim [of env env' dc dc' n] use_dirty_sim [of env env' dc dc' n]
  by (cases s) (auto intro: option.pred_mono_strong)

lemma assign_temp_sim:
  assumes "dsim env env' dc dc' n" "assignedOnce_Temp t dc (length (types env)) = Some dc1"
  shows "\<exists>dc1'. assignedOnce_Temp t dc' (length (types env')) = Some dc1' \<and> dsim env env' dc1 dc1' n"
  using assms by (auto simp: assignedOnce_Temp_def dsim_def Let_def nth_list_update split: if_splits)

lemma assign_stmt_sim:
  assumes "dsim env env' dc dc' n" "assignedOnce_Stmt s dc (length (types env)) = Some dc1"
  shows "\<exists>dc1'. assignedOnce_Stmt s dc' (length (types env')) = Some dc1' \<and> dsim env env' dc1 dc1' n"
proof (cases s)
  case (Ist_CAS cas)
  obtain dcm where m: "(if cas_oldHi cas \<noteq> IRTemp_INVALID then assignedOnce_Temp (cas_oldHi cas) dc (length (types env)) else Some dc) = Some dcm"
    "assignedOnce_Temp (cas_oldLo cas) dcm (length (types env)) = Some dc1"
    using assms(2) Ist_CAS by (auto split: bind_splits)
  obtain dcm' where "(if cas_oldHi cas \<noteq> IRTemp_INVALID then assignedOnce_Temp (cas_oldHi cas) dc' (length (types env')) else Some dc') = Some dcm'"
    "dsim env env' dcm dcm' n"
    using m(1) assms(1) assign_temp_sim [OF assms(1)] by (auto split: if_splits)
  with assign_temp_sim [OF _ m(2)] Ist_CAS show ?thesis by fastforce
qed (use assms assign_temp_sim [OF assms(1)] in \<open>auto split: if_splits\<close>)

lemma defs_loop_append:
  "defs_loop env (xs @ ys) dc = defs_loop env xs dc \<bind> defs_loop env ys"
  by (induction xs arbitrary: dc) (auto split: bind_splits)

text \<open>The next fresh temporary is assigned.\<close>

lemma assign_fresh:
  assumes "dsim env env' dc dc' n" "n < length (types env')"
  shows "assignedOnce_Temp n dc' (length (types env')) = Some (dc'[n := 1])" "dsim env env' dc (dc'[n := 1]) (Suc n)"
    "useBeforeDef_Temp env' n (dc'[n := 1])"
  using assms by (auto simp: assignedOnce_Temp_def dsim_def useBeforeDef_Temp_def)

end
