(* ===== verification/Ml_Log.thy ===== *)
theory Ml_Log
  imports Vg_StackTrace
begin

text \<open>
  The log buffer of \<^verbatim>\<open>memlog/ml_main.c\<close>: events are collected in an array of fixed size that is
  printed and emptied when it is full and at exit. The array is a function on indices with the
  bound checked on every access; its entries keep stale fields, as in C. The relation
  \<open>logged\<close> says that what was printed together with what is still in the buffer is a given
  sequence of events.
\<close>

section \<open>Operations\<close>

definition MAX_LOG_ENTRIES :: nat where
  "MAX_LOG_ENTRIES = 3000000"

datatype LogEventType = LOG_STORE | LOG_ALLOC | LOG_FREE

record LogEntry =
  le_type :: LogEventType
  le_addr :: Addr
  le_value :: HWord
  le_size :: SizeT
  le_where :: ptr

record log_state =
  log_buffer :: "nat \<Rightarrow> LogEntry"
  log_count :: nat

definition log_initial :: log_state where
  "log_initial =
     \<lparr>log_buffer = (\<lambda>_. \<lparr>le_type = LOG_STORE, le_addr = 0, le_value = 0, le_size = 0, le_where = None\<rparr>),
      log_count = 0\<rparr>"

text \<open>The literal lines.\<close>

definition alloc_start :: string where
  "alloc_start = ''===ALLOC START==='' @ [NL]"

definition alloc_end :: string where
  "alloc_end = ''===ALLOC END==='' @ [NL]"

definition alloc_missing :: string where
  "alloc_missing = ''(No allocation stack trace available)'' @ [NL]"

definition free_start :: string where
  "free_start = ''===FREE START==='' @ [NL]"

definition free_end :: string where
  "free_end = ''===FREE END==='' @ [NL]"

definition free_missing :: string where
  "free_missing = ''(No free stack trace available)'' @ [NL]"

text \<open>\<^verbatim>\<open>if (entry->where) VG_(pp_ExeContext)(entry->where); else VG_(printf)(...)\<close>\<close>

definition pp_where ::
  "print_env \<Rightarrow> (nat \<rightharpoonup> ExeContext) \<Rightarrow> ptr \<Rightarrow> string \<Rightarrow> vgp_state \<Rightarrow> vgp_state option" where
  "pp_where pe h p missing ps =
     (case p of
        Some e \<Rightarrow> do { ec \<leftarrow> h e; pp_ExeContext pe ec ps }
      | None \<Rightarrow> pe_printf pe ps missing [])"

definition flush_entry ::
  "print_env \<Rightarrow> (nat \<rightharpoonup> ExeContext) \<Rightarrow> LogEntry \<Rightarrow> vgp_state \<Rightarrow> vgp_state option" where
  "flush_entry pe h entry ps =
     (case le_type entry of
        LOG_STORE \<Rightarrow>
          pe_printf pe ps (''0x%lx 0x%lx'' @ [NL]) [VaLong (le_addr entry), VaLong (le_value entry)]
      | LOG_ALLOC \<Rightarrow> do {
          ps \<leftarrow> pe_printf pe ps alloc_start [];
          ps \<leftarrow> pe_printf pe ps (''Start 0x%lx, size %lu'' @ [NL])
                 [VaLong (le_addr entry), VaLong (le_size entry)];
          ps \<leftarrow> pp_where pe h (le_where entry) alloc_missing ps;
          pe_printf pe ps alloc_end []
        }
      | LOG_FREE \<Rightarrow> do {
          ps \<leftarrow> pe_printf pe ps free_start [];
          ps \<leftarrow> pe_printf pe ps (''Start 0x%lx, size %lu'' @ [NL])
                 [VaLong (le_addr entry), VaLong (le_size entry)];
          ps \<leftarrow> pp_where pe h (le_where entry) free_missing ps;
          pe_printf pe ps free_end []
        })"

fun flush_loop ::
  "print_env \<Rightarrow> (nat \<rightharpoonup> ExeContext) \<Rightarrow> (nat \<Rightarrow> LogEntry) \<Rightarrow> nat list \<Rightarrow> vgp_state \<Rightarrow> vgp_state option" where
  "flush_loop pe h buf [] ps = Some ps"
| "flush_loop pe h buf (i # is) ps =
     (if i < MAX_LOG_ENTRIES then do { ps \<leftarrow> flush_entry pe h (buf i) ps; flush_loop pe h buf is ps } else None)"

definition flush_log_buffer ::
  "print_env \<Rightarrow> (nat \<rightharpoonup> ExeContext) \<Rightarrow> log_state \<Rightarrow> vgp_state \<Rightarrow> (log_state \<times> vgp_state) option" where
  "flush_log_buffer pe h lg ps = do {
     ps \<leftarrow> flush_loop pe h (log_buffer lg) [0..<log_count lg] ps;
     Some (lg\<lparr>log_count := 0\<rparr>, ps)
   }"

definition add_to_buffer ::
  "print_env \<Rightarrow> (nat \<rightharpoonup> ExeContext) \<Rightarrow> log_state \<Rightarrow> vgp_state \<Rightarrow>
   LogEventType \<Rightarrow> Addr \<Rightarrow> HWord \<Rightarrow> SizeT \<Rightarrow> ptr \<Rightarrow> (log_state \<times> vgp_state) option" where
  "add_to_buffer pe h lg ps ty addr v sz whr =
     (if log_count lg < MAX_LOG_ENTRIES then do {
        let e = log_buffer lg (log_count lg);
        let e = e\<lparr>le_type := ty, le_addr := addr\<rparr>;
        let e = (if ty = LOG_STORE then e\<lparr>le_value := v\<rparr> else e\<lparr>le_size := sz, le_where := whr\<rparr>);
        let lg = lg\<lparr>log_buffer := (log_buffer lg)(log_count lg := e), log_count := log_count lg + 1\<rparr>;
        if log_count lg \<ge> MAX_LOG_ENTRIES then flush_log_buffer pe h lg ps else Some (lg, ps)
      } else None)"

section \<open>Events\<close>

text \<open>What is logged: a store, or the start or end of a block with its stack trace.\<close>

datatype event =
    EvStore Addr HWord
  | EvAlloc Addr SizeT "Addr list option"
  | EvFree Addr SizeT "Addr list option"

definition hex :: "64 word \<Rightarrow> string" where
  "hex x = ''0x'' @ num 16 False (unat x)"

definition range_text :: "Addr \<Rightarrow> SizeT \<Rightarrow> string" where
  "range_text a sz = ''Start '' @ hex a @ '', size '' @ num 10 False (unat sz) @ [NL]"

fun event_text :: "print_env \<Rightarrow> event \<Rightarrow> string" where
  "event_text pe (EvStore a v) = hex a @ '' '' @ hex v @ [NL]"
| "event_text pe (EvAlloc a sz tr) =
     alloc_start @ range_text a sz @
     (case tr of Some is \<Rightarrow> trace_text pe is | None \<Rightarrow> alloc_missing) @
     alloc_end"
| "event_text pe (EvFree a sz tr) =
     free_start @ range_text a sz @
     (case tr of Some is \<Rightarrow> trace_text pe is | None \<Rightarrow> free_missing) @
     free_end"

text \<open>The event an entry stands for, its stack trace looked up in the contexts.\<close>

definition where_is :: "(nat \<rightharpoonup> ExeContext) \<Rightarrow> ptr \<Rightarrow> Addr list option \<Rightarrow> bool" where
  "where_is h p tr \<longleftrightarrow>
     (case p of None \<Rightarrow> tr = None | Some e \<Rightarrow> (\<exists>is. tr = Some is \<and> is \<noteq> [] \<and> matches h is e))"

fun entry_is :: "(nat \<rightharpoonup> ExeContext) \<Rightarrow> LogEntry \<Rightarrow> event \<Rightarrow> bool" where
  "entry_is h e (EvStore a v) \<longleftrightarrow> le_type e = LOG_STORE \<and> le_addr e = a \<and> le_value e = v"
| "entry_is h e (EvAlloc a sz tr) \<longleftrightarrow>
     le_type e = LOG_ALLOC \<and> le_addr e = a \<and> le_size e = sz \<and> where_is h (le_where e) tr"
| "entry_is h e (EvFree a sz tr) \<longleftrightarrow>
     le_type e = LOG_FREE \<and> le_addr e = a \<and> le_size e = sz \<and> where_is h (le_where e) tr"

text \<open>The events so far: those printed, after the text \<open>t\<close>, and those in the buffer.\<close>

definition logged ::
  "print_env \<Rightarrow> (nat \<rightharpoonup> ExeContext) \<Rightarrow> log_state \<Rightarrow> vgp_state \<Rightarrow> string \<Rightarrow> event list \<Rightarrow> bool" where
  "logged pe h lg ps t evs \<longleftrightarrow> log_count lg < MAX_LOG_ENTRIES \<and>
     (\<exists>printed pending. evs = printed @ pending \<and>
        printing ps (t @ concat (map (event_text pe) printed)) \<and>
        list_all2 (entry_is h) (map (log_buffer lg) [0..<log_count lg]) pending)"

lemma where_is_extends: "ec_extends h h' \<Longrightarrow> where_is h p tr \<Longrightarrow> where_is h' p tr"
  by (auto simp: where_is_def ec_extends_matches split: option.splits)

lemma entry_is_extends: "ec_extends h h' \<Longrightarrow> entry_is h e ev \<Longrightarrow> entry_is h' e ev"
  by (cases ev) (auto intro: where_is_extends)

lemma logged_extends:
  assumes "logged pe h lg ps t evs" "ec_extends h h'"
  shows "logged pe h' lg ps t evs"
  using assms(1) entry_is_extends [OF assms(2)] list_all2_mono
  unfolding logged_def by (metis (mono_tags, lifting))

lemma pp_where_out:
  assumes "\<not> pe_xml pe" "printing ps t" "where_is h p tr"
    "debugLog_vprintf (pe_xml pe) m [] = Some (m, r)"
  shows "\<exists>ps'. pp_where pe h p m ps = Some ps' \<and>
     printing ps' (t @ (case tr of Some is \<Rightarrow> trace_text pe is | None \<Rightarrow> m))"
proof (cases p)
  case None
  with printf_out [OF assms(2,4)] assms(3) show ?thesis by (simp add: pp_where_def where_is_def)
next
  case (Some e)
  with assms(3) obtain "is" where i: "tr = Some is" "is \<noteq> []" "matches h is e" by (auto simp: where_is_def)
  from pp_ExeContext_out [OF assms(1,2) i(3)] i Some show ?thesis by (auto simp: pp_where_def)
qed

lemma range_out:
  assumes "printing ps t"
  shows "\<exists>ps'. pe_printf pe ps (''Start 0x%lx, size %lu'' @ [NL]) [VaLong a, VaLong sz] = Some ps' \<and>
     printing ps' (t @ range_text a sz)"
proof -
  have "debugLog_vprintf (pe_xml pe) (''Start 0x%lx, size %lu'' @ [NL]) [VaLong a, VaLong sz] =
      Some (range_text a sz, of_nat (length (range_text a sz)))"
    by (simp add: vprintf_formats NUL_def range_text_def hex_def Let_def)
  from printf_out [OF assms this] show ?thesis .
qed

lemma text_out:
  assumes "printing ps t" "cstring m" "CHR ''%'' \<notin> set m"
  shows "debugLog_vprintf xml m [] = Some (m, of_nat (length m))"
    "\<exists>ps'. pe_printf pe ps m [] = Some ps' \<and> printing ps' (t @ m)"
proof -
  have "debugLog_vprintf xml m [] = Some (m, of_nat (length m))" for xml
    using assms(2,3) by (induction m) (auto simp: vprintf_lit cstring_def)
  then show "debugLog_vprintf xml m [] = Some (m, of_nat (length m))"
    "\<exists>ps'. pe_printf pe ps m [] = Some ps' \<and> printing ps' (t @ m)"
    using printf_out [OF assms(1)] by blast+
qed


definition plain_text :: "string \<Rightarrow> bool" where
  "plain_text m \<longleftrightarrow> cstring m \<and> CHR ''%'' \<notin> set m"

lemma lines:
  "plain_text alloc_start" "plain_text alloc_end" "plain_text alloc_missing"
  "plain_text free_start" "plain_text free_end" "plain_text free_missing"
  by (simp_all add: plain_text_def NUL_def alloc_start_def alloc_end_def alloc_missing_def
      free_start_def free_end_def free_missing_def)

lemma framed_out:
  assumes "\<not> pe_xml pe" "printing ps t" "where_is h p tr" "plain_text s1" "plain_text m" "plain_text s2"
  shows "\<exists>ps'. (do {
       ps \<leftarrow> pe_printf pe ps s1 [];
       ps \<leftarrow> pe_printf pe ps (''Start 0x%lx, size %lu'' @ [NL]) [VaLong a, VaLong sz];
       ps \<leftarrow> pp_where pe h p m ps;
       pe_printf pe ps s2 [] }) = Some ps' \<and>
     printing ps' (t @ s1 @ range_text a sz @ (case tr of Some is \<Rightarrow> trace_text pe is | None \<Rightarrow> m) @ s2)"
proof -
  obtain p1 where 1: "pe_printf pe ps s1 [] = Some p1" "printing p1 (t @ s1)"
    using text_out(2) [OF assms(2)] assms(4) by (auto simp: plain_text_def)
  obtain p2 where 2: "pe_printf pe p1 (''Start 0x%lx, size %lu'' @ [NL]) [VaLong a, VaLong sz] = Some p2"
    "printing p2 ((t @ s1) @ range_text a sz)" using range_out [OF 1(2)] by blast
  obtain p3 where 3: "pp_where pe h p m p2 = Some p3"
    "printing p3 (((t @ s1) @ range_text a sz) @ (case tr of Some is \<Rightarrow> trace_text pe is | None \<Rightarrow> m))"
    using pp_where_out [OF assms(1) 2(2) assms(3) text_out(1) [OF assms(2)]] assms(5)
    by (auto simp: plain_text_def)
  obtain p4 where "pe_printf pe p3 s2 [] = Some p4"
    "printing p4 ((((t @ s1) @ range_text a sz) @ (case tr of Some is \<Rightarrow> trace_text pe is | None \<Rightarrow> m)) @ s2)"
    using text_out(2) [OF 3(2)] assms(6) unfolding plain_text_def by blast
  with 1 2 3 show ?thesis by simp
qed

lemma flush_entry_out:
  assumes "\<not> pe_xml pe" "printing ps t" "entry_is h e ev"
  shows "\<exists>ps'. flush_entry pe h e ps = Some ps' \<and> printing ps' (t @ event_text pe ev)"
proof (cases ev)
  case (EvStore a v)
  have "debugLog_vprintf (pe_xml pe) (''0x%lx 0x%lx'' @ [NL]) [VaLong a, VaLong v] =
      Some (event_text pe ev, of_nat (length (event_text pe ev)))"
    by (simp add: EvStore vprintf_formats NUL_def hex_def Let_def)
  from printf_out [OF assms(2) this] assms(3) EvStore show ?thesis by (simp add: flush_entry_def)
next
  case (EvAlloc a sz tr)
  with framed_out [OF assms(1,2) _ lines(1,3,2), of h "le_where e" tr a sz] assms(3) show ?thesis
    by (simp add: flush_entry_def)
next
  case (EvFree a sz tr)
  with framed_out [OF assms(1,2) _ lines(4,6,5), of h "le_where e" tr a sz] assms(3) show ?thesis
    by (simp add: flush_entry_def)
qed

lemma flush_loop_out:
  "\<not> pe_xml pe \<Longrightarrow> printing ps t \<Longrightarrow> list_all2 (entry_is h) (map buf is) evs \<Longrightarrow>
   \<forall>i\<in>set is. i < MAX_LOG_ENTRIES \<Longrightarrow>
   \<exists>ps'. flush_loop pe h buf is ps = Some ps' \<and> printing ps' (t @ concat (map (event_text pe) evs))"
proof (induction "is" arbitrary: ps t evs)
  case (Cons i "is")
  then obtain ev evs' where e: "evs = ev # evs'" "entry_is h (buf i) ev" "list_all2 (entry_is h) (map buf is) evs'"
    by (auto simp: list_all2_Cons1)
  obtain p1 where p: "flush_entry pe h (buf i) ps = Some p1" "printing p1 (t @ event_text pe ev)"
    using flush_entry_out [OF Cons.prems(1,2) e(2)] by blast
  from Cons.IH [OF Cons.prems(1) p(2) e(3)] Cons.prems(4) p(1) e(1) show ?case by simp
qed simp

lemma flush_ok:
  assumes "\<not> pe_xml pe" "list_all2 (entry_is h) (map (log_buffer lg) [0..<log_count lg]) pending"
    "printing ps (t @ concat (map (event_text pe) printed))" "log_count lg \<le> MAX_LOG_ENTRIES"
  shows "\<exists>ps'. flush_log_buffer pe h lg ps = Some (lg\<lparr>log_count := 0\<rparr>, ps') \<and>
     printing ps' (t @ concat (map (event_text pe) (printed @ pending)))"
  using flush_loop_out [OF assms(1,3,2)] assms(4) by (auto simp: flush_log_buffer_def)

lemma add_ok:
  assumes "\<not> pe_xml pe" "logged pe h lg ps t evs"
    "\<And>e. entry_is h (if ty = LOG_STORE then e\<lparr>le_type := ty, le_addr := addr, le_value := v\<rparr>
        else e\<lparr>le_type := ty, le_addr := addr, le_size := sz, le_where := whr\<rparr>) ev"
  shows "\<exists>lg' ps'. add_to_buffer pe h lg ps ty addr v sz whr = Some (lg', ps') \<and>
     logged pe h lg' ps' t (evs @ [ev])"
proof -
  from assms(2) obtain printed pending where l: "log_count lg < MAX_LOG_ENTRIES" "evs = printed @ pending"
    "printing ps (t @ concat (map (event_text pe) printed))"
    "list_all2 (entry_is h) (map (log_buffer lg) [0..<log_count lg]) pending"
    by (auto simp: logged_def)
  let ?n = "log_count lg"
  define e where "e = (let e = (log_buffer lg ?n)\<lparr>le_type := ty, le_addr := addr\<rparr>
    in if ty = LOG_STORE then e\<lparr>le_value := v\<rparr> else e\<lparr>le_size := sz, le_where := whr\<rparr>)"
  have "entry_is h e ev" using assms(3) [of "log_buffer lg ?n"] by (simp add: e_def Let_def split: if_splits)
  define lg1 where "lg1 = lg\<lparr>log_buffer := (log_buffer lg)(?n := e), log_count := ?n + 1\<rparr>"
  have "map (log_buffer lg1) [0..<?n] = map (log_buffer lg) [0..<?n]" by (simp add: lg1_def)
  then have pend: "list_all2 (entry_is h) (map (log_buffer lg1) [0..<log_count lg1]) (pending @ [ev])"
    using l(4) \<open>entry_is h e ev\<close> by (simp add: lg1_def list_all2_appendI)
  have add: "add_to_buffer pe h lg ps ty addr v sz whr =
      (if log_count lg1 \<ge> MAX_LOG_ENTRIES then flush_log_buffer pe h lg1 ps else Some (lg1, ps))"
    using l(1) by (simp add: add_to_buffer_def lg1_def e_def Let_def)
  show ?thesis
  proof (cases "log_count lg1 \<ge> MAX_LOG_ENTRIES")
    case False
    then have "logged pe h lg1 ps t (evs @ [ev])"
      using l(2,3) pend unfolding logged_def by (intro conjI exI [of _ printed] exI [of _ "pending @ [ev]"]) simp_all
    with add False show ?thesis by simp
  next
    case True
    obtain ps' where f: "flush_log_buffer pe h lg1 ps = Some (lg1\<lparr>log_count := 0\<rparr>, ps')"
      "printing ps' (t @ concat (map (event_text pe) (printed @ pending @ [ev])))"
      using flush_ok [OF assms(1) pend l(3)] l(1) by (auto simp: lg1_def)
    then have "logged pe h (lg1\<lparr>log_count := 0\<rparr>) ps' t (evs @ [ev])"
      using l(2) unfolding logged_def MAX_LOG_ENTRIES_def
      by (intro conjI exI [of _ "printed @ pending @ [ev]"] exI [of _ "[]"]) simp_all
    with add True f(1) show ?thesis by simp
  qed
qed

lemma logged_flush:
  assumes "\<not> pe_xml pe" "logged pe h lg ps t evs"
  shows "\<exists>ps'. flush_log_buffer pe h lg ps = Some (lg\<lparr>log_count := 0\<rparr>, ps') \<and>
     printing ps' (t @ concat (map (event_text pe) evs))"
  using assms flush_ok [OF assms(1)] unfolding logged_def by (metis less_imp_le)

lemma logged_initial: "printing ps t \<Longrightarrow> logged pe h log_initial ps t []"
  by (simp add: logged_def log_initial_def MAX_LOG_ENTRIES_def)

end
