(* ===== verification/Vg_Options.thy ===== *)
theory Vg_Options
  imports Ml_Log
begin

text \<open>
  Command line options: the processing modes of \<^verbatim>\<open>coregrind/m_options.c\<close> and the recognisers of
  \<^verbatim>\<open>include/pub_tool_options.h\<close>. A recogniser takes the option's variable and returns it updated.
  A complaint about an option ends the process in the early and the normal mode: \<open>Exited\<close> is
  \<^verbatim>\<open>VG_(exit)(1)\<close>, with what was printed. \<open>None\<close> is a fault, as everywhere.
\<close>

section \<open>Processing modes\<close>

type_synonym Clo_Mode = "32 word"

definition cloE :: Clo_Mode where "cloE = 1"
definition cloP :: Clo_Mode where "cloP = 2"
definition cloD :: Clo_Mode where "cloD = 4"
definition cloH :: Clo_Mode where "cloH = 8"
definition cloEP :: Clo_Mode where "cloEP = cloE OR cloP"

record clo_env =
  ce_pe :: print_env
  clo_verbosity :: int

record clo_state =
  clo_mode :: Clo_Mode
  clo_recognised :: bool
  clo_col :: int
  clo_ps :: vgp_state

datatype 'a clo_res = Exited vgp_state | Returned 'a

definition clo_bind :: "'a clo_res option \<Rightarrow> ('a \<Rightarrow> 'b clo_res option) \<Rightarrow> 'b clo_res option" where
  "clo_bind m k = do { r \<leftarrow> m; case r of Exited ps \<Rightarrow> Some (Exited ps) | Returned x \<Rightarrow> k x }"

definition set_Clo_Mode :: "Clo_Mode \<Rightarrow> clo_state \<Rightarrow> clo_state" where
  "set_Clo_Mode mode st = st\<lparr>clo_mode := mode, clo_recognised := False\<rparr>"

definition set_Clo_Recognised :: "clo_state \<Rightarrow> clo_state" where
  "set_Clo_Recognised st = st\<lparr>clo_recognised := True\<rparr>"

text \<open>Printing within the option state.\<close>

definition clo_printf :: "clo_env \<Rightarrow> clo_state \<Rightarrow> string \<Rightarrow> va_arg list \<Rightarrow> clo_state option" where
  "clo_printf env st format vargs =
     map_option (\<lambda>ps. st\<lparr>clo_ps := ps\<rparr>) (pe_printf (ce_pe env) (clo_ps st) format vargs)"

definition clo_umsg :: "clo_env \<Rightarrow> clo_state \<Rightarrow> string \<Rightarrow> va_arg list \<Rightarrow> clo_state option" where
  "clo_umsg env st format vargs =
     map_option (\<lambda>ps. st\<lparr>clo_ps := ps\<rparr>) (pe_umsg (ce_pe env) (clo_ps st) format vargs)"

definition list_clo :: "clo_env \<Rightarrow> clo_state \<Rightarrow> string \<Rightarrow> clo_state option" where
  "list_clo env st qq_option = do {
     let len = int (vg_strlen qq_option);
     st \<leftarrow> (if clo_col st + len + 1 > 80 then do {
               st \<leftarrow> clo_printf env st [NL] [];
               Some (st\<lparr>clo_col := 0\<rparr>)
             } else Some st);
     st \<leftarrow> (if clo_col st = 0 then do {
               st \<leftarrow> clo_printf env st ''    '' [];
               Some (st\<lparr>clo_col := clo_col st + 4\<rparr>)
             } else do {
               st \<leftarrow> clo_printf env st '' '' [];
               Some (st\<lparr>clo_col := clo_col st + 1\<rparr>)
             });
     st \<leftarrow> clo_printf env st ''%s'' [VaStr (Some qq_option)];
     Some (st\<lparr>clo_col := clo_col st + len\<rparr>)
   }"

definition check_clom ::
  "clo_env \<Rightarrow> clo_state \<Rightarrow> Clo_Mode \<Rightarrow> string \<Rightarrow> string \<Rightarrow> bool \<Rightarrow> (bool \<times> clo_state) option" where
  "check_clom env st modes arg opt recognised = do {
     let res = (recognised \<and> modes AND clo_mode st \<noteq> 0);
     let dynamic = (cloD = clo_mode st);
     st \<leftarrow> (if recognised then do {
               let st = set_Clo_Recognised st;
               if dynamic \<and> \<not> res then
                 clo_umsg env st (''Cannot change %s option dynamically'' @ [NL]) [VaStr (Some opt)]
               else if dynamic \<and> clo_verbosity env \<ge> 1 then
                 clo_umsg env st (''Handling new value %s for option %s'' @ [NL]) [VaStr (Some arg), VaStr (Some opt)]
               else Some st
             } else Some st);
     st \<leftarrow> (if cloH = clo_mode st \<and> cloD AND modes \<noteq> 0 then list_clo env st opt else Some st);
     Some (res, st)
   }"

definition clo_bad_option ::
  "clo_env \<Rightarrow> clo_state \<Rightarrow> string \<Rightarrow> string \<Rightarrow> va_arg list \<Rightarrow> clo_state clo_res option" where
  "clo_bad_option env st opt format vargs = do {
     let pe = ce_pe env;
     (ps, fatal) \<leftarrow> vg_fmsg_bad_option (pe_ws pe) (pe_xml pe) (pe_msg pe) (clo_mode st AND cloEP \<noteq> 0)
                      (clo_ps st) opt format vargs;
     Some (if fatal then Exited ps else Returned (st\<lparr>clo_ps := ps\<rparr>))
   }"

section \<open>Recognisers\<close>

text \<open>\<^verbatim>\<open>VG_STREQN(VG_(strlen)(qq_option)+1, qq_arg, qq_option"=")\<close> and \<^verbatim>\<open>&(qq_arg)[VG_(strlen)(qq_option)+1]\<close>.\<close>

definition opt_eq :: "string \<Rightarrow> string \<Rightarrow> bool" where
  "opt_eq arg opt \<longleftrightarrow> VG_STREQN (vg_strlen opt + 1) arg (opt @ ''='')"

definition opt_val :: "string \<Rightarrow> string \<Rightarrow> string" where
  "opt_val arg opt = drop (vg_strlen opt + 1) arg"

definition bool_clom ::
  "clo_env \<Rightarrow> clo_state \<Rightarrow> Clo_Mode \<Rightarrow> string \<Rightarrow> string \<Rightarrow> bool \<Rightarrow> bool \<Rightarrow> (bool \<times> bool \<times> clo_state) clo_res option" where
  "bool_clom env st mode arg opt var vareq_arg = do {
     (ok, st) \<leftarrow> check_clom env st mode arg opt vareq_arg;
     if ok then
       let val = opt_val arg opt in
       if vg_strcmp val ''yes'' = 0 then Some (Returned (True, True, st))
       else if vg_strcmp val ''no'' = 0 then Some (Returned (True, False, st))
       else clo_bind (clo_bad_option env st arg
               (''Invalid boolean value '' @ [CHR 0x27] @ ''%s'' @ [CHR 0x27] @ '' (should be '' @ [CHR 0x27] @ ''yes'' @
                [CHR 0x27] @ '' or '' @ [CHR 0x27] @ ''no'' @ [CHR 0x27] @ '')'' @ [NL]) [VaStr (Some val)])
             (\<lambda>st. Some (Returned (False, var, st)))
     else if VG_STREQN (vg_strlen opt) arg opt \<and> vg_strlen opt = vg_strlen arg then
       clo_bind (clo_bad_option env st arg
               (''Missing boolean value, did you mean '' @ [CHR 0x27] @ ''%s=yes'' @ [CHR 0x27] @ ''?'' @ [NL])
               [VaStr (Some arg)])
             (\<lambda>st. Some (Returned (False, var, st)))
     else Some (Returned (False, var, st))
   }"

definition BOOL_CLO ::
  "clo_env \<Rightarrow> string \<Rightarrow> string \<Rightarrow> bool \<Rightarrow> clo_state \<Rightarrow> (bool \<times> bool \<times> clo_state) clo_res option" where
  "BOOL_CLO env arg opt var st = bool_clom env st cloP arg opt var (opt_eq arg opt)"

definition STR_CLO ::
  "clo_env \<Rightarrow> string \<Rightarrow> string \<Rightarrow> string option \<Rightarrow> clo_state \<Rightarrow> (bool \<times> string option \<times> clo_state) clo_res option" where
  "STR_CLO env arg opt var st = do {
     (ok, st) \<leftarrow> check_clom env st cloP arg opt (opt_eq arg opt);
     Some (Returned (if ok then (True, Some (opt_val arg opt), st) else (False, var, st)))
   }"

definition XACT_CLO ::
  "clo_env \<Rightarrow> string \<Rightarrow> string \<Rightarrow> 'v \<Rightarrow> 'v \<Rightarrow> clo_state \<Rightarrow> (bool \<times> 'v \<times> clo_state) clo_res option" where
  "XACT_CLO env arg opt v var st = do {
     (ok, st) \<leftarrow> check_clom env st cloP arg opt (VG_STREQ arg opt);
     Some (Returned (if ok then (True, v, st) else (False, var, st)))
   }"

text \<open>
  \<open>conv\<close> is the conversion from \<^verbatim>\<open>Long\<close> to the type of the variable and \<open>num\<close> its value. The
  variable is assigned before the checks. \<^verbatim>\<open>(qq_var) != n\<close> compares in the type that C's
  conversions give: \<open>differs\<close>.
\<close>

definition integer_format :: string where
  "integer_format = ''Invalid integer value '' @ [CHR 0x27] @ ''%s'' @ [CHR 0x27, NL]"

definition bounds_format :: string where
  "bounds_format = [CHR 0x27] @ ''%s'' @ [CHR 0x27] @ '' argument must be between %lld and %lld'' @ [NL]"

definition INT_CLO ::
  "clo_env \<Rightarrow> string \<Rightarrow> string \<Rightarrow> (64 word \<Rightarrow> 'v) \<Rightarrow> ('v \<Rightarrow> 64 word \<Rightarrow> bool) \<Rightarrow> 'v \<Rightarrow> clo_state \<Rightarrow>
   (bool \<times> 'v \<times> clo_state) clo_res option" where
  "INT_CLO env arg opt conv differs var st = do {
     (ok, st) \<leftarrow> check_clom env st cloP arg opt (opt_eq arg opt);
     if \<not> ok then Some (Returned (False, var, st))
     else
       let val = opt_val arg opt; (n, s) = vg_strtoll10 val; var = conv n in
       if cur s \<noteq> NUL \<or> differs var n then
         clo_bind (clo_bad_option env st arg
             integer_format [VaStr (Some val)])
           (\<lambda>st. Some (Returned (False, var, st)))
       else Some (Returned (True, var, st))
   }"

definition BINT_CLO ::
  "clo_env \<Rightarrow> string \<Rightarrow> string \<Rightarrow> (64 word \<Rightarrow> 'v) \<Rightarrow> ('v \<Rightarrow> 64 word \<Rightarrow> bool) \<Rightarrow> ('v \<Rightarrow> int) \<Rightarrow> int \<Rightarrow> int \<Rightarrow> 'v \<Rightarrow>
   clo_state \<Rightarrow> (bool \<times> 'v \<times> clo_state) clo_res option" where
  "BINT_CLO env arg opt conv differs valof lo hi var st = do {
     (ok, st) \<leftarrow> check_clom env st cloP arg opt (opt_eq arg opt);
     if \<not> ok then Some (Returned (False, var, st))
     else
       let val = opt_val arg opt; (n, s) = vg_strtoll10 val; var = conv n in
       clo_bind
         (if cur s \<noteq> NUL \<or> differs var n then
            clo_bind (clo_bad_option env st arg
                integer_format [VaStr (Some val)])
              (\<lambda>st. Some (Returned (False, st)))
          else Some (Returned (True, st)))
         (\<lambda>(res, st).
            if valof var < lo \<or> valof var > hi then
              clo_bind (clo_bad_option env st arg
                  bounds_format
                  [VaStr (Some opt), VaLong (word_of_int lo), VaLong (word_of_int hi)])
                (\<lambda>st. Some (Returned (False, var, st)))
            else Some (Returned (res, var, st)))
   }"

text \<open>
  The chain \<^verbatim>\<open>if VG_x_CLO(...) {} else if ...\<close> on a state \<open>s\<close> of variables: a recogniser reads and
  writes its variable in the state, the next one runs when it returns \<^verbatim>\<open>False\<close>.
\<close>

definition clo_var ::
  "('s \<Rightarrow> 'v) \<Rightarrow> ('v \<Rightarrow> 's \<Rightarrow> 's) \<Rightarrow> ('v \<Rightarrow> clo_state \<Rightarrow> (bool \<times> 'v \<times> clo_state) clo_res option) \<Rightarrow>
   's \<times> clo_state \<Rightarrow> (bool \<times> 's \<times> clo_state) clo_res option" where
  "clo_var get put rec st =
     clo_bind (rec (get (fst st)) (snd st)) (\<lambda>(res, v, cs). Some (Returned (res, put v (fst st), cs)))"

fun clo_chain ::
  "('s \<times> clo_state \<Rightarrow> (bool \<times> 's \<times> clo_state) clo_res option) list \<Rightarrow> 's \<times> clo_state \<Rightarrow>
   (bool \<times> 's \<times> clo_state) clo_res option" where
  "clo_chain [] st = Some (Returned (False, st))"
| "clo_chain (r # rs) st =
     clo_bind (r st) (\<lambda>(res, st). if res then Some (Returned (True, st)) else clo_chain rs st)"

text \<open>The two types of integer variables: \<^verbatim>\<open>Long\<close>, and \<^verbatim>\<open>SizeT\<close>, for which \<^verbatim>\<open>n\<close> is converted too.\<close>

definition BINT_Long where
  "BINT_Long env arg opt lo hi var st = BINT_CLO env arg opt sint (\<lambda>v n. v \<noteq> sint n) (\<lambda>v. v) lo hi var st"

definition BINT_SizeT where
  "BINT_SizeT env arg opt lo hi var st =
     BINT_CLO env arg opt (\<lambda>n. n :: SizeT) (\<lambda>v n. v \<noteq> n) uint lo hi var st"

section \<open>Outcomes\<close>

text \<open>No fault, and a postcondition for the case that the process goes on.\<close>

definition clo_ok :: "('a \<Rightarrow> bool) \<Rightarrow> 'a clo_res option \<Rightarrow> bool" where
  "clo_ok Q r \<longleftrightarrow> (case r of None \<Rightarrow> False | Some (Exited ps) \<Rightarrow> True | Some (Returned x) \<Rightarrow> Q x)"

lemma clo_ok_simps [simp]:
  "clo_ok Q (Some (Returned x)) = Q x" "clo_ok Q (Some (Exited ps))"
  by (simp_all add: clo_ok_def)

lemma clo_ok_bind: "clo_ok P m \<Longrightarrow> (\<And>x. P x \<Longrightarrow> clo_ok Q (k x)) \<Longrightarrow> clo_ok Q (clo_bind m k)"
  by (cases m) (auto simp: clo_ok_def [of P] clo_bind_def split: clo_res.splits)

lemma clo_ok_mono: "clo_ok P m \<Longrightarrow> (\<And>x. P x \<Longrightarrow> Q x) \<Longrightarrow> clo_ok Q m"
  by (auto simp: clo_ok_def split: option.splits clo_res.splits)

lemma clo_ok_never: "clo_ok (\<lambda>_. False) m \<Longrightarrow> clo_ok Q (clo_bind m k)"
  by (erule clo_ok_bind) simp

lemma clo_bind_Returned [simp]: "clo_bind (Some (Returned x)) k = k x"
  by (simp add: clo_bind_def)

text \<open>The mode is \<open>md\<close> and no message is under way.\<close>

definition clo_inv :: "Clo_Mode \<Rightarrow> clo_state \<Rightarrow> bool" where
  "clo_inv md st \<longleftrightarrow> clo_mode st = md \<and> (\<exists>t. printing (clo_ps st) t)"

lemma message_out:
  assumes "printing ps t" "debugLog_vprintf (pe_xml pe) f v = Some (out, r)" "out \<noteq> []" "last out = NL"
  shows "\<exists>ps' t'. vg_message (pe_ws pe) (pe_xml pe) (pe_msg pe) ps kind f v = Some (ps', r) \<and> printing ps' t'"
proof -
  have "msg_rel (vb_kind (ps_msg ps)) (ps_msg ps) (t, True)"
    using assms(1) by (simp add: printing_def msg_rel_def)
  from vmessage_emits [OF this assms(2), of "pe_ws pe" "pe_msg pe" kind] assms(3,4) show ?thesis
    by (auto simp: msg_spec_run vg_message_def printing_def msg_rel_def)
qed

lemma clo_umsg_ok:
  assumes "clo_inv md st" "debugLog_vprintf (pe_xml (ce_pe env)) f v = Some (out, r)" "out \<noteq> []" "last out = NL"
  shows "\<exists>st'. clo_umsg env st f v = Some st' \<and> clo_inv md st'"
  using assms umsg_out [OF _ assms(2,3,4), of "clo_ps st"] by (fastforce simp: clo_inv_def clo_umsg_def)

lemma clo_printf_ok:
  assumes "clo_inv md st" "debugLog_vprintf (pe_xml (ce_pe env)) f v = Some (out, r)"
  shows "\<exists>st'. clo_printf env st f v = Some st' \<and> clo_inv md st'"
  using assms printf_out [of "clo_ps st"] by (fastforce simp: clo_inv_def clo_printf_def)

lemma clo_inv_simps [simp]:
  "clo_inv md (st\<lparr>clo_col := c\<rparr>) = clo_inv md st" "clo_inv md (set_Clo_Recognised st) = clo_inv md st"
  by (simp_all add: clo_inv_def set_Clo_Recognised_def)

text \<open>A format that prints a line.\<close>

definition prints_line :: "string \<Rightarrow> va_arg list \<Rightarrow> bool" where
  "prints_line f v \<longleftrightarrow> (\<forall>xml. \<exists>out r. debugLog_vprintf xml f v = Some (out @ [NL], r))"

lemma prints_lineI:
  "(\<And>xml. \<exists>out r. debugLog_vprintf xml f v = Some (out, r) \<and> out \<noteq> [] \<and> last out = NL) \<Longrightarrow> prints_line f v"
  unfolding prints_line_def by (metis append_butlast_last_id)

lemma umsg_line: "clo_inv md st \<Longrightarrow> prints_line f v \<Longrightarrow> \<exists>st'. clo_umsg env st f v = Some st' \<and> clo_inv md st'"
  using clo_umsg_ok [of md st env f v] unfolding prints_line_def by fastforce

lemma message_line:
  "printing ps t \<Longrightarrow> prints_line f v \<Longrightarrow>
   \<exists>ps' r t'. vg_message (pe_ws pe) (pe_xml pe) (pe_msg pe) ps kind f v = Some (ps', r) \<and> printing ps' t'"
  using message_out [of ps t pe f v _ _ kind] unfolding prints_line_def by fastforce

lemma printing_stderr: "printing ps t \<Longrightarrow> printing (revert_to_stderr ps) t"
  by (simp add: printing_def revert_to_stderr_def revert_sink_to_stderr_def sink_on_def emitted_def)

lemmas line_formats = vprintf_formats NUL_def

lemma option_lines:
  "prints_line (''Bad option: %s'' @ [NL]) [VaStr (Some s)]"
  "prints_line (''Use --help for more information or consult the user manual.'' @ [NL]) []"
  "prints_line (''Cannot change %s option dynamically'' @ [NL]) [VaStr (Some s)]"
  "prints_line (''Handling new value %s for option %s'' @ [NL]) [VaStr (Some s), VaStr (Some s')]"
  "prints_line integer_format [VaStr (Some s)]"
  "prints_line bounds_format
     [VaStr (Some s), VaLong x, VaLong y]"
  "prints_line (''Missing boolean value, did you mean '' @ [CHR 0x27] @ ''%s=yes'' @ [CHR 0x27] @ ''?'' @ [NL])
     [VaStr (Some s)]"
  "prints_line (''Invalid boolean value '' @ [CHR 0x27] @ ''%s'' @ [CHR 0x27] @ '' (should be '' @ [CHR 0x27] @ ''yes'' @
     [CHR 0x27] @ '' or '' @ [CHR 0x27] @ ''no'' @ [CHR 0x27] @ '')'' @ [NL]) [VaStr (Some s)]"
  by (rule prints_lineI, simp add: line_formats Let_def integer_format_def bounds_format_def)+

lemma bad_option_ok:
  assumes "printing ps t" "prints_line f v"
  shows "\<exists>ps' t'. vg_fmsg_bad_option (pe_ws pe) (pe_xml pe) (pe_msg pe) fatal ps opt f v = Some (ps', fatal) \<and>
     printing ps' t'"
proof -
  define k where "k = (if fatal then Vg_FailMsg else Vg_UserMsg)"
  define ps0 where "ps0 = (if fatal then revert_to_stderr ps else ps)"
  have "printing ps0 t" using assms(1) printing_stderr by (simp add: ps0_def)
  from message_line [OF this option_lines(1), of pe k opt] obtain ps1 r1 t1 where
    1: "vg_message (pe_ws pe) (pe_xml pe) (pe_msg pe) ps0 k (''Bad option: %s'' @ [NL]) [VaStr (Some opt)] = Some (ps1, r1)"
    "printing ps1 t1" by blast
  from message_line [OF 1(2) assms(2), of pe k] obtain ps2 r2 t2 where
    2: "vg_message (pe_ws pe) (pe_xml pe) (pe_msg pe) ps1 k f v = Some (ps2, r2)" "printing ps2 t2" by blast
  from message_line [OF 2(2) option_lines(2), of pe k] obtain ps3 r3 t3 where
    3: "vg_message (pe_ws pe) (pe_xml pe) (pe_msg pe) ps2 k
        (''Use --help for more information or consult the user manual.'' @ [NL]) [] = Some (ps3, r3)"
    "printing ps3 t3" by blast
  show ?thesis
    unfolding vg_fmsg_bad_option_def Let_def k_def [symmetric] ps0_def [symmetric]
    using 1(1) 2(1) 3 by auto
qed

lemma clo_bad_ok:
  assumes "clo_inv md st" "prints_line f v"
  shows "clo_ok (\<lambda>st'. clo_inv md st' \<and> md AND cloEP = 0) (clo_bad_option env st opt f v)"
proof -
  from assms(1) obtain t where t: "printing (clo_ps st) t" "clo_mode st = md" by (auto simp: clo_inv_def)
  from bad_option_ok [OF t(1) assms(2), of "ce_pe env" "md AND cloEP \<noteq> 0" opt] t(2) show ?thesis
    by (auto simp: clo_bad_option_def clo_inv_def)
qed

lemma list_clo_ok: "clo_inv md st \<Longrightarrow> \<exists>st'. list_clo env st opt = Some st' \<and> clo_inv md st'"
proof -
  assume st: "clo_inv md st"
  have P: "\<exists>st'. clo_printf env st f [] = Some st' \<and> clo_inv md st'"
    if "clo_inv md st" "f = [NL] \<or> f = ''    '' \<or> f = '' ''" for st f
    using that clo_printf_ok [of md st env f "[]"] by (auto simp: line_formats vprintf_end)
  have S: "\<exists>st'. clo_printf env st ''%s'' [VaStr (Some opt)] = Some st' \<and> clo_inv md st'" if "clo_inv md st" for st
    using that clo_printf_ok [of md st env "''%s''" "[VaStr (Some opt)]"] by (auto simp: line_formats vprintf_end)
  define len where "len = int (vg_strlen opt)"
  obtain st1 where 1: "(if clo_col st + len + 1 > 80 then do {
      st \<leftarrow> clo_printf env st [NL] []; Some (st\<lparr>clo_col := 0\<rparr>) } else Some st) = Some st1" "clo_inv md st1"
    using P [OF st, of "[NL]"] st by (cases "clo_col st + len + 1 > 80") auto
  obtain st2 where 2: "(if clo_col st1 = 0 then do {
      st \<leftarrow> clo_printf env st1 ''    '' []; Some (st\<lparr>clo_col := clo_col st + 4\<rparr>) } else do {
      st \<leftarrow> clo_printf env st1 '' '' []; Some (st\<lparr>clo_col := clo_col st + 1\<rparr>) }) = Some st2" "clo_inv md st2"
    using P [OF 1(2), of "''    ''"] P [OF 1(2), of "'' ''"] by (cases "clo_col st1 = 0") auto
  obtain st3 where 3: "clo_printf env st2 ''%s'' [VaStr (Some opt)] = Some st3" "clo_inv md st3" using S [OF 2(2)] by blast
  show ?thesis unfolding list_clo_def Let_def len_def [symmetric] 1(1) bind.bind_lunit 2(1) 3(1) using 3(2) by simp
qed

lemma if_Some:
  "(c \<Longrightarrow> \<exists>x. a = Some x \<and> P x) \<Longrightarrow> (\<not> c \<Longrightarrow> \<exists>x. b = Some x \<and> P x) \<Longrightarrow> \<exists>x. (if c then a else b) = Some x \<and> P x"
  by simp

lemma check_ok:
  assumes st: "clo_inv md st"
  shows "\<exists>st'. check_clom env st modes arg opt recognised = Some (recognised \<and> modes AND md \<noteq> 0, st') \<and> clo_inv md st'"
proof -
  define res where "res = (recognised \<and> modes AND md \<noteq> 0)"
  have md: "clo_mode st = md" if "clo_inv md st" for st using that by (simp add: clo_inv_def)
  let ?c = "set_Clo_Recognised st"
  have c: "clo_inv md ?c" using st by simp
  have "\<exists>st1. (if recognised then do {
      let st = set_Clo_Recognised st;
      if cloD = md \<and> \<not> res then
        clo_umsg env st (''Cannot change %s option dynamically'' @ [NL]) [VaStr (Some opt)]
      else if cloD = md \<and> clo_verbosity env \<ge> 1 then
        clo_umsg env st (''Handling new value %s for option %s'' @ [NL]) [VaStr (Some arg), VaStr (Some opt)]
      else Some st } else Some st) = Some st1 \<and> clo_inv md st1"
    unfolding Let_def
    by (intro if_Some umsg_line [OF c] option_lines) (use c st in auto)
  then obtain st1 where 1: "(if recognised then do {
      let st = set_Clo_Recognised st;
      if cloD = md \<and> \<not> res then
        clo_umsg env st (''Cannot change %s option dynamically'' @ [NL]) [VaStr (Some opt)]
      else if cloD = md \<and> clo_verbosity env \<ge> 1 then
        clo_umsg env st (''Handling new value %s for option %s'' @ [NL]) [VaStr (Some arg), VaStr (Some opt)]
      else Some st } else Some st) = Some st1" "clo_inv md st1" by blast
  obtain st2 where 2: "(if cloH = clo_mode st1 \<and> cloD AND modes \<noteq> 0 then list_clo env st1 opt else Some st1) = Some st2"
    "clo_inv md st2"
    using list_clo_ok [OF 1(2), of env opt] 1(2) by (cases "cloH = clo_mode st1 \<and> cloD AND modes \<noteq> 0") auto
  have "check_clom env st modes arg opt recognised = Some (res, st2)"
    using 2(1) unfolding check_clom_def Let_def md [OF st] res_def [symmetric] 1(1) [unfolded Let_def] bind.bind_lunit
    by (simp only: bind.bind_lunit)
  with 2(2) show ?thesis by (simp add: res_def)
qed

section \<open>What the recognisers promise\<close>

text \<open>A complaint in a mode in which options are assigned does not return.\<close>

lemma mode_fatal: "cloP AND md \<noteq> 0 \<Longrightarrow> md AND cloEP \<noteq> 0"
proof
  assume p: "cloP AND md \<noteq> 0" and e: "md AND cloEP = 0"
  have "cloP AND md = (md AND cloEP) AND cloP" by (rule bit_eqI) (auto simp: cloEP_def bit_and_iff bit_or_iff)
  with e p show False by simp
qed

definition var_ok :: "Clo_Mode \<Rightarrow> ('v \<Rightarrow> bool) \<Rightarrow> 'v \<Rightarrow> bool \<times> 'v \<times> clo_state \<Rightarrow> bool" where
  "var_ok md P var = (\<lambda>(res, v, st). clo_inv md st \<and> (if res then P v else v = var))"

lemma BINT_ok:
  assumes st: "clo_inv md st"
  shows "clo_ok (var_ok md (\<lambda>v. lo \<le> valof v \<and> valof v \<le> hi) var)
    (BINT_CLO env arg opt conv differs valof lo hi var st)"
proof -
  from check_ok [OF st, of env cloP arg opt "opt_eq arg opt"] obtain st1 where
    c: "check_clom env st cloP arg opt (opt_eq arg opt) = Some (opt_eq arg opt \<and> cloP AND md \<noteq> 0, st1)" "clo_inv md st1" by blast
  show ?thesis
  proof (cases "opt_eq arg opt \<and> cloP AND md \<noteq> 0")
    case True
    obtain n s where n: "vg_strtoll10 (opt_val arg opt) = (n, s)" by (cases "vg_strtoll10 (opt_val arg opt)")
    have f: "clo_ok (\<lambda>_. False) (clo_bad_option env st1 arg f v)" if "prints_line f v" for f v
      by (rule clo_ok_mono [OF clo_bad_ok [OF c(2) that]]) (use True mode_fatal in auto)
    note never = f [OF option_lines(5), THEN clo_ok_never, THEN clo_ok_never] f [OF option_lines(6), THEN clo_ok_never]
    have "BINT_CLO env arg opt conv differs valof lo hi var st =
        (if cur s \<noteq> NUL \<or> differs (conv n) n then
           clo_bind (clo_bind (clo_bad_option env st1 arg integer_format [VaStr (Some (opt_val arg opt))])
               (\<lambda>st. Some (Returned (False, st))))
             (\<lambda>(res, st).
                if valof (conv n) < lo \<or> valof (conv n) > hi then
                  clo_bind (clo_bad_option env st arg bounds_format
                      [VaStr (Some opt), VaLong (word_of_int lo), VaLong (word_of_int hi)])
                    (\<lambda>st. Some (Returned (False, conv n, st)))
                else Some (Returned (res, conv n, st)))
         else if valof (conv n) < lo \<or> valof (conv n) > hi then
           clo_bind (clo_bad_option env st1 arg bounds_format
               [VaStr (Some opt), VaLong (word_of_int lo), VaLong (word_of_int hi)])
             (\<lambda>st. Some (Returned (False, conv n, st)))
         else Some (Returned (True, conv n, st1)))"
      unfolding BINT_CLO_def c(1) n Let_def prod.case bind.bind_lunit using True by simp
    then show ?thesis using c(2) by (simp add: never) (auto simp: var_ok_def)
  qed (use c in \<open>auto simp: BINT_CLO_def var_ok_def\<close>)
qed

lemma INT_ok:
  assumes st: "clo_inv md st"
  shows "clo_ok (var_ok md (\<lambda>_. True) var) (INT_CLO env arg opt conv differs var st)"
proof -
  from check_ok [OF st, of env cloP arg opt "opt_eq arg opt"] obtain st1 where
    c: "check_clom env st cloP arg opt (opt_eq arg opt) = Some (opt_eq arg opt \<and> cloP AND md \<noteq> 0, st1)" "clo_inv md st1" by blast
  show ?thesis
  proof (cases "opt_eq arg opt \<and> cloP AND md \<noteq> 0")
    case True
    have "clo_ok (\<lambda>_. False) (clo_bad_option env st1 arg f v)" if "prints_line f v" for f v
      by (rule clo_ok_mono [OF clo_bad_ok [OF c(2) that]]) (use True mode_fatal in auto)
    from this [OF option_lines(5)] c True show ?thesis
      by (auto simp: INT_CLO_def var_ok_def Let_def split: prod.splits intro: clo_ok_bind)
  qed (use c in \<open>auto simp: INT_CLO_def var_ok_def\<close>)
qed

lemma BOOL_ok:
  assumes st: "clo_inv md st"
  shows "clo_ok (var_ok md (\<lambda>_. True) var) (BOOL_CLO env arg opt var st)"
proof -
  from check_ok [OF st, of env cloP arg opt "opt_eq arg opt"] obtain ok st1 where
    c: "check_clom env st cloP arg opt (opt_eq arg opt) = Some (ok, st1)" "clo_inv md st1" by blast
  have "clo_ok (var_ok md (\<lambda>_. True) var) (clo_bind (clo_bad_option env st1 arg f v) (\<lambda>st. Some (Returned (False, var, st))))"
    if "prints_line f v" for f v
    using clo_bad_ok [OF c(2) that, of env arg] by (rule clo_ok_bind) (simp add: var_ok_def)
  from this [OF option_lines(7)] this [OF option_lines(8)] c show ?thesis
    by (simp add: BOOL_CLO_def bool_clom_def Let_def var_ok_def)
qed

lemma STR_ok:
  assumes st: "clo_inv md st"
  shows "clo_ok (var_ok md (\<lambda>_. True) var) (STR_CLO env arg opt var st)"
  using check_ok [OF st, of env cloP arg opt "opt_eq arg opt"] by (auto simp: STR_CLO_def var_ok_def)

lemma XACT_ok:
  assumes st: "clo_inv md st"
  shows "clo_ok (var_ok md (\<lambda>_. True) var) (XACT_CLO env arg opt v var st)"
  using check_ok [OF st, of env cloP arg opt "VG_STREQ arg opt"] by (auto simp: XACT_CLO_def var_ok_def)

text \<open>A chain keeps what each of its recognisers keeps.\<close>

definition keeps :: "Clo_Mode \<Rightarrow> ('s \<Rightarrow> bool) \<Rightarrow> ('s \<times> clo_state \<Rightarrow> (bool \<times> 's \<times> clo_state) clo_res option) \<Rightarrow> bool" where
  "keeps md I r \<longleftrightarrow> (\<forall>s st. I s \<longrightarrow> clo_inv md st \<longrightarrow> clo_ok (\<lambda>(_, s', st'). I s' \<and> clo_inv md st') (r (s, st)))"

lemma keeps_chain: "list_all (keeps md I) rs \<Longrightarrow> keeps md I (clo_chain rs)"
proof (induction rs)
  case Nil
  then show ?case by (simp add: keeps_def)
next
  case (Cons r rs)
  then have r: "keeps md I r" and rs: "keeps md I (clo_chain rs)" by simp_all
  have "clo_ok (\<lambda>(_, s', st'). I s' \<and> clo_inv md st') (clo_chain (r # rs) (s, st))" if "I s" "clo_inv md st" for s st
    using r [unfolded keeps_def, rule_format, OF that] rs
    by (simp only: clo_chain.simps) (erule clo_ok_bind, auto simp: keeps_def)
  then show ?case by (simp add: keeps_def)
qed

lemma keeps_var:
  assumes "\<And>v st. clo_inv md st \<Longrightarrow> clo_ok (var_ok md P v) (r v st)"
    "\<And>s v. I s \<Longrightarrow> P v \<Longrightarrow> I (put v s)" "\<And>s. put (get s) s = s"
  shows "keeps md I (clo_var get put r)"
  unfolding keeps_def clo_var_def fst_conv snd_conv
  using assms(2,3)
  by (auto simp: var_ok_def split: if_splits intro!: clo_ok_bind [OF assms(1)])

section \<open>Accepted and rejected values\<close>

lemma cloP_facts: "cloP AND cloP = cloP" "cloP \<noteq> 0" "cloD \<noteq> cloP" "cloH \<noteq> cloP" "cloP AND cloEP \<noteq> 0"
  by (simp_all add: cloP_def cloD_def cloH_def cloEP_def cloE_def)

text \<open>In the normal mode recognising an option only records that it was recognised.\<close>

lemma check_normal:
  assumes "clo_mode st = cloP"
  shows "check_clom env st cloP arg opt recognised = Some (recognised, if recognised then set_Clo_Recognised st else st)"
  using assms cloP_facts by (auto simp: check_clom_def Let_def set_Clo_Recognised_def)

lemma opt_eq_iff: "cstring arg \<Longrightarrow> cstring opt \<Longrightarrow> opt_eq arg opt \<longleftrightarrow> take (length opt + 1) arg = opt @ ''=''"
  by (simp add: opt_eq_def STREQN_iff cstring_def NUL_def)

lemma cstring_decimal: "cstring (decimal k)"
  using num_no_NUL [of 10 False "nat \<bar>k\<bar>"] by (auto simp: decimal_def cstring_def NUL_def)

lemma BINT_decimal:
  assumes "clo_mode st = cloP" "printing (clo_ps st) t" "cstring opt" "\<not> differs (conv (word_of_int k)) (word_of_int k)"
  shows "if lo \<le> valof (conv (word_of_int k)) \<and> valof (conv (word_of_int k)) \<le> hi
    then BINT_CLO env (opt @ ''='' @ decimal k) opt conv differs valof lo hi var st =
      Some (Returned (True, conv (word_of_int k), set_Clo_Recognised st))
    else (\<exists>ps. BINT_CLO env (opt @ ''='' @ decimal k) opt conv differs valof lo hi var st = Some (Exited ps))"
proof -
  let ?arg = "opt @ ''='' @ decimal k" and ?v = "conv (word_of_int k)"
  have "cstring ?arg" using assms(3) cstring_decimal by (simp add: NUL_def)
  then have eq: "opt_eq ?arg opt" using assms(3) by (simp add: opt_eq_iff)
  have val: "opt_val ?arg opt = decimal k" by (simp add: opt_val_def)
  have read: "vg_strtoll10 (decimal k) = (word_of_int k, [])"
    using strtoll10_decimal [of "[]" k] by (simp add: is_dec_digit_def schar_def NUL_def)
  have chk: "check_clom env st cloP ?arg opt (opt_eq ?arg opt) = Some (True, set_Clo_Recognised st)"
    using check_normal [OF assms(1), of env ?arg opt "opt_eq ?arg opt"] eq by simp
  have st: "clo_inv cloP (set_Clo_Recognised st)" using assms(1,2) by (auto simp: clo_inv_def set_Clo_Recognised_def)
  have run: "BINT_CLO env ?arg opt conv differs valof lo hi var st =
      (if valof ?v < lo \<or> valof ?v > hi then
         clo_bind (clo_bad_option env (set_Clo_Recognised st) ?arg bounds_format
             [VaStr (Some opt), VaLong (word_of_int lo), VaLong (word_of_int hi)])
           (\<lambda>st. Some (Returned (False, ?v, st)))
       else Some (Returned (True, ?v, set_Clo_Recognised st)))"
    unfolding BINT_CLO_def chk val read Let_def prod.case bind.bind_lunit using assms(4) by (simp add: cur_def)
  have "\<exists>ps. clo_bad_option env (set_Clo_Recognised st) ?arg bounds_format
       [VaStr (Some opt), VaLong (word_of_int lo), VaLong (word_of_int hi)] = Some (Exited ps)"
    using clo_bad_ok [OF st option_lines(6), of env ?arg opt "word_of_int lo" "word_of_int hi"] cloP_facts(5)
    by (auto simp: clo_ok_def split: option.splits clo_res.splits)
  then show ?thesis using run by (auto simp: clo_bind_def)
qed

text \<open>
  C19. What a bounded integer option does with the decimal notation of any integer \<open>k\<close>, of however
  many digits, in the normal processing mode. The text is read modulo \<^verbatim>\<open>2 ^ 64\<close>: a \<^verbatim>\<open>Long\<close> variable
  is assigned the signed and a \<^verbatim>\<open>SizeT\<close> variable the unsigned residue when that lies within the
  bounds, and the process ends with exit code 1 when it does not. So a \<open>k\<close> of 64 bits is accepted
  exactly when it lies within the bounds; a longer one is not diagnosed as an overflow and is
  accepted when its residue is in range.
\<close>

theorem bint_option_exact:
  assumes "clo_mode st = cloP" "printing (clo_ps st) t" "cstring opt"
  shows "let w = (word_of_int k :: 64 word); arg = opt @ ''='' @ decimal k in
    (if lo \<le> sint w \<and> sint w \<le> hi
     then BINT_Long env arg opt lo hi i st = Some (Returned (True, sint w, set_Clo_Recognised st))
     else (\<exists>ps. BINT_Long env arg opt lo hi i st = Some (Exited ps))) \<and>
    (if l \<le> unat w \<and> unat w \<le> h
     then BINT_SizeT env arg opt (int l) (int h) u st = Some (Returned (True, w, set_Clo_Recognised st))
     else (\<exists>ps. BINT_SizeT env arg opt (int l) (int h) u st = Some (Exited ps))) \<and>
    (k \<in> {- (2 ^ 63)..<2 ^ 63} \<longrightarrow> sint w = k) \<and> (k \<in> {0..<2 ^ 64} \<longrightarrow> int (unat w) = k)"
proof -
  let ?w = "word_of_int k :: 64 word" and ?arg = "opt @ ''='' @ decimal k"
  have "if lo \<le> sint ?w \<and> sint ?w \<le> hi
     then BINT_Long env ?arg opt lo hi i st = Some (Returned (True, sint ?w, set_Clo_Recognised st))
     else (\<exists>ps. BINT_Long env ?arg opt lo hi i st = Some (Exited ps))"
    unfolding BINT_Long_def by (rule BINT_decimal [OF assms]) simp
  moreover have "if l \<le> unat ?w \<and> unat ?w \<le> h
     then BINT_SizeT env ?arg opt (int l) (int h) u st = Some (Returned (True, ?w, set_Clo_Recognised st))
     else (\<exists>ps. BINT_SizeT env ?arg opt (int l) (int h) u st = Some (Exited ps))"
    using BINT_decimal [OF assms, of "\<lambda>v n. v \<noteq> n" "\<lambda>n. n" k "int l" uint "int h" env u]
    unfolding BINT_SizeT_def uint_nat of_nat_le_iff by simp
  moreover have "k \<in> {- (2 ^ 63)..<2 ^ 63} \<longrightarrow> sint ?w = k"
    by (simp add: signed_of_int signed_take_bit_int_eq_self)
  moreover have "k \<in> {0..<2 ^ 64} \<longrightarrow> int (unat ?w) = k"
    by (simp flip: uint_nat add: unsigned_of_int take_bit_int_eq_self)
  ultimately show ?thesis unfolding Let_def by blast
qed

text \<open>A state for examples: the normal mode, and standard error as the log.\<close>

definition sample_msg :: vmessage_buf_t where
  "sample_msg = \<lparr>vb_buf = [], vb_atLeft = True, vb_kind = Vg_UserMsg, vb_io = stderr_state\<rparr>"

definition sample_clo :: clo_state where
  "sample_clo = \<lparr>clo_mode = cloP, clo_recognised = False, clo_col = 0,
     clo_ps = \<lparr>ps_msg = sample_msg, ps_xml = stderr_state\<rparr>\<rparr>"

lemma sample_clo_ok: "clo_mode sample_clo = cloP" "printing (clo_ps sample_clo) []"
  by (simp_all add: sample_clo_def printing_def sample_msg_def stderr_on)

theorem bint_option_exact_witness:
  "\<exists>env :: clo_env. \<exists>ps. BINT_Long env ''--mx-mbits=60'' ''--mx-mbits'' 0 52 3 sample_clo = Some (Exited ps) \<and>
     BINT_Long env ''--mx-mbits=7'' ''--mx-mbits'' 0 52 3 sample_clo =
       Some (Returned (True, 7, set_Clo_Recognised sample_clo)) \<and>
     BINT_Long env ''--mx-mbits=18446744073709551619'' ''--mx-mbits'' 0 52 3 sample_clo =
       Some (Returned (True, 3, set_Clo_Recognised sample_clo)) \<and>
     BINT_SizeT env ''--mx-mbits=7'' ''--mx-mbits'' (int 1) (int 64) 4 sample_clo =
       Some (Returned (True, 7, set_Clo_Recognised sample_clo))"
proof -
  fix env :: clo_env
  have c: "cstring ''--mx-mbits''" by (simp add: cstring_def NUL_def)
  have p: "decimal 60 = ''60''" "decimal 7 = ''7''" "decimal 18446744073709551619 = ''18446744073709551619''"
    by (simp_all add: decimal_def num_def dlist_def rdigits.simps digit_chars_def)
  note b = bint_option_exact [OF sample_clo_ok c, where lo = 0 and hi = 52 and i = 3 and env = env
      and l = 1 and h = 64 and u = 4]
  from b [where k = 60] b [where k = 7] b [where k = 18446744073709551619]
  show ?thesis by (auto simp: p Let_def)
qed

end
