(* ===== verification/Ml_Options.thy ===== *)
theory Ml_Options
  imports Vg_Options Ml_Mx
begin

text \<open>
  The options of the tool (\<^verbatim>\<open>memlog/ml_main.c\<close>) and of the allocation wrappers
  (\<^verbatim>\<open>coregrind/m_replacemalloc/replacemalloc_core.c\<close>), which the tool passes the options on to that
  it does not know, and the list of allocation sites that is read from a file.
\<close>

section \<open>Options of the wrappers\<close>

datatype VgXTMemory = Vg_XTMemory_None | Vg_XTMemory_Allocs | Vg_XTMemory_Full

record rm_opts =
  clo_alignment :: "32 word"
  clo_xtree_memory :: VgXTMemory
  clo_xtree_memory_file :: "string option"
  clo_xtree_compress_strings :: bool
  clo_trace_malloc :: bool
  clo_realloc_zero_bytes_frees :: bool

record tool_opts =
  t_ml :: ml_opts
  t_rm :: rm_opts

definition VG_MIN_MALLOC_SZB :: nat where
  "VG_MIN_MALLOC_SZB = 16"

text \<open>\<open>Suc i\<close> iterations are left, from \<^verbatim>\<open>31 - i\<close>.\<close>

fun log2_loop :: "32 word \<Rightarrow> nat \<Rightarrow> int" where
  "log2_loop x 0 = -1"
| "log2_loop x (Suc i) = (if push_bit (31 - i) 1 = x then int (31 - i) else log2_loop x i)"

definition vg_log2 :: "32 word \<Rightarrow> int" where
  "vg_log2 x = log2_loop x 32"

definition alignment_format :: string where
  "alignment_format = ''Alignment must be a power of 2 in the range %d..4096.'' @ [NL]"

definition rm_alignment ::
  "clo_env \<Rightarrow> string \<Rightarrow> 32 word \<Rightarrow> clo_state \<Rightarrow> (bool \<times> 32 word \<times> clo_state) clo_res option" where
  "rm_alignment env arg var st =
     clo_bind (INT_CLO env arg ''--alignment'' (\<lambda>n. ucast n) (\<lambda>v n. uint v \<noteq> sint n) var st)
       (\<lambda>(res, v, st).
          if res \<and> (v < of_nat VG_MIN_MALLOC_SZB \<or> v > 4096 \<or> vg_log2 v = -1) then
            clo_bind (clo_bad_option env st arg alignment_format [VaInt (of_nat VG_MIN_MALLOC_SZB)])
              (\<lambda>st. Some (Returned (res, v, st)))
          else Some (Returned (res, v, st)))"

definition replacement_malloc_process_cmd_line_option ::
  "clo_env \<Rightarrow> string \<Rightarrow> rm_opts \<times> clo_state \<Rightarrow> (bool \<times> rm_opts \<times> clo_state) clo_res option" where
  "replacement_malloc_process_cmd_line_option env arg = clo_chain
    [clo_var clo_alignment (\<lambda>v o'. o'\<lparr>clo_alignment := v\<rparr>) (rm_alignment env arg),
     clo_var clo_xtree_memory (\<lambda>v o'. o'\<lparr>clo_xtree_memory := v\<rparr>)
       (XACT_CLO env arg ''--xtree-memory=none'' Vg_XTMemory_None),
     clo_var clo_xtree_memory (\<lambda>v o'. o'\<lparr>clo_xtree_memory := v\<rparr>)
       (XACT_CLO env arg ''--xtree-memory=allocs'' Vg_XTMemory_Allocs),
     clo_var clo_xtree_memory (\<lambda>v o'. o'\<lparr>clo_xtree_memory := v\<rparr>)
       (XACT_CLO env arg ''--xtree-memory=full'' Vg_XTMemory_Full),
     clo_var clo_xtree_memory_file (\<lambda>v o'. o'\<lparr>clo_xtree_memory_file := v\<rparr>) (STR_CLO env arg ''--xtree-memory-file''),
     clo_var clo_xtree_compress_strings (\<lambda>v o'. o'\<lparr>clo_xtree_compress_strings := v\<rparr>)
       (BOOL_CLO env arg ''--xtree-compress-strings''),
     clo_var clo_trace_malloc (\<lambda>v o'. o'\<lparr>clo_trace_malloc := v\<rparr>) (BOOL_CLO env arg ''--trace-malloc''),
     clo_var clo_realloc_zero_bytes_frees (\<lambda>v o'. o'\<lparr>clo_realloc_zero_bytes_frees := v\<rparr>)
       (BOOL_CLO env arg ''--realloc-zero-bytes-frees'')]"

section \<open>Options of the tool\<close>

definition ml_own_options ::
  "clo_env \<Rightarrow> string \<Rightarrow> ml_opts \<times> clo_state \<Rightarrow> (bool \<times> ml_opts \<times> clo_state) clo_res option" where
  "ml_own_options env arg = clo_chain
    [clo_var clo_min_block_size (\<lambda>v o'. o'\<lparr>clo_min_block_size := v\<rparr>)
       (BINT_SizeT env arg ''--min-block-size'' 1 (1024 * 1024 * 1024)),
     clo_var clo_mx_round (\<lambda>v o'. o'\<lparr>clo_mx_round := v\<rparr>) (BOOL_CLO env arg ''--mx-round''),
     clo_var clo_mx_mbits (\<lambda>v o'. o'\<lparr>clo_mx_mbits := v\<rparr>) (BINT_Long env arg ''--mx-mbits'' 0 52),
     clo_var clo_mx_emax (\<lambda>v o'. o'\<lparr>clo_mx_emax := v\<rparr>) (BINT_Long env arg ''--mx-emax'' 0 1023),
     clo_var clo_mx_emin (\<lambda>v o'. o'\<lparr>clo_mx_emin := v\<rparr>) (BINT_Long env arg ''--mx-emin'' (- 1022) 0),
     clo_var clo_mx_sites_file (\<lambda>v o'. o'\<lparr>clo_mx_sites_file := v\<rparr>) (STR_CLO env arg ''--mx-sites-file''),
     clo_var clo_mx_list_sites (\<lambda>v o'. o'\<lparr>clo_mx_list_sites := v\<rparr>) (BOOL_CLO env arg ''--mx-list-sites''),
     clo_var clo_mx_esz (\<lambda>v o'. o'\<lparr>clo_mx_esz := v\<rparr>) (BINT_Long env arg ''--mx-esz'' 4 8),
     clo_var clo_mx_scale_bits (\<lambda>v o'. o'\<lparr>clo_mx_scale_bits := v\<rparr>) (BINT_Long env arg ''--mx-scale-bits'' 1 16)]"

definition ml_process_cmd_line_option ::
  "clo_env \<Rightarrow> string \<Rightarrow> tool_opts \<Rightarrow> clo_state \<Rightarrow> (bool \<times> tool_opts \<times> clo_state) clo_res option" where
  "ml_process_cmd_line_option env arg t st =
     clo_bind (ml_own_options env arg (t_ml t, st))
       (\<lambda>(res, m, st).
          let t = t\<lparr>t_ml := m\<rparr> in
          if res then Some (Returned (True, t, st))
          else clo_bind (replacement_malloc_process_cmd_line_option env arg (t_rm t, st))
                 (\<lambda>(res, r, st). Some (Returned (res, t\<lparr>t_rm := r\<rparr>, st))))"

text \<open>The usage messages.\<close>

definition usage_text :: string where
  "usage_text =
     ''    --min-block-size=<bytes>  minimum block size to track [%lu]'' @ [NL] @
     ''    --mx-round=no|yes         re-encode stores to selected blocks as MX blocks of doubles [no]'' @ [NL] @
     ''    --mx-mbits=<0..52>        element mantissa bits kept [3, as E4M3; saturates at 448 * 2^scale]'' @ [NL] @
     ''    --mx-emax=<n> --mx-emin=<n>  element exponent range relative to the block scale [8, -6]'' @ [NL] @
     ''    --mx-sites-file=<path>    allocating functions (names or 0x statement addresses) to round [all blocks]'' @ [NL] @
     ''    --mx-list-sites=no|yes    print the allocating statement of every tracked block [no]'' @ [NL] @
     ''    --mx-esz=4|8              element size: float or double [8]'' @ [NL] @
     ''    --mx-scale-bits=<1..16>   shared scale exponent bits, as E8M0 [8]'' @ [NL]"

definition ml_print_usage :: "print_env \<Rightarrow> vgp_state \<Rightarrow> vgp_state option" where
  "ml_print_usage pe ps = pe_printf pe ps usage_text [VaLong PAGE_SIZE]"

definition ml_print_debug_usage :: "print_env \<Rightarrow> vgp_state \<Rightarrow> vgp_state option" where
  "ml_print_debug_usage pe ps = pe_printf pe ps (''    (none)'' @ [NL]) []"

section \<open>The ranges of the options\<close>

definition opts_in_range :: "ml_opts \<Rightarrow> bool" where
  "opts_in_range opts \<longleftrightarrow> mx_opts_ok opts \<and> 1 \<le> unat (clo_min_block_size opts) \<and>
     unat (clo_min_block_size opts) \<le> 2 ^ 30 \<and> 4 \<le> clo_mx_esz opts \<and> clo_mx_esz opts \<le> 8"

lemma in_range_upd:
  "opts_in_range s \<Longrightarrow> opts_in_range (s\<lparr>clo_mx_round := b\<rparr>)"
  "opts_in_range s \<Longrightarrow> opts_in_range (s\<lparr>clo_mx_sites_file := f\<rparr>)"
  "opts_in_range s \<Longrightarrow> opts_in_range (s\<lparr>clo_mx_list_sites := b\<rparr>)"
  "opts_in_range s \<Longrightarrow> 0 \<le> v \<Longrightarrow> v \<le> 52 \<Longrightarrow> opts_in_range (s\<lparr>clo_mx_mbits := v\<rparr>)"
  "opts_in_range s \<Longrightarrow> 0 \<le> v \<Longrightarrow> v \<le> 1023 \<Longrightarrow> opts_in_range (s\<lparr>clo_mx_emax := v\<rparr>)"
  "opts_in_range s \<Longrightarrow> - 1022 \<le> v \<Longrightarrow> v \<le> 0 \<Longrightarrow> opts_in_range (s\<lparr>clo_mx_emin := v\<rparr>)"
  "opts_in_range s \<Longrightarrow> 4 \<le> v \<Longrightarrow> v \<le> 8 \<Longrightarrow> opts_in_range (s\<lparr>clo_mx_esz := v\<rparr>)"
  "opts_in_range s \<Longrightarrow> 1 \<le> v \<Longrightarrow> v \<le> 16 \<Longrightarrow> opts_in_range (s\<lparr>clo_mx_scale_bits := v\<rparr>)"
  by (simp_all add: opts_in_range_def mx_opts_ok_def)

lemma in_range_min:
  assumes "opts_in_range s" "1 \<le> uint v" "uint v \<le> 1024 * 1024 * 1024"
  shows "opts_in_range (s\<lparr>clo_min_block_size := v\<rparr>)"
proof -
  have "int 1 \<le> int (unat v)" "int (unat v) \<le> int (2 ^ 30)" using assms(2,3) by simp_all
  then have "1 \<le> unat v" "unat v \<le> 2 ^ 30" by (simp_all only: of_nat_le_iff)
  with assms(1) show ?thesis by (simp add: opts_in_range_def mx_opts_ok_def)
qed

lemma keeps_own: "keeps md opts_in_range (ml_own_options env arg)"
proof -
  have b: "keeps md opts_in_range (clo_var g p (BOOL_CLO env arg opt))"
    if "\<And>s v. opts_in_range s \<Longrightarrow> opts_in_range (p v s)" "\<And>s. p (g s) s = s" for g p opt
    by (rule keeps_var [OF BOOL_ok]) (use that in auto)
  have s: "keeps md opts_in_range (clo_var g p (STR_CLO env arg opt))"
    if "\<And>s v. opts_in_range s \<Longrightarrow> opts_in_range (p v s)" "\<And>s. p (g s) s = s" for g p opt
    by (rule keeps_var [OF STR_ok]) (use that in auto)
  have i: "keeps md opts_in_range (clo_var g p (BINT_Long env arg opt lo hi))"
    if "\<And>s v. opts_in_range s \<Longrightarrow> lo \<le> v \<Longrightarrow> v \<le> hi \<Longrightarrow> opts_in_range (p v s)" "\<And>s. p (g s) s = s" for g p opt lo hi
    unfolding BINT_Long_def by (rule keeps_var [OF BINT_ok]) (use that in auto)
  have u: "keeps md opts_in_range (clo_var g p (BINT_SizeT env arg opt lo hi))"
    if "\<And>s v. opts_in_range s \<Longrightarrow> lo \<le> uint v \<Longrightarrow> uint v \<le> hi \<Longrightarrow> opts_in_range (p v s)" "\<And>s. p (g s) s = s" for g p opt lo hi
    unfolding BINT_SizeT_def by (rule keeps_var [OF BINT_ok]) (use that in auto)
  show ?thesis unfolding ml_own_options_def
    apply (rule keeps_chain)
    apply (simp only: list.pred_inject simp_thms)
    apply (intro conjI)
    apply (rule u, rule in_range_min, assumption+, simp)
    apply (rule b, rule in_range_upd, assumption+, simp)
    apply (rule i, rule in_range_upd, assumption+, simp)
    apply (rule i, rule in_range_upd, assumption+, simp)
    apply (rule i, rule in_range_upd, assumption+, simp)
    apply (rule s, rule in_range_upd, assumption+, simp)
    apply (rule b, rule in_range_upd, assumption+, simp)
    apply (rule i, rule in_range_upd, assumption+, simp)
    apply (rule i, rule in_range_upd, assumption+, simp)
    done
qed

lemma alignment_line: "prints_line alignment_format [VaInt x]"
  by (rule prints_lineI) (simp add: line_formats alignment_format_def Let_def)

lemma alignment_ok: "clo_inv md st \<Longrightarrow> clo_ok (var_ok md (\<lambda>_. True) var) (rm_alignment env arg var st)"
  unfolding rm_alignment_def
proof (rule clo_ok_bind [OF INT_ok], assumption, clarify)
  fix res v st'
  assume v: "var_ok md (\<lambda>_. True) var (res, v, st')"
  then have st: "clo_inv md st'" by (simp add: var_ok_def)
  have "clo_ok (var_ok md (\<lambda>_. True) var) (clo_bind (clo_bad_option env st' arg alignment_format [VaInt x])
      (\<lambda>st. Some (Returned (res, v, st))))" if res for x
    using clo_bad_ok [OF st alignment_line, of env arg] by (rule clo_ok_bind) (use that in \<open>simp add: var_ok_def\<close>)
  with v show "clo_ok (var_ok md (\<lambda>_. True) var)
      (if res \<and> (v < of_nat VG_MIN_MALLOC_SZB \<or> v > 4096 \<or> vg_log2 v = -1) then
         clo_bind (clo_bad_option env st' arg alignment_format [VaInt (of_nat VG_MIN_MALLOC_SZB)])
           (\<lambda>st. Some (Returned (res, v, st)))
       else Some (Returned (res, v, st')))" by simp
qed

lemma keeps_rm: "keeps md (\<lambda>_. True) (replacement_malloc_process_cmd_line_option env arg)"
  unfolding replacement_malloc_process_cmd_line_option_def
  by (intro keeps_chain)
    (auto intro!: keeps_var [OF alignment_ok] keeps_var [OF BOOL_ok] keeps_var [OF STR_ok] keeps_var [OF XACT_ok])

lemma process_ok:
  assumes "opts_in_range (t_ml t)" "clo_inv md st"
  shows "clo_ok (\<lambda>(_, t', st'). opts_in_range (t_ml t') \<and> clo_inv md st') (ml_process_cmd_line_option env arg t st)"
  unfolding ml_process_cmd_line_option_def
proof (rule clo_ok_bind [OF keeps_own [unfolded keeps_def, rule_format, OF assms]], clarify)
  fix res m st'
  assume m: "opts_in_range m" "clo_inv md st'"
  have "clo_ok (\<lambda>(_, t', st'). opts_in_range (t_ml t') \<and> clo_inv md st')
      (clo_bind (replacement_malloc_process_cmd_line_option env arg (t_rm t, st'))
        (\<lambda>(res, r, st). Some (Returned (res, t\<lparr>t_ml := m, t_rm := r\<rparr>, st))))"
    by (rule clo_ok_bind [OF keeps_rm [unfolded keeps_def, rule_format, OF TrueI m(2)]]) (use m(1) in auto)
  with m show "clo_ok (\<lambda>(_, t', st'). opts_in_range (t_ml t') \<and> clo_inv md st')
      (let t = t\<lparr>t_ml := m\<rparr> in if res then Some (Returned (True, t, st'))
       else clo_bind (replacement_malloc_process_cmd_line_option env arg (t_rm t, st'))
              (\<lambda>(res, r, st). Some (Returned (res, t\<lparr>t_rm := r\<rparr>, st))))"
    by (simp add: Let_def)
qed

text \<open>Processing a list of arguments one after the other.\<close>

fun process_all ::
  "clo_env \<Rightarrow> string list \<Rightarrow> tool_opts \<Rightarrow> clo_state \<Rightarrow> (tool_opts \<times> clo_state) clo_res option" where
  "process_all env [] t st = Some (Returned (t, st))"
| "process_all env (arg # args) t st =
     clo_bind (ml_process_cmd_line_option env arg t st) (\<lambda>(res, t, st). process_all env args t st)"

lemma process_all_ok:
  "opts_in_range (t_ml t) \<Longrightarrow> clo_inv md st \<Longrightarrow>
   clo_ok (\<lambda>(t', st'). opts_in_range (t_ml t') \<and> clo_inv md st') (process_all env args t st)"
proof (induction args arbitrary: t st)
  case (Cons arg args)
  show ?case by (simp only: process_all.simps, rule clo_ok_bind [OF process_ok [OF Cons.prems]]) (use Cons.IH in auto)
qed simp

section \<open>Allocation sites\<close>

definition MX_MAX_SITES :: nat where
  "MX_MAX_SITES = 4096"

text \<open>
  The reading loop. \<open>chunks\<close> are the bytes that the calls of \<^verbatim>\<open>VG_(read)\<close> put into the buffer, up to the
  first call that returns nothing; a call is given room for \<^verbatim>\<open>cap - len\<close> bytes. The count that
  \<^verbatim>\<open>VG_(read)\<close> takes is an \<^verbatim>\<open>Int\<close>: the model has no result when the conversion gives a negative one.
\<close>

definition read_count :: "nat \<Rightarrow> nat \<Rightarrow> int" where
  "read_count cap len = sint (word_of_nat (cap - len) :: 32 word)"

fun read_loop :: "nat \<Rightarrow> string \<Rightarrow> string list \<Rightarrow> (nat \<times> string) option" where
  "read_loop cap buf [] = (if read_count cap (length buf) < 0 then None else Some (cap, buf))"
| "read_loop cap buf (c # cs) =
     (if read_count cap (length buf) < 0 then None
      else if c = [] then Some (cap, buf)
      else if int (length c) \<le> read_count cap (length buf) then
        let buf = buf @ c;
            cap = (if length buf = cap then cap * 2 else cap)
        in read_loop cap buf cs
      else None)"

text \<open>The loop over the tokens.\<close>

fun sites_loop :: "string list \<Rightarrow> string list \<Rightarrow> string list" where
  "sites_loop [] sites = sites"
| "sites_loop (tok # toks) sites =
     (if length sites < MX_MAX_SITES
      then sites_loop toks (if cur tok \<noteq> CHR ''#'' \<and> cur tok \<noteq> NUL then sites @ [tok] else sites)
      else sites)"

text \<open>
  \<open>file\<close> is what opening the file gives: an error, or the chunks read from it. The buffer has
  \<^verbatim>\<open>cap + 1\<close> bytes, so the terminator needs \<^verbatim>\<open>len <= cap\<close>.
\<close>

definition sites_error :: string where
  "sites_error = ''memlog: cannot open --mx-sites-file=%s'' @ [NL]"

definition mx_load_sites ::
  "print_env \<Rightarrow> (string \<Rightarrow> string list option) \<Rightarrow> ml_opts \<Rightarrow> string list \<Rightarrow> vgp_state \<Rightarrow>
   (string list \<times> vgp_state) clo_res option" where
  "mx_load_sites pe file opts sites ps =
     (case clo_mx_sites_file opts of
        None \<Rightarrow> Some (Returned (sites, ps))
      | Some path \<Rightarrow>
          (case file path of
             None \<Rightarrow> do {
               (ps, _) \<leftarrow> vg_fmsg (pe_ws pe) (pe_xml pe) (pe_msg pe) ps sites_error [VaStr (Some path)];
               Some (Exited ps)
             }
           | Some chunks \<Rightarrow> do {
               (cap, buf) \<leftarrow> read_loop (2 ^ 16) [] chunks;
               if length buf \<le> cap then
                 Some (Returned (sites_loop (strtok_all [CHR 0x0D, NL] (takeWhile (\<lambda>c. c \<noteq> NUL) buf)) sites, ps))
               else None
             }))"

definition is_allocator_frame :: "string \<Rightarrow> bool" where
  "is_allocator_frame fn \<longleftrightarrow>
     vg_strstr (Some fn) ''malloc'' \<noteq> None \<or> vg_strstr (Some fn) ''calloc'' \<noteq> None \<or>
     vg_strstr (Some fn) ''realloc'' \<noteq> None \<or> vg_strstr (Some fn) ''memalign'' \<noteq> None \<or>
     vg_strstr (Some fn) ''operator new'' \<noteq> None \<or> vg_strstr (Some fn) ''_gfortran'' \<noteq> None"

fun site_match :: "string \<Rightarrow> string \<Rightarrow> string list \<Rightarrow> bool" where
  "site_match fn addr [] = False"
| "site_match fn addr (s # ss) =
     (if vg_strcmp fn s = 0 \<or> vg_strcmp addr s = 0 then True else site_match fn addr ss)"

text \<open>\<open>fnname\<close> is the answer of \<^verbatim>\<open>VG_(get_fnname)\<close>; \<^verbatim>\<open>addr\<close> has 32 bytes.\<close>

definition site_format :: string where
  "site_format = ''MXSITE %s %s %lu'' @ [NL]"

fun site_loop ::
  "print_env \<Rightarrow> (Addr \<Rightarrow> string option) \<Rightarrow> ml_opts \<Rightarrow> string list \<Rightarrow> SizeT \<Rightarrow> Addr list \<Rightarrow> vgp_state \<Rightarrow>
   (bool \<times> vgp_state) option" where
  "site_loop pe fnname opts sites szB [] ps = Some (False, ps)"
| "site_loop pe fnname opts sites szB (ip # is) ps =
     (case fnname ip of
        None \<Rightarrow> site_loop pe fnname opts sites szB is ps
      | Some fn \<Rightarrow>
          if is_allocator_frame fn then site_loop pe fnname opts sites szB is ps
          else do {
            (addr, _) \<leftarrow> vg_vsprintf (pe_xml pe) ''0x%lX'' [VaLong ip];
            if length addr \<ge> 32 then None
            else do {
              ps \<leftarrow> (if clo_mx_list_sites opts
                     then pe_umsg pe ps site_format [VaStr (Some addr), VaStr (Some fn), VaLong szB]
                     else Some ps);
              if sites = [] then Some (True, ps) else Some (site_match fn addr sites, ps)
            }
          })"

definition mx_site_selected ::
  "print_env \<Rightarrow> (Addr \<Rightarrow> string option) \<Rightarrow> unwinder \<Rightarrow> ml_opts \<Rightarrow> string list \<Rightarrow> SizeT \<Rightarrow> vgp_state \<Rightarrow>
   (bool \<times> vgp_state) option" where
  "mx_site_selected pe fnname u opts sites szB ps =
     (if sites = [] \<and> \<not> clo_mx_list_sites opts then Some (True, ps)
      else site_loop pe fnname opts sites szB (get_StackTrace u 16 0) ps)"

text \<open>What \<^verbatim>\<open>VG_(read)\<close> promises: no call delivers more than the room it is given.\<close>

fun reads_fit :: "nat \<Rightarrow> nat \<Rightarrow> string list \<Rightarrow> bool" where
  "reads_fit cap len [] = True"
| "reads_fit cap len (c # cs) \<longleftrightarrow> c \<noteq> [] \<and> len + length c \<le> cap \<and>
     reads_fit (if len + length c = cap then cap * 2 else cap) (len + length c) cs"

lemma read_loop_ok:
  "length buf < cap \<Longrightarrow> cap \<le> 2 ^ 16 \<or> cap \<le> 2 * length buf \<Longrightarrow> reads_fit cap (length buf) cs \<Longrightarrow>
   length (buf @ concat cs) < 2 ^ 31 \<Longrightarrow>
   \<exists>cap'. read_loop cap buf cs = Some (cap', buf @ concat cs) \<and> length (buf @ concat cs) < cap'"
proof (induction cs arbitrary: cap buf)
  case Nil
  then have "cap - length buf < 2 ^ 31" by auto
  then have "read_count cap (length buf) = int (cap - length buf)" by (simp add: read_count_def sint_of_nat_small)
  with Nil show ?case by simp
next
  case (Cons c cs)
  let ?b = "buf @ c" let ?c = "if length ?b = cap then cap * 2 else cap"
  have c: "c \<noteq> []" "length buf + length c \<le> cap" using Cons.prems(3) by simp_all
  have "cap - length buf < 2 ^ 31" using Cons.prems(2,4) by auto
  then have n: "read_count cap (length buf) = int (cap - length buf)" by (simp add: read_count_def sint_of_nat_small)
  have "int (length c) \<le> int (cap - length buf)" using c(2) by simp
  with c(1) have eq: "read_loop cap buf (c # cs) = read_loop ?c ?b cs" by (simp add: Let_def n)
  have b: "length ?b < ?c" "?c \<le> 2 ^ 16 \<or> ?c \<le> 2 * length ?b" using c Cons.prems(1,2) by auto
  have f: "reads_fit ?c (length ?b) cs" using Cons.prems(3) by simp
  from Cons.IH [OF b f] Cons.prems(4) show ?case unfolding eq by simp
qed

lemma sites_loop_take:
  "length sites \<le> MX_MAX_SITES \<Longrightarrow> sites_loop toks sites =
     take MX_MAX_SITES (sites @ filter (\<lambda>t. cur t \<noteq> CHR ''#'' \<and> cur t \<noteq> NUL) toks)"
proof (induction toks arbitrary: sites)
  case (Cons tok toks)
  show ?case
  proof (cases "length sites < MX_MAX_SITES")
    case True
    then have "MX_MAX_SITES - length sites = Suc (MX_MAX_SITES - Suc (length sites))" by simp
    with True Cons.IH show ?thesis by simp
  qed (use Cons.prems in simp)
qed simp

text \<open>
  C20. Whatever bytes the file of sites holds, and however \<^verbatim>\<open>read\<close> splits them into chunks that fit,
  the buffer is not overrun when the file is shorter than 2 gigabytes, and the sites are these: the
  file up to its first NUL byte, cut at every carriage return and every newline, without the empty
  pieces and the pieces that start with a hash sign, the first 4096 of them in the order of the file.
\<close>

theorem mx_load_sites_correct:
  assumes "clo_mx_sites_file opts = Some path" "file path = Some chunks" "reads_fit (2 ^ 16) 0 chunks"
    "length (concat chunks) < 2 ^ 31"
  shows "mx_load_sites pe file opts [] ps = Some (Returned (take MX_MAX_SITES
     (filter (\<lambda>l. l \<noteq> [] \<and> hd l \<noteq> CHR ''#'')
       (split_at [CHR 0x0D, NL] (takeWhile (\<lambda>c. c \<noteq> NUL) (concat chunks)))), ps))"
proof -
  let ?t = "takeWhile (\<lambda>c. c \<noteq> NUL) (concat chunks)"
  obtain cap where r: "read_loop (2 ^ 16) [] chunks = Some (cap, concat chunks)" "length (concat chunks) < cap"
    using read_loop_ok [of "[]" "2 ^ 16" chunks] assms(3,4) by auto
  have t: "cstring ?t" by (auto simp: cstring_def dest: set_takeWhileD)
  have ls: "NUL \<notin> set l" if "l \<in> set (split_at [CHR 0x0D, NL] ?t)" for l
    using split_at_set [OF that] t by (auto simp: cstring_def)
  have "filter (\<lambda>t. cur t \<noteq> CHR ''#'' \<and> cur t \<noteq> NUL) (strtok_all [CHR 0x0D, NL] ?t) =
      filter (\<lambda>l. l \<noteq> [] \<and> hd l \<noteq> CHR ''#'') (split_at [CHR 0x0D, NL] ?t)"
    unfolding strtok_all_split [OF t] filter_filter
  proof (rule filter_cong [OF refl])
    fix l
    assume "l \<in> set (split_at [CHR 0x0D, NL] ?t)"
    from ls [OF this] show "(l \<noteq> [] \<and> cur l \<noteq> CHR ''#'' \<and> cur l \<noteq> NUL) = (l \<noteq> [] \<and> hd l \<noteq> CHR ''#'')"
      by (cases l) (auto simp: cur_def)
  qed
  then have "sites_loop (strtok_all [CHR 0x0D, NL] ?t) [] =
      take MX_MAX_SITES (filter (\<lambda>l. l \<noteq> [] \<and> hd l \<noteq> CHR ''#'') (split_at [CHR 0x0D, NL] ?t))"
    by (simp add: sites_loop_take)
  with r assms(1,2) show ?thesis by (simp add: mx_load_sites_def)
qed

theorem mx_load_sites_correct_witness:
  "\<exists>pe :: print_env. \<exists>ps. mx_load_sites pe [''f'' \<mapsto> [''main'' @ [CHR 0x0D, NL] @ ''#'', ''x'' @ [NL, NL] @ ''0x4A'']]
     (ml_default_opts\<lparr>clo_mx_sites_file := Some ''f''\<rparr>) [] ps = Some (Returned ([''main'', ''0x4A''], ps))"
proof -
  fix pe :: print_env and ps
  show ?thesis
    using mx_load_sites_correct [of "ml_default_opts\<lparr>clo_mx_sites_file := Some ''f''\<rparr>" "''f''"
        "[''f'' \<mapsto> [''main'' @ [CHR 0x0D, NL] @ ''#'', ''x'' @ [NL, NL] @ ''0x4A'']]"
        "[''main'' @ [CHR 0x0D, NL] @ ''#'', ''x'' @ [NL, NL] @ ''0x4A'']" pe ps]
    by (auto simp: NUL_def MX_MAX_SITES_def)
qed

text \<open>
  C18. Whatever the command line is, processing it does not fault, and either ends the process
  or leaves the options of the tool in the ranges that the encoding and the tracking rely on. The
  options of the allocation wrappers are processed on the way and not constrained.
\<close>

theorem options_in_range:
  assumes "printing (clo_ps st) t"
  shows "\<exists>r. process_all env args \<lparr>t_ml = ml_default_opts, t_rm = rm\<rparr> st = Some r \<and>
     (case r of Exited ps \<Rightarrow> True | Returned (t', st') \<Rightarrow> opts_in_range (t_ml t'))"
proof -
  have "opts_in_range ml_default_opts" by (simp add: opts_in_range_def mx_opts_ok_def ml_default_opts_def PAGE_SIZE_def)
  then have "clo_ok (\<lambda>(t', st'). opts_in_range (t_ml t') \<and> clo_inv (clo_mode st) st')
      (process_all env args \<lparr>t_ml = ml_default_opts, t_rm = rm\<rparr> st)"
    using assms by (intro process_all_ok) (auto simp: clo_inv_def)
  then show ?thesis by (auto simp: clo_ok_def split: option.splits clo_res.splits)
qed

theorem options_in_range_witness:
  "\<exists>env rm. \<exists>r. process_all env [''--mx-round=yes'', ''--mx-mbits=99''] \<lparr>t_ml = ml_default_opts, t_rm = rm\<rparr> sample_clo =
     Some r \<and> (case r of Exited ps \<Rightarrow> True | Returned (t', st') \<Rightarrow> opts_in_range (t_ml t'))"
  using options_in_range [OF sample_clo_ok(2)] by blast

end
