(* ===== verification/Ml_Tool.thy ===== *)
theory Ml_Tool
  imports Ml_Options
begin

text \<open>
  The tool: allocation wrappers, client requests, the store callback, start and end of
  \<^verbatim>\<open>memlog/ml_main.c\<close>, on one state record. What the rest of Valgrind answers during a call is in
  a record \<open>answers\<close>: the stack trace, the client allocator's result and its effect on the
  client's memory, and the addresses of the blocks of Valgrind's own memory. The specification
  is a sorted list of tracked ranges and a list of events.
\<close>

section \<open>State\<close>

record tool_env =
  te_pe :: print_env
  te_fnname :: "Addr \<Rightarrow> string option"
  te_files :: "string \<Rightarrow> string list option"

record tool_state =
  ts_opts :: tool_opts
  ts_blocks :: block_state
  ts_log :: log_state
  ts_stats :: mx_stats
  ts_sites :: "string list"
  ts_ec :: ec_state
  ts_ps :: vgp_state
  ts_mem :: mem

record answers =
  an_unw :: unwinder
  an_ptr :: "SizeT \<Rightarrow> SizeT \<Rightarrow> Addr"
  an_grow :: "SizeT \<Rightarrow> SizeT \<Rightarrow> mem \<Rightarrow> mem"
  an_free :: "Addr \<Rightarrow> mem \<Rightarrow> mem"
  an_usable :: "Addr \<Rightarrow> SizeT"
  an_bk :: nat
  an_node :: nat
  an_ec0 :: nat
  an_ec :: nat

definition ML_MALLOC_ALIGNMENT :: SizeT where
  "ML_MALLOC_ALIGNMENT = 32"

definition tool_record :: "answers \<Rightarrow> tool_state \<Rightarrow> (tool_state \<times> nat) option" where
  "tool_record an st = do {
     (ec, e) \<leftarrow> record_ExeContext (an_unw an) (ts_ec st) (an_ec0 an) (an_ec an) 0;
     Some (st\<lparr>ts_ec := ec\<rparr>, e)
   }"

definition tool_log ::
  "tool_env \<Rightarrow> tool_state \<Rightarrow> LogEventType \<Rightarrow> Addr \<Rightarrow> HWord \<Rightarrow> SizeT \<Rightarrow> ptr \<Rightarrow> tool_state option" where
  "tool_log te st ty addr v sz whr = do {
     (lg, ps) \<leftarrow> add_to_buffer (te_pe te) (ecs (ts_ec st)) (ts_log st) (ts_ps st) ty addr v sz whr;
     Some (st\<lparr>ts_log := lg, ts_ps := ps\<rparr>)
   }"

section \<open>Stores\<close>

definition log_store :: "tool_env \<Rightarrow> tool_state \<Rightarrow> Addr \<Rightarrow> HWord \<Rightarrow> tool_state option" where
  "log_store te st addr v = do {
     tr \<leftarrow> is_tracked (ts_blocks st) addr;
     if tr then tool_log te st LOG_STORE addr v 0 None else Some st
   }"

definition tool_mx_after_store :: "tool_state \<Rightarrow> Addr \<Rightarrow> HWord \<Rightarrow> tool_state option" where
  "tool_mx_after_store st addr sz = do {
     (m, s) \<leftarrow> mx_after_store (t_ml (ts_opts st)) (ts_blocks st) (ts_mem st) (ts_stats st) addr sz;
     Some (st\<lparr>ts_mem := m, ts_stats := s\<rparr>)
   }"

section \<open>Blocks\<close>

text \<open>
  A new \<^verbatim>\<open>Block\<close> is filled, inserted and logged; \<open>sel\<close> computes its field \<^verbatim>\<open>mx\<close>, the last one to be
  filled. The address from \<^verbatim>\<open>VG_(malloc)\<close> must be free.
\<close>

definition track_block ::
  "tool_env \<Rightarrow> answers \<Rightarrow> tool_state \<Rightarrow> Addr \<Rightarrow> SizeT \<Rightarrow> (vgp_state \<Rightarrow> (bool \<times> vgp_state) option) \<Rightarrow> tool_state option" where
  "track_block te an st addr szB sel =
     (if blks (ts_blocks st) (an_bk an) \<noteq> None then None
      else do {
        (st, e) \<leftarrow> tool_record an st;
        (m, ps) \<leftarrow> sel (ts_ps st);
        let st = st\<lparr>ts_ps := ps\<rparr>;
        let bk = \<lparr>payload = addr, req_szB = szB, alloc_ec = Some e, mx = m\<rparr>;
        let bs = (ts_blocks st)\<lparr>blks := (blks (ts_blocks st))(an_bk an \<mapsto> bk)\<rparr>;
        let st = (if m then st\<lparr>ts_stats := (ts_stats st)\<lparr>mx_blocks_marked := mx_blocks_marked (ts_stats st) + 1,
                    mx_bytes_marked := mx_bytes_marked (ts_stats st) + szB\<rparr>\<rparr> else st);
        bs \<leftarrow> insert_block_rb bs (an_bk an) (an_node an);
        tool_log te (st\<lparr>ts_blocks := bs\<rparr>) LOG_ALLOC addr 0 szB (Some e)
      })"

definition untrack_block :: "tool_env \<Rightarrow> answers \<Rightarrow> tool_state \<Rightarrow> Addr \<Rightarrow> nat \<Rightarrow> tool_state option" where
  "untrack_block te an st addr b = do {
     (st, e) \<leftarrow> tool_record an st;
     bk \<leftarrow> blks (ts_blocks st) b;
     st \<leftarrow> tool_log te st LOG_FREE addr 0 (req_szB bk) (Some e);
     bs \<leftarrow> remove_block (ts_blocks st) b;
     Some (st\<lparr>ts_blocks := bs\<rparr>)
   }"

definition new_block ::
  "tool_env \<Rightarrow> answers \<Rightarrow> tool_state \<Rightarrow> SizeT \<Rightarrow> SizeT \<Rightarrow> bool \<Rightarrow> (tool_state \<times> Addr) option" where
  "new_block te an st szB alignB is_zeroed =
     (if sint szB < 0 then Some (st, 0)
      else
        let szB = (if szB = 0 then 1 else szB);
            p = an_ptr an alignB szB in
        if p = 0 then Some (st, 0)
        else do {
          let m = an_grow an alignB szB (ts_mem st);
          m \<leftarrow> (if is_zeroed then vg_memset m p 0 szB else Some m);
          let st = st\<lparr>ts_mem := m\<rparr>;
          let opts = t_ml (ts_opts st);
          if szB \<ge> clo_min_block_size opts then do {
            st \<leftarrow> track_block te an st p szB
              (\<lambda>ps. if clo_mx_round opts
                    then mx_site_selected (te_pe te) (te_fnname te) (an_unw an) opts (ts_sites st) szB ps
                    else Some (False, ps));
            Some (st, p)
          } else Some (st, p)
        })"

definition die_block :: "tool_env \<Rightarrow> answers \<Rightarrow> tool_state \<Rightarrow> Addr \<Rightarrow> tool_state option" where
  "die_block te an st p =
     (if p = 0 then Some st
      else do {
        bp \<leftarrow> find_block_containing (ts_blocks st) p;
        st \<leftarrow> (case bp of
                 None \<Rightarrow> Some st
               | Some b \<Rightarrow> do {
                   bk \<leftarrow> blks (ts_blocks st) b;
                   if payload bk = p then untrack_block te an st p b else Some st
                 });
        Some (st\<lparr>ts_mem := an_free an p (ts_mem st)\<rparr>)
      })"

section \<open>Wrappers\<close>

definition ml_malloc where
  "ml_malloc te an st szB = new_block te an st szB ML_MALLOC_ALIGNMENT False"

definition ml_builtin_new where
  "ml_builtin_new te an st szB = new_block te an st szB ML_MALLOC_ALIGNMENT False"

definition ml_builtin_new_aligned where
  "ml_builtin_new_aligned te an st szB alignB orig_alignB = new_block te an st szB alignB False"

definition ml_builtin_vec_new where
  "ml_builtin_vec_new te an st szB = new_block te an st szB ML_MALLOC_ALIGNMENT False"

definition ml_builtin_vec_new_aligned where
  "ml_builtin_vec_new_aligned te an st szB alignB orig_alignB = new_block te an st szB alignB False"

definition ml_memalign where
  "ml_memalign te an st alignB orig_alignB szB = new_block te an st szB alignB False"

definition ml_calloc where
  "ml_calloc te an st nmemb size1 = new_block te an st (nmemb * size1) ML_MALLOC_ALIGNMENT True"

definition ml_free where
  "ml_free te an st p = die_block te an st p"

definition ml_builtin_delete where
  "ml_builtin_delete te an st p = die_block te an st p"

definition ml_builtin_delete_aligned where
  "ml_builtin_delete_aligned te an st p alignB = die_block te an st p"

definition ml_builtin_vec_delete where
  "ml_builtin_vec_delete te an st p = die_block te an st p"

definition ml_builtin_vec_delete_aligned where
  "ml_builtin_vec_delete_aligned te an st p alignB = die_block te an st p"

text \<open>\<^verbatim>\<open>old_bk ? old_bk->req_szB : VG_(cli_malloc_usable_size)(p_old)\<close>\<close>

definition realloc_old_size :: "answers \<Rightarrow> tool_state \<Rightarrow> Addr \<Rightarrow> SizeT option" where
  "realloc_old_size an st p_old = do {
     bp \<leftarrow> find_block_containing (ts_blocks st) p_old;
     case bp of
       Some b \<Rightarrow> map_option req_szB (blks (ts_blocks st) b)
     | None \<Rightarrow> Some (an_usable an p_old)
   }"

text \<open>The calls of \<^verbatim>\<open>ml_malloc\<close> and \<^verbatim>\<open>ml_free\<close> have their own answers.\<close>

definition ml_realloc ::
  "tool_env \<Rightarrow> answers \<Rightarrow> answers \<Rightarrow> tool_state \<Rightarrow> Addr \<Rightarrow> SizeT \<Rightarrow> (tool_state \<times> Addr) option" where
  "ml_realloc te an an' st p_old new_szB =
     (if p_old = 0 then ml_malloc te an st new_szB
      else if new_szB = 0 \<and> clo_realloc_zero_bytes_frees (t_rm (ts_opts st))
        then do { st \<leftarrow> ml_free te an st p_old; Some (st, 0) }
      else do {
        let new_szB = (if new_szB = 0 then 1 else new_szB);
        old_szB \<leftarrow> realloc_old_size an st p_old;
        (st, p_new) \<leftarrow> ml_malloc te an st new_szB;
        if p_new = 0 then Some (st, 0)
        else do {
          m \<leftarrow> vg_memmove (ts_mem st) p_new p_old (min old_szB new_szB);
          st \<leftarrow> ml_free te an' (st\<lparr>ts_mem := m\<rparr>) p_old;
          Some (st, p_new)
        }
      })"

definition ml_malloc_usable_size :: "answers \<Rightarrow> tool_state \<Rightarrow> Addr \<Rightarrow> SizeT option" where
  "ml_malloc_usable_size an st p = do {
     bp \<leftarrow> find_block_containing (ts_blocks st) p;
     case bp of
       None \<Rightarrow> Some (an_usable an p)
     | Some b \<Rightarrow> do {
         bk \<leftarrow> blks (ts_blocks st) b;
         Some (if payload bk = p then req_szB bk else an_usable an p)
       }
   }"

section \<open>Client requests\<close>

definition USERREQ_TRACK_BLOCK :: "64 word" where
  "USERREQ_TRACK_BLOCK = 0x4D4C0000"

definition USERREQ_UNTRACK_BLOCK :: "64 word" where
  "USERREQ_UNTRACK_BLOCK = 0x4D4C0001"

text \<open>The result is the state, \<^verbatim>\<open>*ret\<close> when it is assigned, and whether the request was handled.\<close>

definition ml_handle_client_request ::
  "tool_env \<Rightarrow> answers \<Rightarrow> tool_state \<Rightarrow> (nat \<Rightarrow> 64 word) \<Rightarrow> (tool_state \<times> 64 word option \<times> bool) option" where
  "ml_handle_client_request te an st arg =
     (if arg 0 = USERREQ_TRACK_BLOCK then do {
        let addr = arg 1;
        let sz = arg 2;
        st \<leftarrow> (if sz > 0 then track_block te an st addr sz (\<lambda>ps. Some (False, ps)) else Some st);
        Some (st, Some 0, True)
      }
      else if arg 0 = USERREQ_UNTRACK_BLOCK then do {
        let addr = arg 1;
        bp \<leftarrow> find_block_containing (ts_blocks st) addr;
        st \<leftarrow> (case bp of
                 None \<Rightarrow> Some st
               | Some b \<Rightarrow> do {
                   bk \<leftarrow> blks (ts_blocks st) b;
                   if payload bk = addr then untrack_block te an st addr b else Some st
                 });
        Some (st, Some 0, True)
      }
      else Some (st, None, False))"

section \<open>Start and end\<close>

definition ml_initial :: "tool_opts \<Rightarrow> vgp_state \<Rightarrow> mem \<Rightarrow> tool_state" where
  "ml_initial opts ps m = \<lparr>ts_opts = opts, ts_blocks = no_blocks, ts_log = log_initial, ts_stats = mx_no_stats,
     ts_sites = [], ts_ec = ec_initial, ts_ps = ps, ts_mem = m\<rparr>"

definition ml_post_clo_init :: "tool_env \<Rightarrow> tool_state \<Rightarrow> tool_state clo_res option" where
  "ml_post_clo_init te st =
     (if clo_mx_round (t_ml (ts_opts st)) then
        clo_bind (mx_load_sites (te_pe te) (te_files te) (t_ml (ts_opts st)) (ts_sites st) (ts_ps st))
          (\<lambda>(sites, ps). Some (Returned (st\<lparr>ts_sites := sites, ts_ps := ps\<rparr>)))
      else Some (Returned st))"

definition fini_format :: "string list" where
  "fini_format =
     [''MX: esz=%lld mbits=%lld emax=%lld emin=%lld scale_bits=%lld sites=%d'' @ [NL],
      ''MX: blocks_marked=%llu bytes_marked=%llu stores=%llu'' @ [NL],
      ''MX: values_changed=%llu values_flushed=%llu values_saturated=%llu'' @ [NL],
      ''MX: blocks_nan=%llu scales_clamped=%llu'' @ [NL]]"

definition fini_stats :: "print_env \<Rightarrow> ml_opts \<Rightarrow> mx_stats \<Rightarrow> nat \<Rightarrow> vgp_state \<Rightarrow> vgp_state option" where
  "fini_stats pe o' s n ps = do {
     ps \<leftarrow> pe_umsg pe ps (fini_format ! 0)
       [VaLong (word_of_int (clo_mx_esz o')), VaLong (word_of_int (clo_mx_mbits o')), VaLong (word_of_int (clo_mx_emax o')),
        VaLong (word_of_int (clo_mx_emin o')), VaLong (word_of_int (clo_mx_scale_bits o')), VaInt (of_nat n)];
     ps \<leftarrow> pe_umsg pe ps (fini_format ! 1) [VaLong (mx_blocks_marked s), VaLong (mx_bytes_marked s), VaLong (mx_stores s)];
     ps \<leftarrow> pe_umsg pe ps (fini_format ! 2)
       [VaLong (mx_values_changed s), VaLong (mx_values_flushed s), VaLong (mx_values_saturated s)];
     pe_umsg pe ps (fini_format ! 3) [VaLong (mx_blocks_nan s), VaLong (mx_scales_clamped s)]
   }"

definition ml_fini :: "tool_env \<Rightarrow> tool_state \<Rightarrow> tool_state option" where
  "ml_fini te st = do {
     (lg, ps) \<leftarrow> flush_log_buffer (te_pe te) (ecs (ts_ec st)) (ts_log st) (ts_ps st);
     ps \<leftarrow> (if clo_mx_round (t_ml (ts_opts st))
            then fini_stats (te_pe te) (t_ml (ts_opts st)) (ts_stats st) (length (ts_sites st)) ps else Some ps);
     bs \<leftarrow> free_rb_tree (ts_blocks st);
     Some (st\<lparr>ts_log := lg, ts_ps := ps, ts_blocks := bs\<rparr>)
   }"

section \<open>Specification\<close>

text \<open>The tracked ranges in order of their addresses, and all events so far.\<close>

record tool_spec =
  sp_blocks :: "(Addr \<times> SizeT) list"
  sp_events :: "event list"

definition spec_at :: "(Addr \<times> SizeT) list \<Rightarrow> Addr \<Rightarrow> (Addr \<times> SizeT) option" where
  "spec_at bl addr =
     (case leq_entry addr bl of None \<Rightarrow> None | Some (k, sz) \<Rightarrow> if addr < k + sz then Some (k, sz) else None)"

definition spec_track :: "Addr list \<Rightarrow> Addr \<Rightarrow> SizeT \<Rightarrow> tool_spec \<Rightarrow> tool_spec" where
  "spec_track tr addr sz sp = sp\<lparr>sp_blocks := ins_entry addr sz (sp_blocks sp),
     sp_events := sp_events sp @ [EvAlloc addr sz (Some tr)]\<rparr>"

definition spec_untrack :: "Addr list \<Rightarrow> Addr \<Rightarrow> tool_spec \<Rightarrow> tool_spec" where
  "spec_untrack tr addr sp =
     (case spec_at (sp_blocks sp) addr of
        None \<Rightarrow> sp
      | Some (k, sz) \<Rightarrow>
          if k = addr then sp\<lparr>sp_blocks := del_entry addr (sp_blocks sp),
             sp_events := sp_events sp @ [EvFree addr sz (Some tr)]\<rparr>
          else sp)"

definition spec_store :: "Addr \<Rightarrow> HWord \<Rightarrow> tool_spec \<Rightarrow> tool_spec" where
  "spec_store addr v sp =
     (if spec_at (sp_blocks sp) addr \<noteq> None then sp\<lparr>sp_events := sp_events sp @ [EvStore addr v]\<rparr> else sp)"

definition trace_of :: "answers \<Rightarrow> Addr list" where
  "trace_of an = unwind (an_unw an) 0 False"

text \<open>The address and the memory an allocation gives.\<close>

definition req_size :: "SizeT \<Rightarrow> SizeT" where
  "req_size szB = (if szB = 0 then 1 else szB)"

definition new_ptr :: "answers \<Rightarrow> SizeT \<Rightarrow> SizeT \<Rightarrow> Addr" where
  "new_ptr an szB alignB = (if sint szB < 0 then 0 else an_ptr an alignB (req_size szB))"

definition new_mem :: "answers \<Rightarrow> SizeT \<Rightarrow> SizeT \<Rightarrow> bool \<Rightarrow> mem \<Rightarrow> mem" where
  "new_mem an szB alignB z m =
     (if new_ptr an szB alignB = 0 then m
      else let m = an_grow an alignB (req_size szB) m in
        if z then over m (new_ptr an szB alignB) (replicate (unat (req_size szB)) 0) else m)"

definition spec_new :: "SizeT \<Rightarrow> answers \<Rightarrow> SizeT \<Rightarrow> SizeT \<Rightarrow> tool_spec \<Rightarrow> tool_spec" where
  "spec_new min_sz an szB alignB sp =
     (if new_ptr an szB alignB = 0 \<or> req_size szB < min_sz then sp
      else spec_track (trace_of an) (new_ptr an szB alignB) (req_size szB) sp)"

definition spec_die :: "answers \<Rightarrow> Addr \<Rightarrow> tool_spec \<Rightarrow> tool_spec" where
  "spec_die an p sp = (if p = 0 then sp else spec_untrack (trace_of an) p sp)"

definition spec_request :: "answers \<Rightarrow> (nat \<Rightarrow> 64 word) \<Rightarrow> tool_spec \<Rightarrow> tool_spec" where
  "spec_request an arg sp =
     (if arg 0 = USERREQ_TRACK_BLOCK then if arg 2 > 0 then spec_track (trace_of an) (arg 1) (arg 2) sp else sp
      else if arg 0 = USERREQ_UNTRACK_BLOCK then spec_untrack (trace_of an) (arg 1) sp
      else sp)"

definition spec_realloc :: "tool_opts \<Rightarrow> answers \<Rightarrow> answers \<Rightarrow> Addr \<Rightarrow> SizeT \<Rightarrow> tool_spec \<Rightarrow> tool_spec" where
  "spec_realloc opts an an' p_old new_szB sp =
     (if p_old = 0 then spec_new (clo_min_block_size (t_ml opts)) an new_szB ML_MALLOC_ALIGNMENT sp
      else if new_szB = 0 \<and> clo_realloc_zero_bytes_frees (t_rm opts) then spec_die an p_old sp
      else if new_ptr an new_szB ML_MALLOC_ALIGNMENT = 0 then sp
      else spec_die an' p_old (spec_new (clo_min_block_size (t_ml opts)) an new_szB ML_MALLOC_ALIGNMENT sp))"

text \<open>The relation, for given options and a text \<open>t\<close> that was printed before.\<close>

definition tool_rel :: "tool_env \<Rightarrow> tool_opts \<Rightarrow> string \<Rightarrow> tool_state \<Rightarrow> tool_spec \<Rightarrow> bool" where
  "tool_rel te opts t st sp \<longleftrightarrow> ts_opts st = opts \<and> ec_usable (ts_ec st) \<and>
     logged (te_pe te) (ecs (ts_ec st)) (ts_log st) (ts_ps st) t (sp_events sp) \<and>
     (\<exists>es. holds_blocks (ts_blocks st) es \<and>
        sp_blocks sp = map (\<lambda>(k, b). (k, req_szB (the (blks (ts_blocks st) b)))) es)"

text \<open>
  What is expected of the answers: the thread can be unwound, addresses from Valgrind's
  allocators are unused, and there are context numbers left.
\<close>

definition answers_ok :: "tool_state \<Rightarrow> answers \<Rightarrow> bool" where
  "answers_ok st an \<longleftrightarrow> unwinds (an_unw an) \<and> ecs (ts_ec st) (an_ec0 an) = None \<and> ecs (ts_ec st) (an_ec an) = None \<and>
     an_ec an \<noteq> an_ec0 an \<and> unat (ec_next_ecu (ts_ec st)) + 8 < 2 ^ 32 \<and>
     blks (ts_blocks st) (an_bk an) = None \<and> nodes (tracked_blocks (ts_blocks st)) (an_node an) = None"

section \<open>Operations refine the specification\<close>

lemma ins_entry_present: "skeys es \<Longrightarrow> k \<in> fst ` set es \<Longrightarrow> ins_entry k d es = es"
  by (induction es) fastforce+

lemma map_spec_at:
  "leq_entry addr (map (\<lambda>(k, b). (k, f b)) es) = map_option (\<lambda>(k, b). (k, f b)) (leq_entry addr es)"
  by (rule map_leq_entry)

lemma tool_record_ok:
  assumes "ec_usable (ts_ec st)" "answers_ok st an"
    "logged (te_pe te) (ecs (ts_ec st)) (ts_log st) (ts_ps st) t evs"
  shows "\<exists>ec e. tool_record an st = Some (st\<lparr>ts_ec := ec\<rparr>, e) \<and> ec_usable ec \<and>
     where_is (ecs ec) (Some e) (Some (trace_of an)) \<and>
     logged (te_pe te) (ecs ec) (ts_log st) (ts_ps st) t evs"
proof -
  have a: "unwinds (an_unw an)" "ecs (ts_ec st) (an_ec0 an) = None" "ecs (ts_ec st) (an_ec an) = None"
    "an_ec an \<noteq> an_ec0 an" "unat (ec_next_ecu (ts_ec st)) + 8 < 2 ^ 32"
    using assms(2) by (simp_all add: answers_ok_def)
  obtain ec e where
    r: "record_ExeContext (an_unw an) (ts_ec st) (an_ec0 an) (an_ec an) 0 = Some (ec, e)" "ec_ready ec"
    "matches (ecs ec) (unwind (an_unw an) 0 False) e" "ec_extends (ecs (ts_ec st)) (ecs ec)"
    using record_ExeContext_ok [OF assms(1) a, of 0] by (elim exE conjE) (rule that)
  have "unwind (an_unw an) 0 False \<noteq> []" using unwind_fits assms(2) by (simp add: answers_ok_def)
  with r logged_extends [OF assms(3) r(4)] show ?thesis
    by (intro exI [of _ ec] exI [of _ e]) (simp add: tool_record_def where_is_def trace_of_def)
qed

lemma tool_log_ok:
  assumes "\<not> pe_xml (te_pe te)" "logged (te_pe te) (ecs (ts_ec st)) (ts_log st) (ts_ps st) t evs"
    "\<And>e. entry_is (ecs (ts_ec st)) (if ty = LOG_STORE then e\<lparr>le_type := ty, le_addr := addr, le_value := v\<rparr>
        else e\<lparr>le_type := ty, le_addr := addr, le_size := sz, le_where := whr\<rparr>) ev"
  shows "\<exists>lg ps. tool_log te st ty addr v sz whr = Some (st\<lparr>ts_log := lg, ts_ps := ps\<rparr>) \<and>
     logged (te_pe te) (ecs (ts_ec st)) lg ps t (evs @ [ev])"
proof -
  obtain lg ps where "add_to_buffer (te_pe te) (ecs (ts_ec st)) (ts_log st) (ts_ps st) ty addr v sz whr = Some (lg, ps)"
    "logged (te_pe te) (ecs (ts_ec st)) lg ps t (evs @ [ev])" using add_ok [OF assms] by blast
  then show ?thesis by (intro exI [of _ lg] exI [of _ ps]) (simp add: tool_log_def)
qed

lemma holds_fresh:
  assumes "holds_blocks bs es" "blks bs b = None"
  shows "b \<notin> snd ` set es" "holds_blocks (bs\<lparr>blks := (blks bs)(b \<mapsto> bk)\<rparr>) es"
    "map (\<lambda>(k, c). (k, req_szB (the (((blks bs)(b \<mapsto> bk)) c)))) es = map (\<lambda>(k, c). (k, req_szB (the (blks bs c)))) es"
proof -
  show b: "b \<notin> snd ` set es" using assms unfolding holds_blocks_def by force
  then show "holds_blocks (bs\<lparr>blks := (blks bs)(b \<mapsto> bk)\<rparr>) es" using assms(1) by (force simp: holds_blocks_def)
  show "map (\<lambda>(k, c). (k, req_szB (the (((blks bs)(b \<mapsto> bk)) c)))) es = map (\<lambda>(k, c). (k, req_szB (the (blks bs c)))) es"
    using b by (force intro: map_cong)
qed

lemma track_es:
  assumes xml: "\<not> pe_xml (te_pe te)" and rel: "tool_rel te opts t st sp" and an: "answers_ok st an"
    and sel: "\<And>ps. sel ps = Some (False, ps)"
  shows "\<exists>st'. track_block te an st addr szB sel = Some st' \<and> tool_rel te opts t st' (spec_track (trace_of an) addr szB sp) \<and>
     ts_mem st' = ts_mem st \<and> blks (ts_blocks st') (an_bk an) \<noteq> None \<and>
     (\<exists>es. map fst es = map fst (sp_blocks sp) \<and> an_bk an \<notin> snd ` set es \<and>
        holds_blocks (ts_blocks st') (ins_entry addr (an_bk an) es))"
proof -
  from rel obtain es where h: "ts_opts st = opts" "ec_usable (ts_ec st)"
    "logged (te_pe te) (ecs (ts_ec st)) (ts_log st) (ts_ps st) t (sp_events sp)"
    "holds_blocks (ts_blocks st) es" "sp_blocks sp = map (\<lambda>(k, b). (k, req_szB (the (blks (ts_blocks st) b)))) es"
    unfolding tool_rel_def by blast
  from tool_record_ok [OF h(2) an h(3)] obtain ec e where r: "tool_record an st = Some (st\<lparr>ts_ec := ec\<rparr>, e)" "ec_usable ec"
    "where_is (ecs ec) (Some e) (Some (trace_of an))" "logged (te_pe te) (ecs ec) (ts_log st) (ts_ps st) t (sp_events sp)"
    by blast
  define bk where "bk = \<lparr>payload = addr, req_szB = szB, alloc_ec = Some e, mx = False\<rparr>"
  define bs where "bs = (ts_blocks st)\<lparr>blks := (blks (ts_blocks st))(an_bk an \<mapsto> bk)\<rparr>"
  have fr: "blks (ts_blocks st) (an_bk an) = None" "nodes (tracked_blocks (ts_blocks st)) (an_node an) = None"
    using an by (simp_all add: answers_ok_def)
  note hf = holds_fresh(1) [OF h(4) fr(1)] holds_fresh(2,3) [OF h(4) fr(1), of bk, folded bs_def]
  from insert_block_ok [OF hf(2) _ hf(1), of bk "an_node an"] fr obtain bs' where
    i: "insert_block_rb bs (an_bk an) (an_node an) = Some bs'" "blks bs' = blks bs"
    "holds_blocks bs' (ins_entry addr (an_bk an) es)" by (auto simp: bs_def bk_def)
  let ?f = "\<lambda>b. req_szB (the (blks bs b))"
  have "blks bs = (blks (ts_blocks st))(an_bk an \<mapsto> bk)" by (simp add: bs_def)
  then have m: "map (\<lambda>(k, b). (k, ?f b)) es = sp_blocks sp" "?f (an_bk an) = szB"
    using hf(3) h(5) by (simp_all only:) (simp add: bk_def)
  have "map (\<lambda>(k, b). (k, req_szB (the (blks bs' b)))) (ins_entry addr (an_bk an) es) =
      ins_entry addr szB (sp_blocks sp)"
    unfolding i(2) map_ins_entry [where f = ?f and es = es, symmetric] m ..
  moreover from tool_log_ok [OF xml, where st = "st\<lparr>ts_ec := ec, ts_blocks := bs'\<rparr>" and t = t and evs = "sp_events sp" and
      ty = LOG_ALLOC and addr = addr and v = 0 and sz = szB and whr = "Some e" and
      ev = "EvAlloc addr szB (Some (trace_of an))"] r(3,4)
  obtain lg ps where "tool_log te (st\<lparr>ts_ec := ec, ts_blocks := bs'\<rparr>) LOG_ALLOC addr 0 szB (Some e) =
      Some (st\<lparr>ts_ec := ec, ts_blocks := bs', ts_log := lg, ts_ps := ps\<rparr>)"
    "logged (te_pe te) (ecs ec) lg ps t (sp_events sp @ [EvAlloc addr szB (Some (trace_of an))])" by auto
  moreover have "blks bs' (an_bk an) \<noteq> None" by (simp add: i(2) bs_def)
  moreover have "map fst es = map fst (sp_blocks sp)" unfolding h(5) map_fst_pairs ..
  ultimately show ?thesis
    using r(1,2) i h(1) fr(1) sel hf(1)
    by (auto simp: track_block_def tool_rel_def spec_track_def Let_def bs_def bk_def)
qed

lemma track_ok:
  assumes "\<not> pe_xml (te_pe te)" "tool_rel te opts t st sp" "answers_ok st an" "\<And>ps. sel ps = Some (False, ps)"
  shows "\<exists>st'. track_block te an st addr szB sel = Some st' \<and> tool_rel te opts t st' (spec_track (trace_of an) addr szB sp) \<and>
     ts_mem st' = ts_mem st"
  using track_es [OF assms] by blast


text \<open>What the look-up finds in the model and in the specification.\<close>

lemma find_spec:
  assumes "holds_blocks bs es"
  obtains (none) "find_block_containing bs addr = Some None"
      "spec_at (map (\<lambda>(k, b). (k, req_szB (the (blks bs b)))) es) addr = None"
    | (some) b bk where "find_block_containing bs addr = Some (Some b)" "blks bs b = Some bk" "(payload bk, b) \<in> set es"
      "spec_at (map (\<lambda>(k, b). (k, req_szB (the (blks bs b)))) es) addr = Some (payload bk, req_szB bk)"
proof (cases "leq_entry addr es")
  case None
  then show ?thesis using none by (simp add: find_block_ok [OF assms] spec_at_def map_leq_entry)
next
  case (Some e)
  obtain k b where e: "e = (k, b)" by (cases e)
  then have "(k, b) \<in> set es" using Some leq_entry_Some [OF holds_sorted [OF assms]] by blast
  moreover from this obtain bk where "blks bs b = Some bk" "payload bk = k" using assms by (auto simp: holds_blocks_def)
  ultimately show ?thesis using Some e none some
    by (cases "addr < k + req_szB bk") (simp_all add: find_block_ok [OF assms] spec_at_def map_leq_entry)
qed

lemma untrack_ok:
  assumes xml: "\<not> pe_xml (te_pe te)" and rel: "tool_rel te opts t st sp" and an: "answers_ok st an"
    and f: "find_block_containing (ts_blocks st) addr = Some (Some b)" "blks (ts_blocks st) b = Some bk" "payload bk = addr"
  shows "\<exists>st'. untrack_block te an st addr b = Some st' \<and> tool_rel te opts t st' (spec_untrack (trace_of an) addr sp) \<and>
     ts_mem st' = ts_mem st"
proof -
  from rel obtain es where h: "ts_opts st = opts" "ec_usable (ts_ec st)"
    "logged (te_pe te) (ecs (ts_ec st)) (ts_log st) (ts_ps st) t (sp_events sp)"
    "holds_blocks (ts_blocks st) es" "sp_blocks sp = map (\<lambda>(k, b). (k, req_szB (the (blks (ts_blocks st) b)))) es"
    unfolding tool_rel_def by blast
  have s: "spec_at (sp_blocks sp) addr = Some (addr, req_szB bk)" "(addr, b) \<in> set es"
    unfolding h(5) using f by (cases rule: find_spec [OF h(4), where addr = addr]; simp)+
  from tool_record_ok [OF h(2) an h(3)] obtain ec e where r: "tool_record an st = Some (st\<lparr>ts_ec := ec\<rparr>, e)" "ec_usable ec"
    "where_is (ecs ec) (Some e) (Some (trace_of an))" "logged (te_pe te) (ecs ec) (ts_log st) (ts_ps st) t (sp_events sp)"
    by blast
  from tool_log_ok [OF xml, where st = "st\<lparr>ts_ec := ec\<rparr>" and t = t and evs = "sp_events sp" and
      ty = LOG_FREE and addr = addr and v = 0 and sz = "req_szB bk" and whr = "Some e" and
      ev = "EvFree addr (req_szB bk) (Some (trace_of an))"] r(3,4)
  obtain lg ps where l: "tool_log te (st\<lparr>ts_ec := ec\<rparr>) LOG_FREE addr 0 (req_szB bk) (Some e) =
      Some (st\<lparr>ts_ec := ec, ts_log := lg, ts_ps := ps\<rparr>)"
    "logged (te_pe te) (ecs ec) lg ps t (sp_events sp @ [EvFree addr (req_szB bk) (Some (trace_of an))])" by auto
  from remove_block_ok [OF h(4) s(2)] obtain rs where
    d: "remove_block (ts_blocks st) b = Some ((ts_blocks st)\<lparr>tracked_blocks := rs, blks := (blks (ts_blocks st))(b := None)\<rparr>)"
    "holds_blocks ((ts_blocks st)\<lparr>tracked_blocks := rs, blks := (blks (ts_blocks st))(b := None)\<rparr>) (del_entry addr es)" by blast
  have "b \<notin> snd ` set (del_entry addr es)" using d(2) by (force simp: holds_blocks_def)
  then have "map (\<lambda>(k, c). (k, req_szB (the (((blks (ts_blocks st))(b := None)) c)))) (del_entry addr es) =
      map (\<lambda>(k, c). (k, req_szB (the (blks (ts_blocks st) c)))) (del_entry addr es)" by (force intro: map_cong)
  then have "del_entry addr (sp_blocks sp) =
      map (\<lambda>(k, c). (k, req_szB (the (((blks (ts_blocks st))(b := None)) c)))) (del_entry addr es)"
    unfolding h(5) map_del_entry by (rule sym)
  with d(2) have "\<exists>es. holds_blocks ((ts_blocks st)\<lparr>tracked_blocks := rs, blks := (blks (ts_blocks st))(b := None)\<rparr>) es \<and>
      del_entry addr (sp_blocks sp) = map (\<lambda>(k, c). (k, req_szB (the (((blks (ts_blocks st))(b := None)) c)))) es" by blast
  with r(1,2) l d(1) h(1) f(2) s(1) show ?thesis
    by (simp add: untrack_block_def tool_rel_def spec_untrack_def)
qed

lemma store_ok:
  assumes xml: "\<not> pe_xml (te_pe te)" and rel: "tool_rel te opts t st sp"
  shows "\<exists>st'. log_store te st addr v = Some st' \<and> tool_rel te opts t st' (spec_store addr v sp)"
proof -
  from rel obtain es where h: "ts_opts st = opts" "ec_usable (ts_ec st)"
    "logged (te_pe te) (ecs (ts_ec st)) (ts_log st) (ts_ps st) t (sp_events sp)"
    "holds_blocks (ts_blocks st) es" "sp_blocks sp = map (\<lambda>(k, b). (k, req_szB (the (blks (ts_blocks st) b)))) es"
    unfolding tool_rel_def by blast
  from h(4) show ?thesis
  proof (cases rule: find_spec [where addr = addr])
    case none
    with rel show ?thesis by (simp add: log_store_def is_tracked_def spec_store_def h(5))
  next
    case (some b bk)
    from tool_log_ok [OF xml h(3), where ty = LOG_STORE and addr = addr and v = v and ev = "EvStore addr v" and sz = 0 and whr = None]
    obtain lg ps where "tool_log te st LOG_STORE addr v 0 None = Some (st\<lparr>ts_log := lg, ts_ps := ps\<rparr>)"
      "logged (te_pe te) (ecs (ts_ec st)) lg ps t (sp_events sp @ [EvStore addr v])" by auto
    with some h show ?thesis by (auto simp: log_store_def is_tracked_def spec_store_def tool_rel_def)
  qed
qed


lemma tool_rel_mem [simp]: "tool_rel te opts t (st\<lparr>ts_mem := m\<rparr>) sp = tool_rel te opts t st sp"
  by (simp add: tool_rel_def)

lemma answers_ok_mem [simp]: "answers_ok (st\<lparr>ts_mem := m\<rparr>) an = answers_ok st an"
  by (simp add: answers_ok_def)

lemma new_ok:
  assumes xml: "\<not> pe_xml (te_pe te)" and rel: "tool_rel te opts t st sp" and an: "answers_ok st an"
    and mx: "\<not> clo_mx_round (t_ml opts)"
    and z: "z \<Longrightarrow> mapped (an_grow an alignB (req_size szB) (ts_mem st)) (new_ptr an szB alignB) (unat (req_size szB))"
  shows "\<exists>st'. new_block te an st szB alignB z = Some (st', new_ptr an szB alignB) \<and>
     tool_rel te opts t st' (spec_new (clo_min_block_size (t_ml opts)) an szB alignB sp) \<and>
     ts_mem st' = new_mem an szB alignB z (ts_mem st)"
proof (cases "new_ptr an szB alignB = 0")
  case True
  then have "new_block te an st szB alignB z = Some (st, 0)"
    unfolding new_block_def req_size_def [symmetric] Let_def new_ptr_def by (simp split: if_splits)
  with True rel show ?thesis by (simp add: spec_new_def new_mem_def)
next
  case False
  let ?p = "new_ptr an szB alignB" and ?m = "an_grow an alignB (req_size szB) (ts_mem st)"
  have o: "ts_opts st = opts" using rel by (simp add: tool_rel_def)
  have p: "\<not> sint szB < 0" "an_ptr an alignB (req_size szB) = ?p" "?p \<noteq> 0"
    using False by (simp_all add: new_ptr_def split: if_splits)
  have m: "(if z then vg_memset ?m ?p 0 (req_size szB) else Some ?m) = Some (new_mem an szB alignB z (ts_mem st))"
    using z memset_ok [of ?m ?p "req_size szB" 0] False by (simp add: new_mem_def Let_def)
  let ?st = "st\<lparr>ts_mem := new_mem an szB alignB z (ts_mem st)\<rparr>"
  from track_ok [OF xml, of opts t ?st sp an "\<lambda>ps. Some (False, ps)" ?p "req_size szB"] rel an obtain st' where
    t: "track_block te an ?st ?p (req_size szB) (\<lambda>ps. Some (False, ps)) = Some st'"
    "tool_rel te opts t st' (spec_track (trace_of an) ?p (req_size szB) sp)" "ts_mem st' = ts_mem ?st" by auto
  have n: "new_block te an st szB alignB z =
      (if req_size szB \<ge> clo_min_block_size (t_ml opts) then Some (st', ?p) else Some (?st, ?p))"
    using p m t(1) mx o unfolding new_block_def req_size_def [symmetric] Let_def by (cases z) simp_all
  show ?thesis
    using t rel False unfolding n by (simp add: spec_new_def linorder_not_le [symmetric])
qed

lemma die_ok:
  assumes xml: "\<not> pe_xml (te_pe te)" and rel: "tool_rel te opts t st sp" and an: "answers_ok st an"
  shows "\<exists>st'. die_block te an st p = Some st' \<and> tool_rel te opts t st' (spec_die an p sp) \<and>
     ts_mem st' = (if p = 0 then ts_mem st else an_free an p (ts_mem st))"
proof -
  from rel obtain es where h: "holds_blocks (ts_blocks st) es"
    "sp_blocks sp = map (\<lambda>(k, b). (k, req_szB (the (blks (ts_blocks st) b)))) es"
    unfolding tool_rel_def by blast
  from h(1) show ?thesis
  proof (cases rule: find_spec [where addr = p])
    case none
    with rel show ?thesis by (simp add: die_block_def spec_die_def spec_untrack_def h(2))
  next
    case (some b bk)
    show ?thesis
    proof (cases "payload bk = p")
      case True
      from untrack_ok [OF xml rel an some(1,2) True] obtain st' where
        "untrack_block te an st p b = Some st'" "tool_rel te opts t st' (spec_untrack (trace_of an) p sp)"
        "ts_mem st' = ts_mem st" by blast
      with some True rel show ?thesis by (simp add: die_block_def spec_die_def)
    qed (use some rel in \<open>simp add: die_block_def spec_die_def spec_untrack_def h(2)\<close>)
  qed
qed


lemma request_ok:
  assumes xml: "\<not> pe_xml (te_pe te)" and rel: "tool_rel te opts t st sp" and an: "answers_ok st an"
  shows "\<exists>st'. ml_handle_client_request te an st arg =
       Some (st', if arg 0 \<in> {USERREQ_TRACK_BLOCK, USERREQ_UNTRACK_BLOCK} then Some 0 else None,
         arg 0 \<in> {USERREQ_TRACK_BLOCK, USERREQ_UNTRACK_BLOCK}) \<and>
     tool_rel te opts t st' (spec_request an arg sp)"
proof -
  from rel obtain es where h: "holds_blocks (ts_blocks st) es"
    "sp_blocks sp = map (\<lambda>(k, b). (k, req_szB (the (blks (ts_blocks st) b)))) es"
    unfolding tool_rel_def by blast
  consider "arg 0 = USERREQ_TRACK_BLOCK" | "arg 0 = USERREQ_UNTRACK_BLOCK" "arg 0 \<noteq> USERREQ_TRACK_BLOCK"
    | "arg 0 \<noteq> USERREQ_TRACK_BLOCK" "arg 0 \<noteq> USERREQ_UNTRACK_BLOCK" by blast
  then show ?thesis
  proof cases
    case 1
    from track_ok [OF xml rel an, of "\<lambda>ps. Some (False, ps)" "arg 1" "arg 2"] obtain st' where
      "track_block te an st (arg 1) (arg 2) (\<lambda>ps. Some (False, ps)) = Some st'"
      "tool_rel te opts t st' (spec_track (trace_of an) (arg 1) (arg 2) sp)" by auto
    with 1 rel show ?thesis by (simp add: ml_handle_client_request_def spec_request_def)
  next
    case 2
    from h(1) show ?thesis
    proof (cases rule: find_spec [where addr = "arg 1"])
      case none
      with 2 rel show ?thesis by (simp add: ml_handle_client_request_def spec_request_def spec_untrack_def h(2))
    next
      case (some b bk)
      show ?thesis
      proof (cases "payload bk = arg 1")
        case True
        from untrack_ok [OF xml rel an some(1,2) True] obtain st' where "untrack_block te an st (arg 1) b = Some st'"
          "tool_rel te opts t st' (spec_untrack (trace_of an) (arg 1) sp)" by blast
        with some True 2 show ?thesis by (simp add: ml_handle_client_request_def spec_request_def)
      qed (use some rel 2 in \<open>simp add: ml_handle_client_request_def spec_request_def spec_untrack_def h(2)\<close>)
    qed
  next
    case 3
    with rel show ?thesis by (simp add: ml_handle_client_request_def spec_request_def)
  qed
qed

text \<open>
  \<^verbatim>\<open>ml_realloc\<close> that allocates: the bytes that are copied must be mapped in both blocks once the
  new one is there. \<open>realloc_copy\<close> is the number of bytes.
\<close>

definition realloc_copy :: "answers \<Rightarrow> tool_state \<Rightarrow> Addr \<Rightarrow> SizeT \<Rightarrow> nat" where
  "realloc_copy an st p_old new_szB = unat (min (the (realloc_old_size an st p_old)) (req_size new_szB))"

definition can_move :: "answers \<Rightarrow> tool_state \<Rightarrow> Addr \<Rightarrow> SizeT \<Rightarrow> bool" where
  "can_move an st p_old new_szB \<longleftrightarrow>
     (let p = new_ptr an new_szB ML_MALLOC_ALIGNMENT; m = new_mem an new_szB ML_MALLOC_ALIGNMENT False (ts_mem st);
          n = realloc_copy an st p_old new_szB
      in p \<noteq> 0 \<longrightarrow> mapped m p_old n \<and> mapped m p n \<and> unat p_old + n \<le> 2 ^ 64 \<and> unat p + n \<le> 2 ^ 64)"

text \<open>The bytes in a mapped range.\<close>

definition bytes_at :: "mem \<Rightarrow> Addr \<Rightarrow> nat \<Rightarrow> 8 word list" where
  "bytes_at m a n = map (\<lambda>i. the (m (a + of_nat i))) [0..<n]"

lemma holds_bytes_at: "mapped m a n \<Longrightarrow> holds_bytes m a (bytes_at m a n)"
  by (auto simp: mapped_def holds_bytes_def bytes_at_def)

lemma length_bytes_at [simp]: "length (bytes_at m a n) = n"
  by (simp add: bytes_at_def)

lemma realloc_size_ok:
  assumes "tool_rel te opts t st sp"
  shows "realloc_old_size an st p =
     Some (case spec_at (sp_blocks sp) p of Some (k, sz) \<Rightarrow> sz | None \<Rightarrow> an_usable an p)"
proof -
  from assms obtain es where h: "holds_blocks (ts_blocks st) es"
    "sp_blocks sp = map (\<lambda>(k, b). (k, req_szB (the (blks (ts_blocks st) b)))) es"
    unfolding tool_rel_def by blast
  from h(1) show ?thesis by (cases rule: find_spec [where addr = p]) (simp_all add: realloc_old_size_def h(2))
qed


text \<open>
  The memory after \<^verbatim>\<open>ml_realloc\<close> that allocates at \<open>p\<close>: the allocator's, the bytes of the old block
  copied, the old block released.
\<close>

definition moved_mem :: "answers \<Rightarrow> answers \<Rightarrow> tool_state \<Rightarrow> Addr \<Rightarrow> SizeT \<Rightarrow> mem" where
  "moved_mem an an' st p_old new_szB =
     (let m = new_mem an new_szB ML_MALLOC_ALIGNMENT False (ts_mem st) in
      an_free an' p_old (over m (new_ptr an new_szB ML_MALLOC_ALIGNMENT)
        (bytes_at m p_old (realloc_copy an st p_old new_szB))))"

lemma realloc_move_ok:
  assumes xml: "\<not> pe_xml (te_pe te)" and rel: "tool_rel te opts t st sp" and an: "answers_ok st an"
    and mx: "\<not> clo_mx_round (t_ml opts)" and p: "p_old \<noteq> 0" "\<not> (new_szB = 0 \<and> clo_realloc_zero_bytes_frees (t_rm opts))"
    "new_ptr an new_szB ML_MALLOC_ALIGNMENT \<noteq> 0"
    and mv: "can_move an st p_old new_szB"
    and an': "pred_option (\<lambda>(st', p). answers_ok st' an') (ml_malloc te an st (req_size new_szB))"
  shows "\<exists>st'. ml_realloc te an an' st p_old new_szB = Some (st', new_ptr an new_szB ML_MALLOC_ALIGNMENT) \<and>
     tool_rel te opts t st' (spec_realloc opts an an' p_old new_szB sp) \<and>
     ts_mem st' = moved_mem an an' st p_old new_szB"
proof -
  let ?p = "new_ptr an new_szB ML_MALLOC_ALIGNMENT" and ?n = "realloc_copy an st p_old new_szB"
  let ?m = "new_mem an new_szB ML_MALLOC_ALIGNMENT False (ts_mem st)"
  have r: "new_ptr an (req_size new_szB) ML_MALLOC_ALIGNMENT = ?p" "req_size (req_size new_szB) = req_size new_szB"
    using p(3) by (auto simp: new_ptr_def req_size_def split: if_splits)
  then have r': "new_mem an (req_size new_szB) ML_MALLOC_ALIGNMENT False (ts_mem st) = ?m"
    "spec_new ms an (req_size new_szB) ML_MALLOC_ALIGNMENT = spec_new ms an new_szB ML_MALLOC_ALIGNMENT" for ms
    by (simp_all add: new_mem_def spec_new_def fun_eq_iff)
  from new_ok [OF xml rel an mx, of False ML_MALLOC_ALIGNMENT "req_size new_szB"] obtain st1 where
    n: "ml_malloc te an st (req_size new_szB) = Some (st1, ?p)" "ts_mem st1 = ?m"
    "tool_rel te opts t st1 (spec_new (clo_min_block_size (t_ml opts)) an new_szB ML_MALLOC_ALIGNMENT sp)"
    by (auto simp: ml_malloc_def r r')
  have c: "mapped ?m p_old ?n" "mapped ?m ?p ?n" "unat p_old + ?n \<le> 2 ^ 64" "unat ?p + ?n \<le> 2 ^ 64"
    using mv p(3) by (simp_all add: can_move_def Let_def)
  have mm: "vg_memmove ?m ?p p_old (min (the (realloc_old_size an st p_old)) (req_size new_szB)) =
      Some (over ?m ?p (bytes_at ?m p_old ?n))"
    using memmove_ok [OF holds_bytes_at [OF c(1)]] c(2,3,4) by (simp add: realloc_copy_def)
  let ?st = "st1\<lparr>ts_mem := over ?m ?p (bytes_at ?m p_old ?n)\<rparr>"
  have "answers_ok st1 an'" using an' n(1) by simp
  with die_ok [OF xml, of opts t ?st _ an' p_old] n(3) obtain st2 where
    d: "ml_free te an' ?st p_old = Some st2"
    "tool_rel te opts t st2 (spec_realloc opts an an' p_old new_szB sp)" "ts_mem st2 = an_free an' p_old (ts_mem ?st)"
    using p by (auto simp: ml_free_def spec_realloc_def)
  obtain old where "realloc_old_size an st p_old = Some old" using realloc_size_ok [OF rel] by blast
  moreover have "ts_opts st = opts" using rel by (simp add: tool_rel_def)
  ultimately show ?thesis using p mm n d
    unfolding ml_realloc_def req_size_def [symmetric] Let_def by (auto simp: moved_mem_def Let_def)
qed


section \<open>Runs\<close>

text \<open>
  What the program under Valgrind makes the tool do: an allocation of a size and an alignment,
  zeroed or not, a release, a reallocation, a client request, a store of 64 bits.
\<close>

datatype tool_op =
    OpNew answers SizeT SizeT bool
  | OpDie answers Addr
  | OpRealloc answers answers Addr SizeT
  | OpRequest answers "nat \<Rightarrow> 64 word"
  | OpStore Addr HWord

fun tool_step :: "tool_env \<Rightarrow> tool_state \<Rightarrow> tool_op \<Rightarrow> tool_state option" where
  "tool_step te st (OpNew an szB alignB z) = map_option fst (new_block te an st szB alignB z)"
| "tool_step te st (OpDie an p) = die_block te an st p"
| "tool_step te st (OpRealloc an an' p_old new_szB) = map_option fst (ml_realloc te an an' st p_old new_szB)"
| "tool_step te st (OpRequest an arg) = map_option fst (ml_handle_client_request te an st arg)"
| "tool_step te st (OpStore addr v) = log_store te st addr v"

fun spec_step :: "tool_opts \<Rightarrow> tool_spec \<Rightarrow> tool_op \<Rightarrow> tool_spec" where
  "spec_step opts sp (OpNew an szB alignB z) = spec_new (clo_min_block_size (t_ml opts)) an szB alignB sp"
| "spec_step opts sp (OpDie an p) = spec_die an p sp"
| "spec_step opts sp (OpRealloc an an' p_old new_szB) = spec_realloc opts an an' p_old new_szB sp"
| "spec_step opts sp (OpRequest an arg) = spec_request an arg sp"
| "spec_step opts sp (OpStore addr v) = spec_store addr v sp"

definition realloc_moves :: "tool_opts \<Rightarrow> answers \<Rightarrow> Addr \<Rightarrow> SizeT \<Rightarrow> bool" where
  "realloc_moves opts an p_old new_szB \<longleftrightarrow> p_old \<noteq> 0 \<and> \<not> (new_szB = 0 \<and> clo_realloc_zero_bytes_frees (t_rm opts)) \<and>
     new_ptr an new_szB ML_MALLOC_ALIGNMENT \<noteq> 0"

text \<open>What is expected of the allocators during an operation.\<close>

fun op_ok :: "tool_env \<Rightarrow> tool_state \<Rightarrow> tool_op \<Rightarrow> bool" where
  "op_ok te st (OpNew an szB alignB z) \<longleftrightarrow> answers_ok st an \<and>
     (z \<longrightarrow> mapped (an_grow an alignB (req_size szB) (ts_mem st)) (new_ptr an szB alignB) (unat (req_size szB)))"
| "op_ok te st (OpDie an p) \<longleftrightarrow> answers_ok st an"
| "op_ok te st (OpRealloc an an' p_old new_szB) \<longleftrightarrow> answers_ok st an \<and>
     (realloc_moves (ts_opts st) an p_old new_szB \<longrightarrow> can_move an st p_old new_szB \<and>
        pred_option (\<lambda>(st', p). answers_ok st' an') (ml_malloc te an st (req_size new_szB)))"
| "op_ok te st (OpRequest an arg) \<longleftrightarrow> answers_ok st an"
| "op_ok te st (OpStore addr v) \<longleftrightarrow> True"

lemma realloc_ok:
  assumes xml: "\<not> pe_xml (te_pe te)" and rel: "tool_rel te opts t st sp" and mx: "\<not> clo_mx_round (t_ml opts)"
    and ok: "op_ok te st (OpRealloc an an' p_old new_szB)"
  shows "\<exists>st' p. ml_realloc te an an' st p_old new_szB = Some (st', p) \<and>
     tool_rel te opts t st' (spec_realloc opts an an' p_old new_szB sp)"
proof -
  have o: "ts_opts st = opts" and an: "answers_ok st an" using rel ok by (simp_all add: tool_rel_def)
  consider "p_old = 0" | "p_old \<noteq> 0" "new_szB = 0" "clo_realloc_zero_bytes_frees (t_rm opts)"
    | "realloc_moves opts an p_old new_szB"
    | "p_old \<noteq> 0" "\<not> (new_szB = 0 \<and> clo_realloc_zero_bytes_frees (t_rm opts))" "new_ptr an new_szB ML_MALLOC_ALIGNMENT = 0"
    by (auto simp: realloc_moves_def)
  then show ?thesis
  proof cases
    case 1
    with new_ok [OF xml rel an mx, of False ML_MALLOC_ALIGNMENT new_szB] show ?thesis
      by (auto simp: ml_realloc_def ml_malloc_def spec_realloc_def)
  next
    case 2
    with die_ok [OF xml rel an, of p_old] o show ?thesis by (auto simp: ml_realloc_def ml_free_def spec_realloc_def)
  next
    case 3
    then show ?thesis
      using realloc_move_ok [OF xml rel an mx, of p_old new_szB an'] ok o by (fastforce simp: realloc_moves_def)
  next
    case 4
    then have r: "new_ptr an (req_size new_szB) ML_MALLOC_ALIGNMENT = 0"
      by (auto simp: new_ptr_def req_size_def split: if_splits)
    obtain old where "realloc_old_size an st p_old = Some old" using realloc_size_ok [OF rel] by blast
    moreover from new_ok [OF xml rel an mx, of False ML_MALLOC_ALIGNMENT "req_size new_szB"] r obtain st1 where
      "ml_malloc te an st (req_size new_szB) = Some (st1, 0)" "tool_rel te opts t st1 sp"
      by (auto simp: ml_malloc_def spec_new_def)
    ultimately show ?thesis using 4 o
      unfolding ml_realloc_def req_size_def [symmetric] Let_def by (auto simp: spec_realloc_def)
  qed
qed

lemma tool_step_ok:
  assumes "\<not> pe_xml (te_pe te)" "\<not> clo_mx_round (t_ml opts)" "tool_rel te opts t st sp" "op_ok te st x"
  shows "\<exists>st'. tool_step te st x = Some st' \<and> tool_rel te opts t st' (spec_step opts sp x)"
proof (cases x)
  case (OpNew an szB alignB z)
  with new_ok [OF assms(1,3) _ assms(2), of an z alignB szB] assms(4) show ?thesis by auto
next
  case (OpDie an p)
  with die_ok [OF assms(1,3)] assms(4) show ?thesis by auto
next
  case (OpRealloc an an' p_old new_szB)
  with realloc_ok [OF assms(1,3,2), of an an' p_old new_szB] assms(4) show ?thesis by auto
next
  case (OpRequest an arg)
  with request_ok [OF assms(1,3), of an arg] assms(4) show ?thesis by auto
next
  case (OpStore addr v)
  with store_ok [OF assms(1,3)] show ?thesis by simp
qed


interpretation mlt: simulation "tool_step te" "spec_step opts"
  "\<lambda>st sp. tool_rel te opts t st sp \<and> \<not> pe_xml (te_pe te) \<and> \<not> clo_mx_round (t_ml opts)" "op_ok te" for te opts t
  by unfold_locales (use tool_step_ok in blast)

definition spec_initial :: tool_spec where
  "spec_initial = \<lparr>sp_blocks = [], sp_events = []\<rparr>"

lemma initial_rel: "printing ps t \<Longrightarrow> tool_rel te opts t (ml_initial opts ps m) spec_initial"
  using holds_empty logged_initial by (simp add: tool_rel_def ml_initial_def spec_initial_def)

lemma fini_ok:
  assumes "\<not> pe_xml (te_pe te)" "\<not> clo_mx_round (t_ml opts)" "tool_rel te opts t st sp"
  shows "\<exists>st'. ml_fini te st = Some st' \<and> printing (ts_ps st') (t @ concat (map (event_text (te_pe te)) (sp_events sp))) \<and>
     tracked_blocks (ts_blocks st') = RB_ROOT \<and>
     (\<forall>es. holds_blocks (ts_blocks st) es \<longrightarrow> blks (ts_blocks st') = without (blks (ts_blocks st)) (snd ` set es))"
proof -
  from assms(3) obtain es where h: "ts_opts st = opts"
    "logged (te_pe te) (ecs (ts_ec st)) (ts_log st) (ts_ps st) t (sp_events sp)" "holds_blocks (ts_blocks st) es"
    unfolding tool_rel_def by blast
  from logged_flush [OF assms(1) h(2)] free_tree_ok [OF h(3)] free_tree_ok [of "ts_blocks st"] assms(2) h(1) show ?thesis
    by (auto simp: ml_fini_def)
qed

section \<open>Properties\<close>

text \<open>
  C5. The log of a whole run. From the start of the tool, any sequence of allocations, releases,
  reallocations, client requests and stores whose answers are as expected is processed without a
  fault. At the end the printed text is exactly the texts of the specified events, in order: an
  allocation and a release for every tracked block, with its stack trace, and every store into a
  range that is tracked at that moment. No node of the tree is left.
\<close>

theorem tool_log_correct:
  assumes "\<not> pe_xml (te_pe te)" "\<not> clo_mx_round (t_ml opts)" "printing ps t"
    "run_ok (tool_step te) (op_ok te) (ml_initial opts ps m) xs"
  shows "\<exists>st st'. run_ops (tool_step te) (ml_initial opts ps m) xs = Some st \<and> ml_fini te st = Some st' \<and>
     printing (ts_ps st') (t @ concat (map (event_text (te_pe te)) (sp_events (foldl (spec_step opts) spec_initial xs)))) \<and>
     tracked_blocks (ts_blocks st') = RB_ROOT"
  using mlt.run_sim [OF _ assms(4), where opts = opts and t = t and a = spec_initial] initial_rel [OF assms(3)] assms(1,2)
    fini_ok [OF assms(1,2)] by blast


definition sample_env :: tool_env where
  "sample_env = \<lparr>te_pe = \<lparr>pe_ws = \<lambda>_ _. 0, pe_xml = False,
       pe_msg = \<lparr>running_depth = 0, no_inner_prefix = False, clo_time_stamp = False, ms_timer = 1, the_pid = 42\<rparr>,
       pe_dbg = \<lparr>get_fnname_kind_from_IP = \<lambda>_ _. Vg_FnNameNormal, describe_IP = \<lambda>_ _. (''f'', []), current_DiEpoch = 1,
         clo_show_below_main = True\<rparr>\<rparr>,
     te_fnname = \<lambda>_. None, te_files = \<lambda>_. None\<rparr>"

definition sample_answers :: answers where
  "sample_answers = \<lparr>an_unw = \<lparr>backtrace_size = 12, valid_tid = True, get_IP = 1024, get_StackTrace = \<lambda>_ _. [1024],
       inner_StackTrace = None, inner_marker = 0\<rparr>,
     an_ptr = \<lambda>_ _. 4096, an_grow = \<lambda>_ _ m. m, an_free = \<lambda>_ m. m, an_usable = \<lambda>_. 8,
     an_bk = 1, an_node = 2, an_ec0 = 3, an_ec = 4\<rparr>"

definition sample_opts :: tool_opts where
  "sample_opts = \<lparr>t_ml = ml_default_opts\<lparr>clo_min_block_size := 8\<rparr>, 
     t_rm = \<lparr>clo_alignment = 16, clo_xtree_memory = Vg_XTMemory_None, clo_xtree_memory_file = None,
       clo_xtree_compress_strings = True, clo_trace_malloc = False, clo_realloc_zero_bytes_frees = True\<rparr>\<rparr>"

definition sample_tool :: tool_state where
  "sample_tool = ml_initial sample_opts \<lparr>ps_msg = sample_msg, ps_xml = stderr_state\<rparr> sample_mem"

lemma sample_printing: "printing \<lparr>ps_msg = sample_msg, ps_xml = stderr_state\<rparr> []"
  by (simp add: printing_def sample_msg_def stderr_on)

lemma sample_answers_ok: "answers_ok sample_tool sample_answers" "trace_of sample_answers = [1024]"
  by (simp_all add: answers_ok_def sample_answers_def unwinds_def sample_tool_def ml_initial_def ec_initial_def
      no_blocks_def RB_ROOT_def trace_of_def unwind_def)

theorem tool_log_correct_witness:
  "\<exists>st st'. run_ops (tool_step sample_env) sample_tool [OpNew sample_answers 16 32 True, OpStore 4104 5, OpStore 4112 6] = Some st \<and>
     ml_fini sample_env st = Some st' \<and>
     printing (ts_ps st') (event_text (te_pe sample_env) (EvAlloc 4096 16 (Some [1024])) @
       event_text (te_pe sample_env) (EvStore 4104 5)) \<and> tracked_blocks (ts_blocks st') = RB_ROOT"
proof -
  let ?xs = "[OpNew sample_answers 16 32 True, OpStore 4104 5, OpStore 4112 6]"
  have "sp_events (foldl (spec_step sample_opts) spec_initial ?xs) = [EvAlloc 4096 16 (Some [1024]), EvStore 4104 5]"
    by (simp add: spec_new_def new_ptr_def req_size_def sample_opts_def spec_track_def spec_initial_def
        spec_store_def spec_at_def sample_answers_ok(2)) (simp add: sample_answers_def)
  moreover have "op_ok sample_env sample_tool (OpNew sample_answers 16 32 True)"
    using sample_answers_ok(1) by (simp add: sample_tool_def ml_initial_def) (simp add: sample_answers_def)
  then have "run_ok (tool_step sample_env) (op_ok sample_env) sample_tool ?xs" by (simp split: option.split)
  ultimately show ?thesis
    using tool_log_correct [of sample_env sample_opts "\<lparr>ps_msg = sample_msg, ps_xml = stderr_state\<rparr>" "[]" sample_mem ?xs]
      sample_printing by (simp add: sample_env_def sample_opts_def ml_default_opts_def sample_tool_def)
qed

text \<open>
  C6. \<^verbatim>\<open>ml_realloc\<close> keeps the contents. When it moves a block, it returns the allocator's address, and
  the new block starts with the bytes of the old one, as many as the smaller of the two sizes;
  the old size is the requested one when the block is tracked. The allocator must leave live
  blocks alone.
\<close>

theorem realloc_keeps_contents:
  assumes "\<not> pe_xml (te_pe te)" "tool_rel te opts t st sp" "answers_ok st an" "\<not> clo_mx_round (t_ml opts)"
    "realloc_moves opts an p_old new_szB" "can_move an st p_old new_szB"
    "pred_option (\<lambda>(st', p). answers_ok st' an') (ml_malloc te an st (req_size new_szB))"
    and p: "p_new = new_ptr an new_szB ML_MALLOC_ALIGNMENT"
    and n: "n = unat (min (case spec_at (sp_blocks sp) p_old of Some (k, sz) \<Rightarrow> sz | None \<Rightarrow> an_usable an p_old) (req_size new_szB))"
    and grow: "\<forall>i<n. an_grow an ML_MALLOC_ALIGNMENT (req_size new_szB) (ts_mem st) (p_old + of_nat i) = ts_mem st (p_old + of_nat i)"
    and free: "\<forall>m. \<forall>i<n. an_free an' p_old m (p_new + of_nat i) = m (p_new + of_nat i)"
  shows "\<exists>st'. ml_realloc te an an' st p_old new_szB = Some (st', p_new) \<and>
     (\<forall>i<n. ts_mem st' (p_new + of_nat i) = ts_mem st (p_old + of_nat i))"
proof -
  have c: "realloc_copy an st p_old new_szB = n" unfolding realloc_copy_def realloc_size_ok [OF assms(2)] n by simp
  let ?m = "new_mem an new_szB ML_MALLOC_ALIGNMENT False (ts_mem st)"
  have p0: "p_new \<noteq> 0" using assms(5) by (simp add: realloc_moves_def p)
  then have m: "mapped ?m p_old n" "?m = an_grow an ML_MALLOC_ALIGNMENT (req_size new_szB) (ts_mem st)"
    using assms(6) by (simp_all add: can_move_def c p Let_def new_mem_def)
  have n64: "n < 2 ^ 64" unfolding n by (rule unat64_less)
  have "moved_mem an an' st p_old new_szB (p_new + of_nat i) = ts_mem st (p_old + of_nat i)" if i: "i < n" for i
  proof -
    have "moved_mem an an' st p_old new_szB (p_new + of_nat i) = over ?m p_new (bytes_at ?m p_old n) (p_new + of_nat i)"
      using free i by (simp add: moved_mem_def c p Let_def)
    also have "\<dots> = Some (the (?m (p_old + of_nat i)))" using i n64 by (simp add: over_def bytes_at_def)
    also have "\<dots> = ?m (p_old + of_nat i)" using m(1) i by (auto simp: mapped_def)
    finally show ?thesis using m(2) grow i by simp
  qed
  with realloc_move_ok [OF assms(1-4) _ _ _ assms(6,7)] assms(5) show ?thesis by (auto simp: realloc_moves_def p)
qed

theorem realloc_keeps_contents_witness:
  "\<exists>st'. ml_realloc sample_env sample_answers sample_answers sample_tool 256 4 = Some (st', 4096) \<and>
     (\<forall>i<4. ts_mem st' (4096 + of_nat i) = ts_mem sample_tool (256 + of_nat i))"
proof -
  have a: "an_grow sample_answers al sz mm = mm" "an_free sample_answers p mm = mm" "an_usable sample_answers p = 8"
    "new_ptr sample_answers 4 al = 4096" for al sz p mm by (simp_all add: sample_answers_def new_ptr_def)
  have m: "ts_mem sample_tool = sample_mem" by (simp add: sample_tool_def ml_initial_def)
  have 1: "\<not> pe_xml (te_pe sample_env)" "\<not> clo_mx_round (t_ml sample_opts)"
    by (simp_all add: sample_env_def sample_opts_def ml_default_opts_def)
  have 2: "tool_rel sample_env sample_opts [] sample_tool spec_initial"
    unfolding sample_tool_def by (rule initial_rel [OF sample_printing])
  have 3: "realloc_moves sample_opts sample_answers 256 4" by (simp add: realloc_moves_def a)
  have s: "spec_at (sp_blocks spec_initial) 256 = None" by (simp add: spec_initial_def spec_at_def)
  have n: "4 = unat (min (case spec_at (sp_blocks spec_initial) 256 of Some (k, sz) \<Rightarrow> sz | None \<Rightarrow> an_usable sample_answers 256)
      (req_size 4))" by (simp add: s a req_size_def min_def)
  then have c: "realloc_copy sample_answers sample_tool 256 4 = 4" by (simp add: realloc_copy_def realloc_size_ok [OF 2])
  have 4: "can_move sample_answers sample_tool 256 4"
    by (simp add: can_move_def c a new_mem_def m Let_def)
  have "ml_malloc sample_env sample_answers sample_tool 4 = Some (sample_tool, 4096)"
    by (simp add: ml_malloc_def new_block_def sample_answers_def sample_tool_def ml_initial_def sample_opts_def)
  then have 5: "pred_option (\<lambda>(st', p). answers_ok st' sample_answers) (ml_malloc sample_env sample_answers sample_tool (req_size 4))"
    using sample_answers_ok(1) by (simp add: req_size_def)
  show ?thesis
    by (rule realloc_keeps_contents [OF 1(1) 2 sample_answers_ok(1) 1(2) 3 4 5 _ n]) (simp_all add: a)
qed

text \<open>
  C7. A second request to track the same start address leaks. The new \<^verbatim>\<open>Block\<close> is not entered into
  the tree, since the address is there already: the tracked ranges are unchanged although an
  allocation with the new size is logged, and the block is still allocated when the tool has
  released the tree.
\<close>

theorem track_twice_leaks:
  assumes "\<not> pe_xml (te_pe te)" "\<not> clo_mx_round (t_ml opts)" "tool_rel te opts t st sp" "answers_ok st an"
    "(addr, sz) \<in> set (sp_blocks sp)" "arg 0 = USERREQ_TRACK_BLOCK" "arg 1 = addr" "arg 2 > 0"
  shows "\<exists>st1 st2. ml_handle_client_request te an st arg = Some (st1, Some 0, True) \<and>
     tool_rel te opts t st1 (sp\<lparr>sp_events := sp_events sp @ [EvAlloc addr (arg 2) (Some (trace_of an))]\<rparr>) \<and>
     ml_fini te st1 = Some st2 \<and> tracked_blocks (ts_blocks st2) = RB_ROOT \<and> blks (ts_blocks st2) (an_bk an) \<noteq> None"
proof -
  from track_es [OF assms(1,3,4), of "\<lambda>ps. Some (False, ps)" addr "arg 2"] obtain st1 es where
    t: "track_block te an st addr (arg 2) (\<lambda>ps. Some (False, ps)) = Some st1"
    "tool_rel te opts t st1 (spec_track (trace_of an) addr (arg 2) sp)" "blks (ts_blocks st1) (an_bk an) \<noteq> None"
    "map fst es = map fst (sp_blocks sp)" "an_bk an \<notin> snd ` set es" "holds_blocks (ts_blocks st1) (ins_entry addr (an_bk an) es)"
    by blast
  have so: "skeys (sp_blocks sp)" using assms(3) holds_sorted unfolding tool_rel_def by (auto simp: map_fst_pairs simp del: map_map)
  have "addr \<in> set (map fst es)" unfolding t(4) using assms(5) by force
  then have e: "ins_entry addr (an_bk an) es = es" using so unfolding t(4) [symmetric] set_map by (intro ins_entry_present)
  have "ins_entry addr (arg 2) (sp_blocks sp) = sp_blocks sp" using so assms(5) by (intro ins_entry_present) force+
  then have r: "tool_rel te opts t st1 (sp\<lparr>sp_events := sp_events sp @ [EvAlloc addr (arg 2) (Some (trace_of an))]\<rparr>)"
    using t(2) by (simp add: spec_track_def)
  from fini_ok [OF assms(1,2) r] t(3,5,6) obtain st2 where "ml_fini te st1 = Some st2" "tracked_blocks (ts_blocks st2) = RB_ROOT"
    "blks (ts_blocks st2) (an_bk an) \<noteq> None" by (auto simp: e without_def)
  with t(1) r assms(6-8) show ?thesis by (auto simp: ml_handle_client_request_def)
qed


definition sample_tracking :: tool_state where
  "sample_tracking = sample_tool\<lparr>ts_blocks := sample_blocks\<rparr>"

lemma sample_tracking_rel:
  "tool_rel sample_env sample_opts [] sample_tracking \<lparr>sp_blocks = [(100, 50), (120, 10), (200, 10)], sp_events = []\<rparr>"
  using initial_rel [OF sample_printing, of sample_env sample_opts sample_mem] sample_holds(1)
  unfolding tool_rel_def sample_tracking_def sample_tool_def [symmetric]
  by (auto simp: spec_initial_def intro!: exI [of _ "[(100, 4), (120, 3), (200, 2)]"]) (simp_all add: sample_holds(2))

definition sample_track :: "nat \<Rightarrow> 64 word" where
  "sample_track i = [USERREQ_TRACK_BLOCK, 100, 80, 0, 0] ! i"

theorem track_twice_leaks_witness:
  "\<exists>st1 st2. ml_handle_client_request sample_env (sample_answers\<lparr>an_node := 7\<rparr>) sample_tracking sample_track = Some (st1, Some 0, True) \<and>
     ml_fini sample_env st1 = Some st2 \<and> tracked_blocks (ts_blocks st2) = RB_ROOT \<and> blks (ts_blocks st2) 1 \<noteq> None"
proof -
  have "nodes (tracked_blocks sample_blocks) 7 = None" by code_simp
  then have "answers_ok sample_tracking (sample_answers\<lparr>an_node := 7\<rparr>)"
    using sample_answers_ok(1) by (simp add: answers_ok_def sample_tracking_def sample_holds(2) sample_answers_def)
  moreover have "\<not> pe_xml (te_pe sample_env)" "\<not> clo_mx_round (t_ml sample_opts)" "an_bk sample_answers = 1"
    by (simp_all add: sample_env_def sample_opts_def ml_default_opts_def sample_answers_def)
  ultimately show ?thesis
    using track_twice_leaks [OF _ _ sample_tracking_rel, of "sample_answers\<lparr>an_node := 7\<rparr>" 100 50 sample_track]
    by (auto simp: sample_track_def)
qed

end
