(* ===== verification/Ml_Instrument.thy ===== *)
theory Ml_Instrument
  imports Vex_Extend Ml_Tool
begin

text \<open>
  Instrumentation of \<^verbatim>\<open>memlog/ml_main.c\<close>: \<^verbatim>\<open>wire_log_store\<close>, \<^verbatim>\<open>wire_memlog\<close>, \<^verbatim>\<open>wire_mx\<close> and \<^verbatim>\<open>ml_instrument\<close>
  on the blocks of \<open>Vex_IR\<close>. \<open>fn\<close> gives the addresses of the helper functions. Blocks that pass the
  sanity check are instrumented without a panic, and the result is checked again.
\<close>

section \<open>Operations\<close>

definition new_temp :: "IRSB \<Rightarrow> IRType \<Rightarrow> (IRSB \<times> IRTemp) option" where
  "new_temp bb ty = do {
     (env, t) \<leftarrow> newIRTemp (tyenv bb) ty;
     Some (bb\<lparr>tyenv := env\<rparr>, t)
   }"

definition wire_log_store ::
  "(string \<Rightarrow> 64 word) \<Rightarrow> IRSB \<Rightarrow> IRTemp \<Rightarrow> IRExpr \<Rightarrow> IRTemp \<Rightarrow> IRExpr \<Rightarrow> IRSB option" where
  "wire_log_store fn bb_out addr_tmp addr data_tmp data_widen = do {
     bb_out \<leftarrow> addStmtToIRSB bb_out (Some (Ist_WrTmp addr_tmp addr));
     bb_out \<leftarrow> addStmtToIRSB bb_out (Some (Ist_WrTmp data_tmp data_widen));
     dirty \<leftarrow> unsafeIRDirty_0_N 2 (Some ''log_store'') (fn ''log_store'')
       (mkIRExprVec_2 (Iex_RdTmp addr_tmp) (Iex_RdTmp data_tmp));
     addStmtToIRSB bb_out (Some (Ist_Dirty dirty))
   }"

text \<open>\<^verbatim>\<open>IRExpr_Binop(Iop_Add64, addr, IRExpr_Const(IRConst_U64(n)))\<close>\<close>

definition plus_const :: "IRExpr \<Rightarrow> 64 word \<Rightarrow> IRExpr" where
  "plus_const addr n = Iex_Binop Iop_Add64 addr (Iex_Const (Ico_U64 n))"

definition wire_store ::
  "(string \<Rightarrow> 64 word) \<Rightarrow> (nat \<Rightarrow> primop_type option) \<Rightarrow> IRTypeEnv \<Rightarrow> IRSB \<Rightarrow> IRExpr \<Rightarrow> IRExpr \<Rightarrow> IRSB option" where
  "wire_store fn po env_in bb_out addr dat = do {
     (bb_out, addr_tmp) \<leftarrow> new_temp bb_out Ity_I64;
     (bb_out, data_tmp) \<leftarrow> new_temp bb_out Ity_I64;
     (bb_out, addr_tmp1) \<leftarrow> new_temp bb_out Ity_I64;
     (bb_out, data_tmp1) \<leftarrow> new_temp bb_out Ity_I64;
     (bb_out, addr_tmp2) \<leftarrow> new_temp bb_out Ity_I64;
     (bb_out, data_tmp2) \<leftarrow> new_temp bb_out Ity_I64;
     (bb_out, addr_tmp3) \<leftarrow> new_temp bb_out Ity_I64;
     (bb_out, data_tmp3) \<leftarrow> new_temp bb_out Ity_I64;
     ty \<leftarrow> typeOfIRExpr po env_in dat;
     case ty of
       Ity_I1 \<Rightarrow> wire_log_store fn bb_out addr_tmp addr data_tmp (Iex_Unop Iop_1Uto64 dat)
     | Ity_I8 \<Rightarrow> wire_log_store fn bb_out addr_tmp addr data_tmp (Iex_Unop Iop_8Uto64 dat)
     | Ity_I16 \<Rightarrow> wire_log_store fn bb_out addr_tmp addr data_tmp (Iex_Unop Iop_16Uto64 dat)
     | Ity_I32 \<Rightarrow> wire_log_store fn bb_out addr_tmp addr data_tmp (Iex_Unop Iop_32Uto64 dat)
     | Ity_I64 \<Rightarrow> wire_log_store fn bb_out addr_tmp addr data_tmp dat
     | Ity_F32 \<Rightarrow> wire_log_store fn bb_out addr_tmp addr data_tmp
         (Iex_Unop Iop_32Uto64 (Iex_Unop Iop_ReinterpF32asI32 dat))
     | Ity_F64 \<Rightarrow> wire_log_store fn bb_out addr_tmp addr data_tmp (Iex_Unop Iop_ReinterpF64asI64 dat)
     | Ity_V128 \<Rightarrow> do {
         bb_out \<leftarrow> wire_log_store fn bb_out addr_tmp addr data_tmp (Iex_Unop Iop_V128HIto64 dat);
         wire_log_store fn bb_out addr_tmp1 (plus_const addr 8) data_tmp1 (Iex_Unop Iop_V128to64 dat)
       }
     | Ity_I128 \<Rightarrow> do {
         bb_out \<leftarrow> wire_log_store fn bb_out addr_tmp addr data_tmp (Iex_Unop Iop_128HIto64 dat);
         wire_log_store fn bb_out addr_tmp1 (plus_const addr 8) data_tmp1 (Iex_Unop Iop_128to64 dat)
       }
     | Ity_F128 \<Rightarrow> do {
         bb_out \<leftarrow> wire_log_store fn bb_out addr_tmp addr data_tmp
           (Iex_Unop Iop_ReinterpF64asI64 (Iex_Unop Iop_F128HItoF64 dat));
         wire_log_store fn bb_out addr_tmp1 (plus_const addr 8) data_tmp1
           (Iex_Unop Iop_ReinterpF64asI64 (Iex_Unop Iop_F128LOtoF64 dat))
       }
     | Ity_D128 \<Rightarrow> do {
         bb_out \<leftarrow> wire_log_store fn bb_out addr_tmp addr data_tmp
           (Iex_Unop Iop_ReinterpD64asI64 (Iex_Unop Iop_D128HItoD64 dat));
         wire_log_store fn bb_out addr_tmp1 (plus_const addr 8) data_tmp1
           (Iex_Unop Iop_ReinterpD64asI64 (Iex_Unop Iop_D128LOtoD64 dat))
       }
     | Ity_V256 \<Rightarrow> do {
         bb_out \<leftarrow> wire_log_store fn bb_out addr_tmp addr data_tmp (Iex_Unop Iop_V256to64_3 dat);
         bb_out \<leftarrow> wire_log_store fn bb_out addr_tmp1 (plus_const addr 8) data_tmp1 (Iex_Unop Iop_V256to64_2 dat);
         bb_out \<leftarrow> wire_log_store fn bb_out addr_tmp2 (plus_const addr 16) data_tmp2 (Iex_Unop Iop_V256to64_1 dat);
         wire_log_store fn bb_out addr_tmp3 (plus_const addr 24) data_tmp3 (Iex_Unop Iop_V256to64_0 dat)
       }
     | Ity_F16 \<Rightarrow> Some bb_out
     | Ity_D32 \<Rightarrow> Some bb_out
     | Ity_D64 \<Rightarrow> Some bb_out
     | Ity_INVALID \<Rightarrow> Some bb_out
   }"

fun wire_memlog_stmt ::
  "(string \<Rightarrow> 64 word) \<Rightarrow> (nat \<Rightarrow> primop_type option) \<Rightarrow> IRTypeEnv \<Rightarrow> IRSB \<Rightarrow> IRStmt option \<Rightarrow> IRSB option" where
  "wire_memlog_stmt fn po env_in bb_out None = Some bb_out"
| "wire_memlog_stmt fn po env_in bb_out (Some stmt) = do {
     bb_out \<leftarrow> (case stmt of Ist_Store e addr dat \<Rightarrow> wire_store fn po env_in bb_out addr dat | _ \<Rightarrow> Some bb_out);
     addStmtToIRSB bb_out (Some stmt)
   }"

fun wire_loop :: "(IRSB \<Rightarrow> IRStmt option \<Rightarrow> IRSB option) \<Rightarrow> IRSB \<Rightarrow> IRStmt option list \<Rightarrow> IRSB option" where
  "wire_loop f bb_out [] = Some bb_out"
| "wire_loop f bb_out (s # ss) = do {
     bb_out \<leftarrow> f bb_out s;
     wire_loop f bb_out ss
   }"

definition wire_memlog :: "(string \<Rightarrow> 64 word) \<Rightarrow> (nat \<Rightarrow> primop_type option) \<Rightarrow> IRSB \<Rightarrow> IRSB option" where
  "wire_memlog fn po bb_in = do {
     bb_out \<leftarrow> deepCopyIRSBExceptStmts bb_in;
     wire_loop (wire_memlog_stmt fn po (tyenv bb_in)) bb_out (stmts bb_in)
   }"

fun wire_mx_stmt ::
  "(string \<Rightarrow> 64 word) \<Rightarrow> (nat \<Rightarrow> primop_type option) \<Rightarrow> IRTypeEnv \<Rightarrow> IRSB \<Rightarrow> IRStmt option \<Rightarrow> IRSB option" where
  "wire_mx_stmt fn po env_in bb_out None = Some bb_out"
| "wire_mx_stmt fn po env_in bb_out (Some (Ist_Store e addr dat)) = do {
     (bb_out, addr_tmp) \<leftarrow> new_temp bb_out Ity_I64;
     bb_out \<leftarrow> addStmtToIRSB bb_out (Some (Ist_WrTmp addr_tmp addr));
     bb_out \<leftarrow> addStmtToIRSB bb_out (Some (Ist_Store e (Iex_RdTmp addr_tmp) dat));
     ty \<leftarrow> typeOfIRExpr po env_in dat;
     sz \<leftarrow> sizeofIRType ty;
     (bb_out, lo_tmp) \<leftarrow> new_temp bb_out Ity_I64;
     bb_out \<leftarrow> addStmtToIRSB bb_out (Some (Ist_WrTmp lo_tmp
       (Iex_Binop Iop_Sub64 (Iex_RdTmp addr_tmp) (Iex_Const (Ico_U64 256)))));
     d \<leftarrow> unsafeIRDirty_0_N 2 (Some ''mx_after_store'') (fn ''mx_after_store'')
       (mkIRExprVec_2 (Iex_RdTmp addr_tmp) (Iex_Const (Ico_U64 (word_of_int sz))));
     addStmtToIRSB bb_out (Some (Ist_Dirty (d\<lparr>d_mFx := Ifx_Modify, d_mAddr := Some (Iex_RdTmp lo_tmp), d_mSize := 512 + sz\<rparr>)))
   }"
| "wire_mx_stmt fn po env_in bb_out (Some stmt) = addStmtToIRSB bb_out (Some stmt)"

definition wire_mx :: "(string \<Rightarrow> 64 word) \<Rightarrow> (nat \<Rightarrow> primop_type option) \<Rightarrow> IRSB \<Rightarrow> IRSB option" where
  "wire_mx fn po bb_in = do {
     bb_out \<leftarrow> deepCopyIRSBExceptStmts bb_in;
     wire_loop (wire_mx_stmt fn po (tyenv bb_in)) bb_out (stmts bb_in)
   }"

definition ml_instrument :: "ml_opts \<Rightarrow> (string \<Rightarrow> 64 word) \<Rightarrow> (nat \<Rightarrow> primop_type option) \<Rightarrow> IRSB \<Rightarrow> IRSB option" where
  "ml_instrument opts fn po bb_in = (if clo_mx_round opts then wire_mx fn po bb_in else wire_memlog fn po bb_in)"

section \<open>What is emitted\<close>

text \<open>The address and the value of each call of \<^verbatim>\<open>log_store\<close> for a store, by the type of its data.\<close>

fun pieces :: "IRType \<Rightarrow> IRExpr \<Rightarrow> IRExpr \<Rightarrow> (IRExpr \<times> IRExpr) list" where
  "pieces Ity_I1 a d = [(a, Iex_Unop Iop_1Uto64 d)]"
| "pieces Ity_I8 a d = [(a, Iex_Unop Iop_8Uto64 d)]"
| "pieces Ity_I16 a d = [(a, Iex_Unop Iop_16Uto64 d)]"
| "pieces Ity_I32 a d = [(a, Iex_Unop Iop_32Uto64 d)]"
| "pieces Ity_I64 a d = [(a, d)]"
| "pieces Ity_F32 a d = [(a, Iex_Unop Iop_32Uto64 (Iex_Unop Iop_ReinterpF32asI32 d))]"
| "pieces Ity_F64 a d = [(a, Iex_Unop Iop_ReinterpF64asI64 d)]"
| "pieces Ity_V128 a d = [(a, Iex_Unop Iop_V128HIto64 d), (plus_const a 8, Iex_Unop Iop_V128to64 d)]"
| "pieces Ity_I128 a d = [(a, Iex_Unop Iop_128HIto64 d), (plus_const a 8, Iex_Unop Iop_128to64 d)]"
| "pieces Ity_F128 a d =
     [(a, Iex_Unop Iop_ReinterpF64asI64 (Iex_Unop Iop_F128HItoF64 d)),
      (plus_const a 8, Iex_Unop Iop_ReinterpF64asI64 (Iex_Unop Iop_F128LOtoF64 d))]"
| "pieces Ity_D128 a d =
     [(a, Iex_Unop Iop_ReinterpD64asI64 (Iex_Unop Iop_D128HItoD64 d)),
      (plus_const a 8, Iex_Unop Iop_ReinterpD64asI64 (Iex_Unop Iop_D128LOtoD64 d))]"
| "pieces Ity_V256 a d =
     [(a, Iex_Unop Iop_V256to64_3 d), (plus_const a 8, Iex_Unop Iop_V256to64_2 d),
      (plus_const a 16, Iex_Unop Iop_V256to64_1 d), (plus_const a 24, Iex_Unop Iop_V256to64_0 d)]"
| "pieces Ity_F16 a d = []"
| "pieces Ity_D32 a d = []"
| "pieces Ity_D64 a d = []"
| "pieces Ity_INVALID a d = []"

definition helper_call :: "(string \<Rightarrow> 64 word) \<Rightarrow> string \<Rightarrow> IRExpr list \<Rightarrow> IRDirty" where
  "helper_call fn name args = emptyIRDirty\<lparr>d_cee := Some \<lparr>ce_regparms = 2, ce_name = Some name, ce_addr = fn name, ce_mcx_mask = 0\<rparr>,
     d_guard := Some (Iex_Const (Ico_U1 True)), d_args := Some args\<rparr>"

fun log_pieces :: "(string \<Rightarrow> 64 word) \<Rightarrow> nat \<Rightarrow> (IRExpr \<times> IRExpr) list \<Rightarrow> IRStmt list" where
  "log_pieces fn n [] = []"
| "log_pieces fn n ((a, d) # ps) =
     Ist_WrTmp n a # Ist_WrTmp (n + 1) d #
     Ist_Dirty (helper_call fn ''log_store'' [Iex_RdTmp n, Iex_RdTmp (n + 1)]) # log_pieces fn (n + 2) ps"

text \<open>The statements for a statement, and how many temporaries they take.\<close>

fun memlog_emits :: "(string \<Rightarrow> 64 word) \<Rightarrow> (IRExpr \<Rightarrow> IRType option) \<Rightarrow> nat \<Rightarrow> IRStmt \<Rightarrow> IRStmt list" where
  "memlog_emits fn ty n (Ist_Store e a d) = log_pieces fn n (pieces (the (ty d)) a d) @ [Ist_Store e a d]"
| "memlog_emits fn ty n s = [s]"

fun memlog_temps :: "IRStmt \<Rightarrow> nat" where
  "memlog_temps (Ist_Store e a d) = 8"
| "memlog_temps s = 0"

definition mx_call :: "(string \<Rightarrow> 64 word) \<Rightarrow> nat \<Rightarrow> int \<Rightarrow> IRDirty" where
  "mx_call fn n sz = (helper_call fn ''mx_after_store'' [Iex_RdTmp n, Iex_Const (Ico_U64 (word_of_int sz))])
     \<lparr>d_mFx := Ifx_Modify, d_mAddr := Some (Iex_RdTmp (n + 1)), d_mSize := 512 + sz\<rparr>"

fun mx_emits :: "(string \<Rightarrow> 64 word) \<Rightarrow> (IRExpr \<Rightarrow> IRType option) \<Rightarrow> nat \<Rightarrow> IRStmt \<Rightarrow> IRStmt list" where
  "mx_emits fn ty n (Ist_Store e a d) =
     [Ist_WrTmp n a, Ist_Store e (Iex_RdTmp n) d,
      Ist_WrTmp (n + 1) (Iex_Binop Iop_Sub64 (Iex_RdTmp n) (Iex_Const (Ico_U64 256))),
      Ist_Dirty (mx_call fn n (the (sizeofIRType (the (ty d)))))]"
| "mx_emits fn ty n s = [s]"

fun mx_temps :: "IRStmt \<Rightarrow> nat" where
  "mx_temps (Ist_Store e a d) = 2"
| "mx_temps s = 0"

fun emits_all :: "(nat \<Rightarrow> IRStmt \<Rightarrow> IRStmt list) \<Rightarrow> (IRStmt \<Rightarrow> nat) \<Rightarrow> nat \<Rightarrow> IRStmt list \<Rightarrow> IRStmt list" where
  "emits_all em k n [] = []"
| "emits_all em k n (s # ss) = em n s @ emits_all em k (n + k s) ss"


section \<open>Blocks that grow\<close>

definition sb_ok :: "IRSB \<Rightarrow> bool" where
  "sb_ok bb \<longleftrightarrow> 8 \<le> stmts_size bb \<and> length (stmts bb) \<le> stmts_size bb \<and> length (types (tyenv bb)) \<le> types_size (tyenv bb)"

definition grows :: "IRSB \<Rightarrow> IRSB \<Rightarrow> IRStmt list \<Rightarrow> IRType list \<Rightarrow> bool" where
  "grows bb bb' ss ts \<longleftrightarrow> stmts bb' = stmts bb @ map Some ss \<and> types (tyenv bb') = types (tyenv bb) @ ts \<and>
     sb_next bb' = sb_next bb \<and> jumpkind bb' = jumpkind bb \<and> offsIP bb' = offsIP bb \<and> sb_ok bb'"

abbreviation used_temps :: "IRSB \<Rightarrow> nat" where
  "used_temps bb \<equiv> length (types (tyenv bb))"

lemma grows_trans: "grows bb bb1 ss ts \<Longrightarrow> grows bb1 bb2 ss' ts' \<Longrightarrow> grows bb bb2 (ss @ ss') (ts @ ts')"
  by (simp add: grows_def)

lemma grows_ok: "grows bb bb' ss ts \<Longrightarrow> sb_ok bb'"
  by (simp add: grows_def)

lemma grows_refl: "sb_ok bb \<Longrightarrow> grows bb bb [] []"
  by (simp add: grows_def)

lemma add_grows: "sb_ok bb \<Longrightarrow> \<exists>bb'. addStmtToIRSB bb (Some s) = Some bb' \<and> grows bb bb' [s] []"
  by (auto simp: addStmtToIRSB_def grows_def sb_ok_def Let_def)

lemma newIRTemp_ok:
  assumes "length (types env) \<le> types_size env"
  shows "\<exists>sz. newIRTemp env ty = Some (\<lparr>types = types env @ [ty], types_size = sz\<rparr>, length (types env)) \<and> length (types env) < sz"
proof (cases "length (types env) < types_size env")
  case True
  then show ?thesis by (cases env) (simp add: newIRTemp.simps)
next
  case False
  let ?env = "env\<lparr>types_size := (if types_size env = 0 then 8 else 2 * types_size env)\<rparr>"
  have "newIRTemp env ty = newIRTemp ?env ty" using assms False by (subst newIRTemp.simps) simp
  also have "\<dots> = Some (?env\<lparr>types := types ?env @ [ty]\<rparr>, length (types ?env))"
    using assms False by (subst newIRTemp.simps) auto
  finally show ?thesis using assms False by (cases env) auto
qed

lemma new_temp_grows:
  assumes "sb_ok bb"
  shows "\<exists>bb'. new_temp bb ty = Some (bb', used_temps bb) \<and> grows bb bb' [] [ty] \<and> used_temps bb' = Suc (used_temps bb)"
  using newIRTemp_ok [of "tyenv bb" ty] assms by (auto simp: new_temp_def sb_ok_def grows_def)

text \<open>
  \<open>emitting f ss\<close>: from every block with enough room in its arrays, \<open>f\<close> returns it with \<open>ss\<close> appended.
\<close>

definition emitting :: "(IRSB \<Rightarrow> IRSB option) \<Rightarrow> IRStmt list \<Rightarrow> bool" where
  "emitting f ss \<longleftrightarrow> (\<forall>bb. sb_ok bb \<longrightarrow> (\<exists>bb'. f bb = Some bb' \<and> grows bb bb' ss []))"

lemma emitting_seq: "emitting f ss \<Longrightarrow> emitting g ts \<Longrightarrow> emitting (\<lambda>bb. f bb \<bind> g) (ss @ ts)"
  unfolding emitting_def using grows_trans grows_ok by (metis append_Nil2 bind.bind_lunit)

lemma emitting_none: "emitting Some []"
  by (simp add: emitting_def grows_refl)

lemma emitting_add: "emitting (\<lambda>bb. addStmtToIRSB bb (Some s)) [s]"
  using add_grows by (simp add: emitting_def)

lemma unsafeIRDirty_ok:
  "fn name \<noteq> 0 \<Longrightarrow> unsafeIRDirty_0_N 2 (Some name) (fn name) args = Some (helper_call fn name args)"
  by (simp add: unsafeIRDirty_0_N_def mkIRCallee_def helper_call_def)

lemma emitting_log:
  assumes "fn ''log_store'' \<noteq> 0"
  shows "emitting (\<lambda>bb. wire_log_store fn bb n a (n + 1) d) (log_pieces fn n [(a, d)])"
proof -
  have "emitting (\<lambda>bb. addStmtToIRSB bb (Some (Ist_WrTmp n a)) \<bind> (\<lambda>bb. addStmtToIRSB bb (Some (Ist_WrTmp (n + 1) d)) \<bind>
      (\<lambda>bb. addStmtToIRSB bb (Some (Ist_Dirty (helper_call fn ''log_store'' [Iex_RdTmp n, Iex_RdTmp (n + 1)]))))))
      ([Ist_WrTmp n a] @ [Ist_WrTmp (n + 1) d] @ [Ist_Dirty (helper_call fn ''log_store'' [Iex_RdTmp n, Iex_RdTmp (n + 1)])])"
    by (intro emitting_seq emitting_add)
  then show ?thesis by (simp add: wire_log_store_def unsafeIRDirty_ok assms mkIRExprVec_2_def)
qed

lemma log_pieces_append: "log_pieces fn n (ps @ qs) = log_pieces fn n ps @ log_pieces fn (n + 2 * length ps) qs"
  by (induction ps arbitrary: n) auto


lemma emitting_logs:
  assumes "fn ''log_store'' \<noteq> 0"
  shows "emitting (\<lambda>bb. wire_log_store fn bb n a (n + 1) d) (log_pieces fn n [(a, d)])"
    "emitting (\<lambda>bb. wire_log_store fn bb n a (n + 1) d \<bind> (\<lambda>bb. wire_log_store fn bb (n + 2) a' (n + 3) d'))
       (log_pieces fn n [(a, d), (a', d')])"
    "emitting (\<lambda>bb. wire_log_store fn bb n a (n + 1) d \<bind> (\<lambda>bb. wire_log_store fn bb (n + 2) a' (n + 3) d' \<bind>
       (\<lambda>bb. wire_log_store fn bb (n + 4) a2 (n + 5) d2 \<bind> (\<lambda>bb. wire_log_store fn bb (n + 6) a3 (n + 7) d3))))
       (log_pieces fn n [(a, d), (a', d'), (a2, d2), (a3, d3)])"
proof -
  note l = emitting_log [of fn, OF assms]
  show "emitting (\<lambda>bb. wire_log_store fn bb n a (n + 1) d) (log_pieces fn n [(a, d)])" by (rule l)
  show "emitting (\<lambda>bb. wire_log_store fn bb n a (n + 1) d \<bind> (\<lambda>bb. wire_log_store fn bb (n + 2) a' (n + 3) d'))
       (log_pieces fn n [(a, d), (a', d')])"
    using emitting_seq [OF l [of n a d] l [of "n + 2" a' d']] by (simp add: eval_nat_numeral)
  show "emitting (\<lambda>bb. wire_log_store fn bb n a (n + 1) d \<bind> (\<lambda>bb. wire_log_store fn bb (n + 2) a' (n + 3) d' \<bind>
       (\<lambda>bb. wire_log_store fn bb (n + 4) a2 (n + 5) d2 \<bind> (\<lambda>bb. wire_log_store fn bb (n + 6) a3 (n + 7) d3))))
       (log_pieces fn n [(a, d), (a', d'), (a2, d2), (a3, d3)])"
    using emitting_seq [OF l [of n a d] emitting_seq [OF l [of "n + 2" a' d']
          emitting_seq [OF l [of "n + 4" a2 d2] l [of "n + 6" a3 d3]]]] by (simp add: eval_nat_numeral)
qed

lemma eight_temps:
  assumes "sb_ok bb"
  defines "n \<equiv> used_temps bb"
  shows "\<exists>b1 b2 b3 b4 b5 b6 b7 b8. new_temp bb Ity_I64 = Some (b1, n) \<and> new_temp b1 Ity_I64 = Some (b2, n + 1) \<and>
     new_temp b2 Ity_I64 = Some (b3, n + 2) \<and> new_temp b3 Ity_I64 = Some (b4, n + 3) \<and> new_temp b4 Ity_I64 = Some (b5, n + 4) \<and>
     new_temp b5 Ity_I64 = Some (b6, n + 5) \<and> new_temp b6 Ity_I64 = Some (b7, n + 6) \<and> new_temp b7 Ity_I64 = Some (b8, n + 7) \<and>
     grows bb b8 [] (replicate 8 Ity_I64)"
proof -
  obtain b1 where 1: "new_temp bb Ity_I64 = Some (b1, used_temps bb)" "grows bb b1 [] [Ity_I64]" "used_temps b1 = Suc (used_temps bb)"
    using new_temp_grows [OF assms(1)] by blast
  obtain b2 where 2: "new_temp b1 Ity_I64 = Some (b2, used_temps b1)" "grows b1 b2 [] [Ity_I64]" "used_temps b2 = Suc (used_temps b1)"
    using new_temp_grows [OF grows_ok [OF 1(2)]] by blast
  obtain b3 where 3: "new_temp b2 Ity_I64 = Some (b3, used_temps b2)" "grows b2 b3 [] [Ity_I64]" "used_temps b3 = Suc (used_temps b2)"
    using new_temp_grows [OF grows_ok [OF 2(2)]] by blast
  obtain b4 where 4: "new_temp b3 Ity_I64 = Some (b4, used_temps b3)" "grows b3 b4 [] [Ity_I64]" "used_temps b4 = Suc (used_temps b3)"
    using new_temp_grows [OF grows_ok [OF 3(2)]] by blast
  obtain b5 where 5: "new_temp b4 Ity_I64 = Some (b5, used_temps b4)" "grows b4 b5 [] [Ity_I64]" "used_temps b5 = Suc (used_temps b4)"
    using new_temp_grows [OF grows_ok [OF 4(2)]] by blast
  obtain b6 where 6: "new_temp b5 Ity_I64 = Some (b6, used_temps b5)" "grows b5 b6 [] [Ity_I64]" "used_temps b6 = Suc (used_temps b5)"
    using new_temp_grows [OF grows_ok [OF 5(2)]] by blast
  obtain b7 where 7: "new_temp b6 Ity_I64 = Some (b7, used_temps b6)" "grows b6 b7 [] [Ity_I64]" "used_temps b7 = Suc (used_temps b6)"
    using new_temp_grows [OF grows_ok [OF 6(2)]] by blast
  obtain b8 where 8: "new_temp b7 Ity_I64 = Some (b8, used_temps b7)" "grows b7 b8 [] [Ity_I64]"
    using new_temp_grows [OF grows_ok [OF 7(2)]] by blast
  have "grows bb b8 [] (replicate 8 Ity_I64)"
    using 1(2) 2(2) 3(2) 4(2) 5(2) 6(2) 7(2) 8(2) by (simp add: grows_def eval_nat_numeral)
  moreover have u: "used_temps bb = n" "used_temps b1 = n + 1" "used_temps b2 = n + 2" "used_temps b3 = n + 3" "used_temps b4 = n + 4"
    "used_temps b5 = n + 5" "used_temps b6 = n + 6" "used_temps b7 = n + 7"
    using 1(3) 2(3) 3(3) 4(3) 5(3) 6(3) 7(3) by (simp_all add: n_def)
  ultimately show ?thesis using 1(1) 2(1) 3(1) 4(1) 5(1) 6(1) 7(1) 8(1) unfolding u by blast
qed

lemma wire_store_grows:
  assumes "sb_ok bb" "fn ''log_store'' \<noteq> 0" "typeOfIRExpr po env d = Some ty"
  shows "\<exists>bb'. wire_store fn po env bb a d = Some bb' \<and>
     grows bb bb' (log_pieces fn (used_temps bb) (pieces ty a d)) (replicate 8 Ity_I64)"
proof -
  let ?n = "used_temps bb"
  from eight_temps [OF assms(1)] obtain b1 b2 b3 b4 b5 b6 b7 b8 where
    t: "new_temp bb Ity_I64 = Some (b1, ?n)" "new_temp b1 Ity_I64 = Some (b2, ?n + 1)" "new_temp b2 Ity_I64 = Some (b3, ?n + 2)"
    "new_temp b3 Ity_I64 = Some (b4, ?n + 3)" "new_temp b4 Ity_I64 = Some (b5, ?n + 4)" "new_temp b5 Ity_I64 = Some (b6, ?n + 5)"
    "new_temp b6 Ity_I64 = Some (b7, ?n + 6)" "new_temp b7 Ity_I64 = Some (b8, ?n + 7)"
    and b: "grows bb b8 [] (replicate 8 Ity_I64)" by (elim exE conjE) (rule that)
  note l = emitting_logs [of fn ?n, OF assms(2), unfolded emitting_def, rule_format, OF grows_ok [OF b]]
  have none: "\<exists>bb'. Some b8 = Some bb' \<and> grows b8 bb' (log_pieces fn ?n []) []" using grows_refl [OF grows_ok [OF b]] by simp
  have "\<exists>bb'. wire_store fn po env bb a d = Some bb' \<and> grows b8 bb' (log_pieces fn ?n (pieces ty a d)) []"
    unfolding wire_store_def t bind.bind_lunit prod.case assms(3)
    by (cases ty; simp only: IRType.case pieces.simps; rule l none)
  then show ?thesis using grows_trans [OF b] by fastforce
qed


section \<open>Instrumenting preserves the sanity of blocks\<close>

lemma all_stmts_Some: "all_stmts P (map Some ss) \<longleftrightarrow> (\<forall>s\<in>set ss. P s)"
  by (simp add: all_stmts_def list_all_iff)

lemma stmts_some: "all_stmts P ss \<Longrightarrow> ss = map Some (map the ss)"
  by (induction ss) (auto simp: all_stmts_def split: option.splits)

lemma plausible: "isPlausibleIRType ty"
  by (cases ty) auto

text \<open>
  An instrumenter of statements: for a statement \<open>s\<close> it emits \<open>em n s\<close>, where \<open>n\<close> is the next temporary,
  and takes \<open>k s\<close> temporaries of type \<^verbatim>\<open>Ity_I64\<close>.
\<close>

locale instrumenter =
  fixes f :: "IRSB \<Rightarrow> IRStmt option \<Rightarrow> IRSB option"
    and em :: "nat \<Rightarrow> IRStmt \<Rightarrow> IRStmt list"
    and k :: "IRStmt \<Rightarrow> nat"
    and ok :: "IRStmt \<Rightarrow> bool"
  assumes step_emits: "sb_ok bb \<Longrightarrow> ok s \<Longrightarrow>
    \<exists>bb'. f bb (Some s) = Some bb' \<and> grows bb bb' (em (used_temps bb) s) (replicate (k s) Ity_I64)"
begin

lemma loop_emits:
  "sb_ok bb \<Longrightarrow> \<forall>s\<in>set ss. ok s \<Longrightarrow>
   \<exists>bb'. wire_loop f bb (map Some ss) = Some bb' \<and>
     grows bb bb' (emits_all em k (used_temps bb) ss) (replicate (sum_list (map k ss)) Ity_I64)"
proof (induction ss arbitrary: bb)
  case (Cons s ss)
  obtain b1 where b1: "f bb (Some s) = Some b1" "grows bb b1 (em (used_temps bb) s) (replicate (k s) Ity_I64)"
    using step_emits Cons.prems by fastforce
  moreover have "used_temps b1 = used_temps bb + k s" using b1(2) by (simp add: grows_def)
  ultimately obtain b2 where "wire_loop f b1 (map Some ss) = Some b2"
    "grows b1 b2 (emits_all em k (used_temps bb + k s) ss) (replicate (sum_list (map k ss)) Ity_I64)"
    using Cons.IH [of b1] Cons.prems grows_ok [OF b1(2)] by auto
  with b1 grows_trans [OF b1(2)] show ?case by (auto simp: replicate_add)
qed (simp add: grows_refl)

end

text \<open>
  An instrumenter of a block with type environment \<open>env\<close>: what it emits is typed, and defined before
  it is used, when the statement was; it is flat exactly when \<open>fl s\<close>.
\<close>

locale sane_instrumenter = instrumenter +
  fixes po :: "nat \<Rightarrow> primop_type option" and env :: IRTypeEnv and fl :: "IRStmt \<Rightarrow> bool"
  assumes emits_typed: "tcStmt po env Ity_I64 s \<Longrightarrow> ok s \<Longrightarrow> extends env env' \<Longrightarrow>
      (\<And>i. i < k s \<Longrightarrow> typeOfIRTemp env' (n + i) = Some Ity_I64) \<Longrightarrow> s' \<in> set (em n s) \<Longrightarrow> tcStmt po env' Ity_I64 s'"
    and emits_defined: "ok s \<Longrightarrow> dsim env env' dc dc' n \<Longrightarrow> n + k s \<le> length (types env') \<Longrightarrow>
      useBeforeDef_Stmt env s dc \<Longrightarrow> assignedOnce_Stmt s dc (length (types env)) = Some dc1 \<Longrightarrow>
      \<exists>dc1'. defs_loop env' (map Some (em n s)) dc' = Some dc1' \<and> dsim env env' dc1 dc1' (n + k s)"
    and emits_flat: "isFlatIRStmt s \<Longrightarrow> list_all isFlatIRStmt (em n s) \<longleftrightarrow> fl s"
begin

lemma all_typed:
  "\<forall>s\<in>set ss. tcStmt po env Ity_I64 s \<and> ok s \<Longrightarrow> extends env env' \<Longrightarrow>
   (\<And>i. i < sum_list (map k ss) \<Longrightarrow> typeOfIRTemp env' (n + i) = Some Ity_I64) \<Longrightarrow>
   s' \<in> set (emits_all em k n ss) \<Longrightarrow> tcStmt po env' Ity_I64 s'"
proof (induction ss arbitrary: n)
  case (Cons s ss)
  have "typeOfIRTemp env' (n + k s + i) = Some Ity_I64" if "i < sum_list (map k ss)" for i
    using Cons.prems(3) [of "k s + i"] that by (simp add: add.assoc)
  then show ?case using Cons emits_typed [of s env' n s'] by auto
qed simp

lemma all_defined:
  "\<forall>s\<in>set ss. ok s \<Longrightarrow> dsim env env' dc dc' n \<Longrightarrow> n + sum_list (map k ss) \<le> length (types env') \<Longrightarrow>
   defs_loop env (map Some ss) dc \<noteq> None \<Longrightarrow> defs_loop env' (map Some (emits_all em k n ss)) dc' \<noteq> None"
proof (induction ss arbitrary: n dc dc')
  case (Cons s ss)
  obtain dc1 where d: "useBeforeDef_Stmt env s dc" "assignedOnce_Stmt s dc (length (types env)) = Some dc1"
    "defs_loop env (map Some ss) dc1 \<noteq> None"
    using Cons.prems(4) by (auto split: if_splits bind_splits)
  obtain dc1' where "defs_loop env' (map Some (em n s)) dc' = Some dc1'" "dsim env env' dc1 dc1' (n + k s)"
    using emits_defined [OF _ Cons.prems(2) _ d(1,2)] Cons.prems(1,3) by auto
  with Cons.IH [of dc1 dc1' "n + k s"] d(3) Cons.prems(1,3) show ?case by (auto simp: defs_loop_append)
qed simp

lemma all_flat:
  "\<forall>s\<in>set ss. isFlatIRStmt s \<Longrightarrow> list_all isFlatIRStmt (emits_all em k n ss) \<longleftrightarrow> (\<forall>s\<in>set ss. fl s)"
  by (induction ss arbitrary: n) (auto simp: emits_flat)

lemma copy_ok:
  assumes "sanityCheckIRSB po bb True Ity_I64" "length (types (tyenv bb)) \<le> types_size (tyenv bb)"
  shows "\<exists>bb0. deepCopyIRSBExceptStmts bb = Some bb0 \<and> sb_ok bb0 \<and> stmts bb0 = [] \<and> types (tyenv bb0) = types (tyenv bb) \<and>
     sb_next bb0 = sb_next bb \<and> offsIP bb0 = offsIP bb"
proof -
  obtain e where e: "sb_next bb = Some e" "isIRAtom e" "typeOfIRExpr po (tyenv bb) e = Some Ity_I64"
    using assms(1) by (auto simp: sanityCheckIRSB_def split: option.splits)
  then have "deepCopyIRExpr e = Some e"
    by (cases e rule: isIRAtom.cases) (auto elim!: typeOfIRConst.elims)
  with e(1) assms(2) show ?thesis
    by (simp add: deepCopyIRSBExceptStmts_def deepCopyIRTypeEnv_def emptyIRSB_def sb_ok_def)
qed

lemma instrumented_stmts:
  assumes "sanityCheckIRSB po bb True Ity_I64" "length (types (tyenv bb)) \<le> types_size (tyenv bb)" "tyenv bb = env"
    "all_stmts ok (stmts bb)"
  shows "\<exists>bb'. (deepCopyIRSBExceptStmts bb \<bind> (\<lambda>bb0. wire_loop f bb0 (stmts bb))) = Some bb' \<and>
     stmts bb' = map Some (emits_all em k (length (types env)) (map the (stmts bb))) \<and>
     types (tyenv bb') = types env @ replicate (sum_list (map k (map the (stmts bb)))) Ity_I64 \<and>
     sb_next bb' = sb_next bb \<and> offsIP bb' = offsIP bb \<and> sb_ok bb'"
proof -
  note ss = stmts_some [OF assms(4)]
  obtain b0 where b0: "deepCopyIRSBExceptStmts bb = Some b0" "sb_ok b0" "stmts b0 = []" "types (tyenv b0) = types env"
    "sb_next b0 = sb_next bb" "offsIP b0 = offsIP bb" using copy_ok [OF assms(1,2)] assms(3) by auto
  have "\<forall>s\<in>set (map the (stmts bb)). ok s" using assms(4) by (subst (asm) ss) (simp only: all_stmts_Some)
  from loop_emits [OF b0(2) this] ss b0 show ?thesis by (auto simp: grows_def)
qed

lemma instrumented_sane:
  assumes "sanityCheckIRSB po bb True Ity_I64" "length (types (tyenv bb)) \<le> types_size (tyenv bb)" "tyenv bb = env"
    "all_stmts ok (stmts bb)"
  shows "\<exists>bb'. (deepCopyIRSBExceptStmts bb \<bind> (\<lambda>bb0. wire_loop f bb0 (stmts bb))) = Some bb' \<and>
     sanityCheckIRSB po bb' False Ity_I64 \<and> (sanityCheckIRSB po bb' True Ity_I64 \<longleftrightarrow> all_stmts fl (stmts bb))"
proof -
  define ss where "ss = map the (stmts bb)"
  have ss: "stmts bb = map Some ss" using stmts_some [OF assms(4)] by (simp only: ss_def)
  from instrumented_stmts [OF assms] obtain bb' where
    b: "(deepCopyIRSBExceptStmts bb \<bind> (\<lambda>bb0. wire_loop f bb0 (stmts bb))) = Some bb'"
    "stmts bb' = map Some (emits_all em k (length (types env)) ss)"
    "types (tyenv bb') = types env @ replicate (sum_list (map k ss)) Ity_I64" "sb_next bb' = sb_next bb" "offsIP bb' = offsIP bb" "sb_ok bb'"
    by (auto simp: ss_def)
  let ?n = "length (types env)"
  have ok: "\<forall>s\<in>set ss. ok s" using assms(4) by (simp add: ss all_stmts_Some)
  have ext: "extends env (tyenv bb')" using b(3) by (auto simp: extends_def)
  have "typeOfIRTemp (tyenv bb') (?n + i) = Some Ity_I64" if "i < sum_list (map k ss)" for i
    using that by (simp add: typeOfIRTemp_def b(3) nth_append)
  moreover have "\<forall>s\<in>set ss. tcStmt po env Ity_I64 s \<and> ok s"
    using assms(1,3) ok by (simp add: sanityCheckIRSB_def ss all_stmts_Some)
  ultimately have tc: "all_stmts (tcStmt po (tyenv bb') Ity_I64) (stmts bb')"
    using all_typed [OF _ ext] unfolding b(2) all_stmts_Some by blast
  have "dsim env (tyenv bb') (replicate ?n 0) (replicate (length (types (tyenv bb'))) 0) ?n" by (simp add: dsim_def b(3))
  then have df: "defs_loop (tyenv bb') (stmts bb') (replicate (length (types (tyenv bb'))) 0) \<noteq> None"
    using all_defined [OF ok, of "tyenv bb'" "replicate ?n 0" _ ?n] assms(1,3) by (auto simp: b(2,3) sanityCheckIRSB_def ss)
  obtain e where e: "sb_next bb = Some e" "isIRAtom e" "typeOfIRExpr po env e = Some Ity_I64"
    using assms(1,3) by (auto simp: sanityCheckIRSB_def split: option.splits)
  have pl: "list_all isPlausibleIRType (types (tyenv bb'))" using plausible by (simp add: list_all_iff)
  have rest: "sanityCheckIRSB po bb' rf Ity_I64 \<longleftrightarrow> (rf \<longrightarrow> all_stmts isFlatIRStmt (stmts bb'))" for rf
    using tc df pl b(4,5,6) e type_extends [OF ext e(3)] assms(1) by (auto simp: sanityCheckIRSB_def sb_ok_def)
  have "\<forall>s\<in>set ss. isFlatIRStmt s" using assms(1) by (simp add: sanityCheckIRSB_def ss all_stmts_Some)
  from all_flat [OF this] have "all_stmts isFlatIRStmt (stmts bb') \<longleftrightarrow> all_stmts fl (stmts bb)"
    by (simp add: b(2) ss all_stmts_Some list_all_iff)
  with rest b(1) show ?thesis by (auto simp: ss)
qed

end


section \<open>Logging blocks\<close>

lemma pieces_defined:
  "(pa, pd) \<in> set (pieces ty a d) \<Longrightarrow> useBeforeDef_Expr env a dc \<Longrightarrow> useBeforeDef_Expr env d dc \<Longrightarrow>
   useBeforeDef_Expr env pa dc \<and> useBeforeDef_Expr env pd dc"
  by (cases ty) (auto simp: plus_const_def)

lemma pieces_typed:
  assumes "(pa, pd) \<in> set (pieces ty a d)" "tcExpr po env g a" "typeOfIRExpr po env a = Some Ity_I64"
    "tcExpr po env g d" "typeOfIRExpr po env d = Some ty"
  shows "tcExpr po env g pa \<and> typeOfIRExpr po env pa = Some Ity_I64 \<and> tcExpr po env g pd \<and> typeOfIRExpr po env pd = Some Ity_I64"
  using assms by (cases ty) (auto simp: plus_const_def tc_Unop_def tc_Binop_def UNARY_def BINARY_def saneIRConst_def)

lemma pieces_length: "length (pieces ty a d) \<le> 4"
  by (cases ty) auto

definition nested_type :: "IRType \<Rightarrow> bool" where
  "nested_type ty \<longleftrightarrow> ty = Ity_F32 \<or> ty = Ity_F128 \<or> ty = Ity_D128"

lemma atom_flat: "isIRAtom e \<Longrightarrow> isFlat_rhs e"
  by (cases e rule: isIRAtom.cases) auto

lemma pieces_flat:
  "isIRAtom a \<Longrightarrow> isIRAtom d \<Longrightarrow> (\<forall>(pa, pd)\<in>set (pieces ty a d). isFlat_rhs pa \<and> isFlat_rhs pd) \<longleftrightarrow> \<not> nested_type ty"
  by (cases ty) (auto simp: plus_const_def nested_type_def atom_flat)

lemma log_pieces_flat:
  "list_all isFlatIRStmt (log_pieces fn n ps) \<longleftrightarrow> (\<forall>(pa, pd)\<in>set ps. isFlat_rhs pa \<and> isFlat_rhs pd)"
  by (induction ps arbitrary: n)
    (auto simp: isFlat_dirty_def helper_call_def emptyIRDirty_def isIRAtom_or_VECRET_or_GSPTR_def)

lemma helper_typed:
  assumes "fn name \<noteq> 0" "typeOfIRExpr po env a = Some Ity_I64" "typeOfIRExpr po env b = Some Ity_I64"
  shows "tc_Dirty po env g (helper_call fn name [a, b])"
    "mfx \<noteq> Ifx_None \<Longrightarrow> sz \<noteq> 0 \<Longrightarrow> tc_Dirty po env g ((helper_call fn name [a, b])\<lparr>d_mFx := mfx, d_mAddr := Some m, d_mSize := sz\<rparr>)"
proof -
  have "a \<noteq> Iex_VECRET" "a \<noteq> Iex_GSPTR" "b \<noteq> Iex_VECRET" "b \<noteq> Iex_GSPTR" using assms(2,3) by auto
  then have "tc_dirty_args po env Ity_INVALID [a, b] 0 0 0 = Some 0" using assms(2,3) by simp
  then show "tc_Dirty po env g (helper_call fn name [a, b])"
    "mfx \<noteq> Ifx_None \<Longrightarrow> sz \<noteq> 0 \<Longrightarrow> tc_Dirty po env g ((helper_call fn name [a, b])\<lparr>d_mFx := mfx, d_mAddr := Some m, d_mSize := sz\<rparr>)"
    using assms(1)
    by (simp_all add: tc_Dirty_def helper_call_def emptyIRDirty_def saneIRCallee_def saneIRConst_def dirty_retTy_def VEX_N_FXSTATE_def
        del: tc_dirty_args.simps)
qed

lemma log_pieces_typed:
  assumes "fn ''log_store'' \<noteq> 0"
  shows "\<forall>(pa, pd)\<in>set ps. tcExpr po env g pa \<and> typeOfIRExpr po env pa = Some Ity_I64 \<and> tcExpr po env g pd \<and>
      typeOfIRExpr po env pd = Some Ity_I64 \<Longrightarrow>
    (\<And>i. i < 2 * length ps \<Longrightarrow> typeOfIRTemp env (n + i) = Some Ity_I64) \<Longrightarrow>
    s \<in> set (log_pieces fn n ps) \<Longrightarrow> tcStmt po env g s"
proof (induction ps arbitrary: n)
  case (Cons p ps)
  obtain pa pd where p: "p = (pa, pd)" by (cases p)
  have t: "typeOfIRTemp env n = Some Ity_I64" "typeOfIRTemp env (Suc n) = Some Ity_I64"
    using Cons.prems(2) [of 0] Cons.prems(2) [of 1] by simp_all
  have "typeOfIRTemp env (n + 2 + i) = Some Ity_I64" if "i < 2 * length ps" for i
    using Cons.prems(2) [of "2 + i"] that by (simp add: add.assoc)
  then have "s \<in> set (log_pieces fn (n + 2) ps) \<Longrightarrow> tcStmt po env g s" using Cons.IH [of "n + 2"] Cons.prems(1) by simp
  with Cons.prems(1,3) t show ?case by (auto simp: p helper_typed(1) [of fn "''log_store''", OF assms])
qed simp

lemma dsim_mono: "dsim env env' dc dc' n \<Longrightarrow> n \<le> n' \<Longrightarrow> dsim env env' dc dc' n'"
  by (auto simp: dsim_def)

lemma log_pieces_defined:
  "\<forall>(pa, pd)\<in>set ps. useBeforeDef_Expr env pa dc \<and> useBeforeDef_Expr env pd dc \<Longrightarrow>
   dsim env env' dc dc' n \<Longrightarrow> n + 2 * length ps \<le> length (types env') \<Longrightarrow>
   \<exists>dc1'. defs_loop env' (map Some (log_pieces fn n ps)) dc' = Some dc1' \<and> dsim env env' dc dc1' (n + 2 * length ps)"
proof (induction ps arbitrary: n dc')
  case (Cons p ps)
  obtain pa pd where p: "p = (pa, pd)" by (cases p)
  have n: "n < length (types env')" "Suc n < length (types env')" using Cons.prems(3) by auto
  note a = assign_fresh [OF Cons.prems(2) n(1)]
  note b = assign_fresh [OF a(2) n(2)]
  have u: "useBeforeDef_Expr env' pa dc'" "useBeforeDef_Expr env' pd (dc'[n := 1])"
    using use_expr_sim [OF Cons.prems(2)] use_expr_sim [OF a(2)] Cons.prems(1) by (auto simp: p)
  have "useBeforeDef_Temp env' n (dc'[n := 1, Suc n := 1])" using a(3) by (simp add: useBeforeDef_Temp_def)
  with a(1) b(1,3) u
  have "defs_loop env' (map Some (log_pieces fn n (p # ps))) dc' = defs_loop env' (map Some (log_pieces fn (n + 2) ps)) (dc'[n := 1, Suc n := 1])"
    by (simp add: p useBeforeDef_dirty_def helper_call_def emptyIRDirty_def)
  moreover have "dsim env env' dc (dc'[n := 1, Suc n := 1]) (n + 2)" using b(2) by simp
  ultimately show ?case using Cons.IH [of "dc'[n := 1, Suc n := 1]" "n + 2"] Cons.prems(1,3) by auto
qed simp


fun memlog_ok :: "(string \<Rightarrow> 64 word) \<Rightarrow> (nat \<Rightarrow> primop_type option) \<Rightarrow> IRTypeEnv \<Rightarrow> IRStmt \<Rightarrow> bool" where
  "memlog_ok fn po env (Ist_Store e a d) \<longleftrightarrow> fn ''log_store'' \<noteq> 0 \<and> typeOfIRExpr po env d \<noteq> None"
| "memlog_ok fn po env s = True"

fun memlog_flat :: "(nat \<Rightarrow> primop_type option) \<Rightarrow> IRTypeEnv \<Rightarrow> IRStmt \<Rightarrow> bool" where
  "memlog_flat po env (Ist_Store e a d) \<longleftrightarrow> \<not> nested_type (the (typeOfIRExpr po env d))"
| "memlog_flat po env s = True"

lemma memlog_step:
  assumes "sb_ok bb" "memlog_ok fn po env s"
  shows "\<exists>bb'. wire_memlog_stmt fn po env bb (Some s) = Some bb' \<and>
     grows bb bb' (memlog_emits fn (typeOfIRExpr po env) (used_temps bb) s) (replicate (memlog_temps s) Ity_I64)"
proof (cases "\<exists>e a d. s = Ist_Store e a d")
  case True
  then obtain e a d ty where s: "s = Ist_Store e a d" "fn ''log_store'' \<noteq> 0" "typeOfIRExpr po env d = Some ty" using assms(2) by auto
  obtain b1 where b1: "wire_store fn po env bb a d = Some b1"
    "grows bb b1 (log_pieces fn (used_temps bb) (pieces ty a d)) (replicate 8 Ity_I64)"
    using wire_store_grows [of bb fn po env d ty a, OF assms(1) s(2,3)] by blast
  obtain b2 where "addStmtToIRSB b1 (Some s) = Some b2" "grows b1 b2 [s] []" using add_grows [OF grows_ok [OF b1(2)]] by blast
  with grows_trans [OF b1(2)] b1(1) show ?thesis by (fastforce simp: s)
next
  case False
  then have "wire_memlog_stmt fn po env bb (Some s) = addStmtToIRSB bb (Some s)" "memlog_temps s = 0"
    "memlog_emits fn (typeOfIRExpr po env) (used_temps bb) s = [s]" by (cases s; simp)+
  with add_grows [OF assms(1)] show ?thesis by simp
qed

lemma store_cases: "(\<And>e a d. s = Ist_Store e a d \<Longrightarrow> P) \<Longrightarrow> (\<nexists>e a d. s = Ist_Store e a d \<Longrightarrow> P) \<Longrightarrow> P"
  by blast

lemma memlog_emits_other: "\<nexists>e a d. s = Ist_Store e a d \<Longrightarrow> memlog_emits fn ty n s = [s] \<and> memlog_temps s = 0"
  by (cases s) auto

lemma stmt_defined:
  assumes "dsim env env' dc dc' n" "useBeforeDef_Stmt env s dc" "assignedOnce_Stmt s dc (length (types env)) = Some dc1"
  shows "\<exists>dc1'. defs_loop env' [Some s] dc' = Some dc1' \<and> dsim env env' dc1 dc1' n"
  using use_stmt_sim [OF assms(1,2)] assign_stmt_sim [OF assms(1,3)] by auto

lemma memlog_typed:
  assumes t: "tcStmt po env Ity_I64 s" "memlog_ok fn po env s" and x: "extends env env'"
    and i: "\<And>i. i < memlog_temps s \<Longrightarrow> typeOfIRTemp env' (n + i) = Some Ity_I64"
    and s': "s' \<in> set (memlog_emits fn (typeOfIRExpr po env) n s)"
  shows "tcStmt po env' Ity_I64 s'"
proof (cases s rule: store_cases)
  case (1 e a d)
  then obtain ty where ty: "typeOfIRExpr po env d = Some ty" and f: "fn ''log_store'' \<noteq> 0" using t(2) by auto
  have a: "tcExpr po env Ity_I64 a" "typeOfIRExpr po env a = Some Ity_I64" "tcExpr po env Ity_I64 d" using t(1) 1 by simp_all
  have p: "\<forall>(pa, pd)\<in>set (pieces ty a d). tcExpr po env' Ity_I64 pa \<and> typeOfIRExpr po env' pa = Some Ity_I64 \<and>
      tcExpr po env' Ity_I64 pd \<and> typeOfIRExpr po env' pd = Some Ity_I64"
    using pieces_typed [OF _ a ty] tcExpr_extends [OF x] type_extends [OF x] by blast
  have "s' \<in> set (log_pieces fn n (pieces ty a d)) \<or> s' = s" using s' by (auto simp: 1 ty)
  then show ?thesis
  proof
    assume l: "s' \<in> set (log_pieces fn n (pieces ty a d))"
    have "typeOfIRTemp env' (n + j) = Some Ity_I64" if "j < 2 * length (pieces ty a d)" for j
      using i [of j] that pieces_length [of ty a d] by (simp add: 1)
    then show ?thesis by (rule log_pieces_typed [of fn, OF f p _ l])
  qed (use tcStmt_extends [OF x t(1)] in simp)
qed (use s' tcStmt_extends [OF x t(1)] in \<open>auto simp: memlog_emits_other\<close>)

lemma memlog_defined:
  assumes sim: "dsim env env' dc dc' n" and n: "n + memlog_temps s \<le> length (types env')"
    and u: "useBeforeDef_Stmt env s dc" and a: "assignedOnce_Stmt s dc (length (types env)) = Some dc1"
  shows "\<exists>dc1'. defs_loop env' (map Some (memlog_emits fn (typeOfIRExpr po env) n s)) dc' = Some dc1' \<and>
     dsim env env' dc1 dc1' (n + memlog_temps s)"
proof (cases s rule: store_cases)
  case (1 e ea d)
  let ?ps = "pieces (the (typeOfIRExpr po env d)) ea d"
  have l: "length ?ps \<le> 4" by (rule pieces_length)
  have "useBeforeDef_Expr env ea dc" "useBeforeDef_Expr env d dc" using u 1 by simp_all
  then have "\<forall>(pa, pd)\<in>set ?ps. useBeforeDef_Expr env pa dc \<and> useBeforeDef_Expr env pd dc"
    using pieces_defined by blast
  moreover have "n + 2 * length ?ps \<le> length (types env')" using n l by (simp add: 1)
  ultimately obtain dcm where
    m: "defs_loop env' (map Some (log_pieces fn n ?ps)) dc' = Some dcm" "dsim env env' dc dcm (n + 2 * length ?ps)"
    using log_pieces_defined [OF _ sim] by blast
  from stmt_defined [OF m(2) u a] obtain dc1' where "defs_loop env' [Some s] dcm = Some dc1'"
    "dsim env env' dc1 dc1' (n + 2 * length ?ps)" by blast
  with m(1) l dsim_mono [of env env' dc1 dc1' "n + 2 * length ?ps" "n + 8"] show ?thesis
    by (intro exI [of _ dc1']) (simp add: defs_loop_append 1)
qed (use stmt_defined [OF sim u a] in \<open>simp add: memlog_emits_other\<close>)

lemma memlog_flatness:
  "isFlatIRStmt s \<Longrightarrow> list_all isFlatIRStmt (memlog_emits fn (typeOfIRExpr po env) n s) \<longleftrightarrow> memlog_flat po env s"
  using pieces_flat by (cases s) (auto simp: log_pieces_flat)

interpretation mlw: sane_instrumenter "wire_memlog_stmt fn po env" "memlog_emits fn (typeOfIRExpr po env)" memlog_temps
  "memlog_ok fn po env" po env "memlog_flat po env" for fn po env
  by unfold_locales (rule memlog_step memlog_typed memlog_defined memlog_flatness; assumption)+


section \<open>Encoding blocks\<close>

fun mx_ok :: "(string \<Rightarrow> 64 word) \<Rightarrow> (nat \<Rightarrow> primop_type option) \<Rightarrow> IRTypeEnv \<Rightarrow> IRStmt \<Rightarrow> bool" where
  "mx_ok fn po env (Ist_Store e a d) \<longleftrightarrow> fn ''mx_after_store'' \<noteq> 0 \<and>
     (\<exists>ty sz. typeOfIRExpr po env d = Some ty \<and> sizeofIRType ty = Some sz)"
| "mx_ok fn po env s = True"

lemma mx_emits_other: "\<nexists>e a d. s = Ist_Store e a d \<Longrightarrow>
   mx_emits fn ty n s = [s] \<and> mx_temps s = 0 \<and> wire_mx_stmt fn po env bb (Some s) = addStmtToIRSB bb (Some s)"
  by (cases s) auto

lemma size_positive: "sizeofIRType ty = Some sz \<Longrightarrow> sz > 0"
  by (cases ty) auto

lemma mx_step:
  assumes "sb_ok bb" "mx_ok fn po env s"
  shows "\<exists>bb'. wire_mx_stmt fn po env bb (Some s) = Some bb' \<and>
     grows bb bb' (mx_emits fn (typeOfIRExpr po env) (used_temps bb) s) (replicate (mx_temps s) Ity_I64)"
proof (cases s rule: store_cases)
  case (1 e a d)
  then obtain ty sz where s: "fn ''mx_after_store'' \<noteq> 0" "typeOfIRExpr po env d = Some ty" "sizeofIRType ty = Some sz" using assms(2) by auto
  let ?n = "used_temps bb"
  obtain b1 where 1: "new_temp bb Ity_I64 = Some (b1, ?n)" "grows bb b1 [] [Ity_I64]" "used_temps b1 = Suc ?n"
    using new_temp_grows [OF assms(1)] by blast
  obtain b2 where 2: "addStmtToIRSB b1 (Some (Ist_WrTmp ?n a)) = Some b2" "grows b1 b2 [Ist_WrTmp ?n a] []"
    using add_grows [OF grows_ok [OF 1(2)]] by blast
  obtain b3 where 3: "addStmtToIRSB b2 (Some (Ist_Store e (Iex_RdTmp ?n) d)) = Some b3" "grows b2 b3 [Ist_Store e (Iex_RdTmp ?n) d] []"
    using add_grows [OF grows_ok [OF 2(2)]] by blast
  have "used_temps b3 = Suc ?n" using 1(3) 2(2) 3(2) by (simp add: grows_def)
  then obtain b4 where 4: "new_temp b3 Ity_I64 = Some (b4, Suc ?n)" "grows b3 b4 [] [Ity_I64]"
    using new_temp_grows [OF grows_ok [OF 3(2)]] by metis
  let ?w = "Ist_WrTmp (Suc ?n) (Iex_Binop Iop_Sub64 (Iex_RdTmp ?n) (Iex_Const (Ico_U64 256)))"
  obtain b5 where 5: "addStmtToIRSB b4 (Some ?w) = Some b5" "grows b4 b5 [?w] []" using add_grows [OF grows_ok [OF 4(2)]] by blast
  obtain b6 where 6: "addStmtToIRSB b5 (Some (Ist_Dirty (mx_call fn ?n sz))) = Some b6" "grows b5 b6 [Ist_Dirty (mx_call fn ?n sz)] []"
    using add_grows [OF grows_ok [OF 5(2)]] by blast
  have "wire_mx_stmt fn po env bb (Some s) = Some b6"
    using 1(1) 2(1) 3(1) 4(1) 5(1) 6(1) s unsafeIRDirty_ok [of fn "''mx_after_store''", OF s(1)]
    by (simp add: \<open>s = Ist_Store e a d\<close> mkIRExprVec_2_def mx_call_def)
  moreover have "grows bb b6 (mx_emits fn (typeOfIRExpr po env) ?n s) (replicate (mx_temps s) Ity_I64)"
    using 1(2) 2(2) 3(2) 4(2) 5(2) 6(2) s by (simp add: grows_def \<open>s = Ist_Store e a d\<close> eval_nat_numeral)
  ultimately show ?thesis by blast
qed (use add_grows [OF assms(1)] in \<open>simp add: mx_emits_other\<close>)

lemma mx_typed:
  assumes t: "tcStmt po env Ity_I64 s" "mx_ok fn po env s" and x: "extends env env'"
    and i: "\<And>i. i < mx_temps s \<Longrightarrow> typeOfIRTemp env' (n + i) = Some Ity_I64"
    and s': "s' \<in> set (mx_emits fn (typeOfIRExpr po env) n s)"
  shows "tcStmt po env' Ity_I64 s'"
proof (cases s rule: store_cases)
  case (1 e a d)
  then obtain ty sz where s: "fn ''mx_after_store'' \<noteq> 0" "typeOfIRExpr po env d = Some ty" "sizeofIRType ty = Some sz" using t(2) by auto
  have n: "typeOfIRTemp env' n = Some Ity_I64" "typeOfIRTemp env' (Suc n) = Some Ity_I64" using i [of 0] i [of 1] by (simp_all add: 1)
  have a: "tcExpr po env' Ity_I64 a" "typeOfIRExpr po env' a = Some Ity_I64" "tcExpr po env' Ity_I64 d" "not_I1 (typeOfIRExpr po env' d)"
    using tcStmt_extends [OF x t(1)] 1 by simp_all
  have "tc_Dirty po env' Ity_I64 (mx_call fn n sz)"
    unfolding mx_call_def using helper_typed(2) [of fn "''mx_after_store''", OF s(1)] n(1) size_positive [OF s(3)] by simp
  then show ?thesis using s' a n s(2,3)
    by (auto simp: 1 tc_Binop_def BINARY_def saneIRConst_def)
qed (use s' tcStmt_extends [OF x t(1)] in \<open>auto simp: mx_emits_other\<close>)

lemma mx_defined:
  assumes sim: "dsim env env' dc dc' n" and n: "n + mx_temps s \<le> length (types env')"
    and u: "useBeforeDef_Stmt env s dc" and a: "assignedOnce_Stmt s dc (length (types env)) = Some dc1"
  shows "\<exists>dc1'. defs_loop env' (map Some (mx_emits fn (typeOfIRExpr po env) n s)) dc' = Some dc1' \<and>
     dsim env env' dc1 dc1' (n + mx_temps s)"
proof (cases s rule: store_cases)
  case (1 e ea d)
  have n': "n < length (types env')" "Suc n < length (types env')" using n by (simp_all add: 1)
  note f = assign_fresh [OF sim n'(1)]
  note g = assign_fresh [OF f(2) n'(2)]
  have "useBeforeDef_Expr env' ea dc'" "useBeforeDef_Expr env' d (dc'[n := 1])"
    using u use_expr_sim [OF sim] use_expr_sim [OF f(2)] by (simp_all add: 1)
  moreover have "useBeforeDef_Temp env' n (dc'[n := 1, Suc n := 1])" using f(3) by (simp add: useBeforeDef_Temp_def)
  ultimately show ?thesis using f(1,3) g a
    by (auto simp: 1 useBeforeDef_dirty_def mx_call_def helper_call_def emptyIRDirty_def)
qed (use stmt_defined [OF sim u a] in \<open>simp add: mx_emits_other\<close>)

lemma mx_flatness: "isFlatIRStmt s \<Longrightarrow> list_all isFlatIRStmt (mx_emits fn (typeOfIRExpr po env) n s) \<longleftrightarrow> True"
  by (cases s) (auto simp: atom_flat isFlat_dirty_def mx_call_def helper_call_def emptyIRDirty_def isIRAtom_or_VECRET_or_GSPTR_def)

interpretation mxw: sane_instrumenter "wire_mx_stmt fn po env" "mx_emits fn (typeOfIRExpr po env)" mx_temps
  "mx_ok fn po env" po env "\<lambda>s. True" for fn po env
  by unfold_locales (rule mx_step mx_typed mx_defined mx_flatness; assumption)+


section \<open>Properties\<close>

lemma sane_stmts:
  assumes "sanityCheckIRSB po bb True Ity_I64" "\<And>s. tcStmt po (tyenv bb) Ity_I64 s \<Longrightarrow> Some s \<in> set (stmts bb) \<Longrightarrow> P s"
  shows "all_stmts P (stmts bb)"
  using assms by (auto simp: sanityCheckIRSB_def all_stmts_def list_all_iff split: option.splits)

text \<open>
  C3. Instrumenting a block for logging. A block that passes the sanity check is instrumented
  without a panic, and the result is well typed and defines every temporary once, before its
  uses. But the check after instrumentation also requires flat statements: it passes exactly
  when the block has no store of type \<^verbatim>\<open>F32\<close>, \<^verbatim>\<open>F128\<close> or \<^verbatim>\<open>D128\<close>, whose values are converted by nested
  operations.
\<close>

theorem wire_memlog_sane:
  assumes "sanityCheckIRSB po bb True Ity_I64" "length (types (tyenv bb)) \<le> types_size (tyenv bb)" "fn ''log_store'' \<noteq> 0"
  shows "\<exists>bb'. wire_memlog fn po bb = Some bb' \<and> sanityCheckIRSB po bb' False Ity_I64 \<and>
     (sanityCheckIRSB po bb' True Ity_I64 \<longleftrightarrow>
       (\<forall>e a d. Some (Ist_Store e a d) \<in> set (stmts bb) \<longrightarrow>
         typeOfIRExpr po (tyenv bb) d \<notin> {Some Ity_F32, Some Ity_F128, Some Ity_D128}))"
proof -
  have "memlog_ok fn po (tyenv bb) s" if "tcStmt po (tyenv bb) Ity_I64 s" for s
    using that assms(3) by (cases s) auto
  then have "all_stmts (memlog_ok fn po (tyenv bb)) (stmts bb)" using sane_stmts [OF assms(1)] by blast
  note i = mlw.instrumented_sane [OF assms(1,2) refl this, folded wire_memlog_def]
  obtain ss where ss: "stmts bb = map Some ss" using stmts_some \<open>all_stmts (memlog_ok fn po (tyenv bb)) (stmts bb)\<close> by blast
  have "memlog_flat po (tyenv bb) s \<longleftrightarrow>
      (\<forall>e a d. s = Ist_Store e a d \<longrightarrow> typeOfIRExpr po (tyenv bb) d \<notin> {Some Ity_F32, Some Ity_F128, Some Ity_D128})"
    if "s \<in> set ss" for s
  proof -
    have "tcStmt po (tyenv bb) Ity_I64 s" using that assms(1) by (simp add: sanityCheckIRSB_def ss all_stmts_Some)
    then show ?thesis by (cases s) (auto simp: nested_type_def)
  qed
  then have "all_stmts (memlog_flat po (tyenv bb)) (stmts bb) \<longleftrightarrow>
      (\<forall>e a d. Some (Ist_Store e a d) \<in> set (stmts bb) \<longrightarrow> typeOfIRExpr po (tyenv bb) d \<notin> {Some Ity_F32, Some Ity_F128, Some Ity_D128})"
    unfolding ss all_stmts_Some set_map inj_image_mem_iff [OF inj_Some] by auto
  with i show ?thesis by simp
qed

text \<open>A block that loads two registers and stores the second, of a given type, at the first.\<close>

definition sample_block :: "IRType \<Rightarrow> IRSB" where
  "sample_block ty = \<lparr>tyenv = \<lparr>types = [Ity_I64, ty], types_size = 8\<rparr>,
     stmts = map Some [Ist_IMark 4096 5 0, Ist_WrTmp 0 (Iex_Get 16 Ity_I64), Ist_WrTmp 1 (Iex_Get 64 ty),
       Ist_Store Iend_LE (Iex_RdTmp 0) (Iex_RdTmp 1)],
     stmts_size = 8, sb_next = Some (Iex_Const (Ico_U64 4101)), jumpkind = Ijk_Boring, offsIP = 184\<rparr>"

lemma sample_block_sane:
  "sanityCheckIRSB po (sample_block Ity_F32) True Ity_I64" "sanityCheckIRSB po (sample_block Ity_V128) True Ity_I64"
  by (simp_all add: sanityCheckIRSB_def sample_block_def all_stmts_def assignedOnce_Temp_def useBeforeDef_Temp_def
      typeOfIRTemp_def)

theorem wire_memlog_sane_witness:
  "\<exists>bb'. wire_memlog (\<lambda>_. 1) (\<lambda>_. None) (sample_block Ity_F32) = Some bb' \<and>
     sanityCheckIRSB (\<lambda>_. None) bb' False Ity_I64 \<and> \<not> sanityCheckIRSB (\<lambda>_. None) bb' True Ity_I64"
  using wire_memlog_sane [OF sample_block_sane(1), of "\<lambda>_. 1"] by (auto simp: sample_block_def typeOfIRTemp_def)

text \<open>
  C4. Instrumenting a block for the MX emulation: a block that passes the sanity check, and
  stores no value of the invalid type, is instrumented without a panic and the result passes
  the sanity check that follows instrumentation.
\<close>

theorem wire_mx_sane:
  assumes "sanityCheckIRSB po bb True Ity_I64" "length (types (tyenv bb)) \<le> types_size (tyenv bb)" "fn ''mx_after_store'' \<noteq> 0"
    "\<forall>e a d. Some (Ist_Store e a d) \<in> set (stmts bb) \<longrightarrow> typeOfIRExpr po (tyenv bb) d \<noteq> Some Ity_INVALID"
  shows "\<exists>bb'. wire_mx fn po bb = Some bb' \<and> sanityCheckIRSB po bb' True Ity_I64"
proof -
  have "mx_ok fn po (tyenv bb) s" if t: "tcStmt po (tyenv bb) Ity_I64 s" and s: "Some s \<in> set (stmts bb)" for s
  proof (cases s rule: store_cases)
    case (1 e a d)
    then obtain ty where ty: "typeOfIRExpr po (tyenv bb) d = Some ty" "ty \<noteq> Ity_I1" "ty \<noteq> Ity_INVALID" using t s assms(4) by auto
    then have "\<exists>sz. sizeofIRType ty = Some sz" by (cases ty) auto
    with ty(1) assms(3) show ?thesis by (simp add: 1)
  qed (cases s; simp)
  then have "all_stmts (mx_ok fn po (tyenv bb)) (stmts bb)" using sane_stmts [OF assms(1)] by blast
  moreover have "all_stmts (\<lambda>s. True) (stmts bb)" by (rule sane_stmts [OF assms(1)]) simp
  ultimately show ?thesis using mxw.instrumented_sane [OF assms(1,2) refl] by (auto simp: wire_mx_def)
qed

theorem wire_mx_sane_witness:
  "\<exists>bb'. wire_mx (\<lambda>_. 1) (\<lambda>_. None) (sample_block Ity_F32) = Some bb' \<and> sanityCheckIRSB (\<lambda>_. None) bb' True Ity_I64"
  using wire_mx_sane [OF sample_block_sane(1), of "\<lambda>_. 1"] by (auto simp: sample_block_def typeOfIRTemp_def)

end
