(* ===== verification/Ml_InstrumentRun.thy ===== *)
theory Ml_InstrumentRun
  imports Ml_Instrument
begin

text \<open>
  What instrumented blocks do. Statements are executed on a state of temporaries and machine; the
  meaning of the operations that the tool uses is the one stated in \<^verbatim>\<open>VEX/pub/libvex_ir.h\<close>, the rest of
  the machine is given by a record of functions. A block instrumented for logging does what the
  original does, and calls \<^verbatim>\<open>log_store\<close> for every plain store of a logged type that is executed; other
  statements that write memory are not instrumented.
\<close>

section \<open>Execution\<close>

text \<open>
  Values are bit patterns. The machine: the other operations, registers, loads, calls of pure
  functions, stores, and the remaining statements, which get the values of their expressions
  and return values for the temporaries they assign and whether the block is left.
\<close>

record 'm machine_ops =
  mo_prim :: "nat \<Rightarrow> nat list \<Rightarrow> nat option"
  mo_get :: "'m \<Rightarrow> int \<Rightarrow> IRType \<Rightarrow> nat"
  mo_geti :: "'m \<Rightarrow> IRRegArray \<Rightarrow> nat \<Rightarrow> int \<Rightarrow> nat"
  mo_load :: "'m \<Rightarrow> IREndness \<Rightarrow> IRType \<Rightarrow> nat \<Rightarrow> nat option"
  mo_ccall :: "IRCallee \<Rightarrow> nat list \<Rightarrow> nat option"
  mo_store :: "'m \<Rightarrow> IREndness \<Rightarrow> IRType \<Rightarrow> nat \<Rightarrow> nat \<Rightarrow> 'm option"
  mo_stmt :: "'m \<Rightarrow> IRStmt \<Rightarrow> nat list \<Rightarrow> ('m \<times> nat list \<times> bool) option"

text \<open>The restricted constants: every bit stands for a byte of zeros or of ones.\<close>

fun byte_lanes :: "nat \<Rightarrow> nat \<Rightarrow> nat" where
  "byte_lanes 0 c = 0"
| "byte_lanes (Suc k) c = (if odd c then 255 else 0) + 256 * byte_lanes k (c div 2)"

fun const_bits :: "IRConst \<Rightarrow> nat" where
  "const_bits (Ico_U1 b) = (if b then 1 else 0)"
| "const_bits (Ico_U8 c) = unat c"
| "const_bits (Ico_U16 c) = unat c"
| "const_bits (Ico_U32 c) = unat c"
| "const_bits (Ico_U64 c) = unat c"
| "const_bits (Ico_U128 c) = byte_lanes 16 (unat c)"
| "const_bits (Ico_F32 c) = unat c"
| "const_bits (Ico_F32i c) = unat c"
| "const_bits (Ico_F64 c) = unat c"
| "const_bits (Ico_F64i c) = unat c"
| "const_bits (Ico_V128 c) = byte_lanes 16 (unat c)"
| "const_bits (Ico_V256 c) = byte_lanes 32 (unat c)"

definition lane :: "nat \<Rightarrow> nat \<Rightarrow> nat" where
  "lane i v = v div 2 ^ (64 * i) mod 2 ^ 64"

fun un_val :: "'m machine_ops \<Rightarrow> IROp \<Rightarrow> nat \<Rightarrow> nat option" where
  "un_val mo Iop_1Uto64 v = Some v"
| "un_val mo Iop_8Uto64 v = Some v"
| "un_val mo Iop_16Uto64 v = Some v"
| "un_val mo Iop_32Uto64 v = Some v"
| "un_val mo Iop_ReinterpF64asI64 v = Some v"
| "un_val mo Iop_ReinterpF32asI32 v = Some v"
| "un_val mo Iop_ReinterpD64asI64 v = Some v"
| "un_val mo Iop_128to64 v = Some (lane 0 v)"
| "un_val mo Iop_128HIto64 v = Some (lane 1 v)"
| "un_val mo Iop_V128to64 v = Some (lane 0 v)"
| "un_val mo Iop_V128HIto64 v = Some (lane 1 v)"
| "un_val mo Iop_F128LOtoF64 v = Some (lane 0 v)"
| "un_val mo Iop_F128HItoF64 v = Some (lane 1 v)"
| "un_val mo Iop_D128LOtoD64 v = Some (lane 0 v)"
| "un_val mo Iop_D128HItoD64 v = Some (lane 1 v)"
| "un_val mo Iop_V256to64_0 v = Some (lane 0 v)"
| "un_val mo Iop_V256to64_1 v = Some (lane 1 v)"
| "un_val mo Iop_V256to64_2 v = Some (lane 2 v)"
| "un_val mo Iop_V256to64_3 v = Some (lane 3 v)"
| "un_val mo (Iop_other n) v = mo_prim mo n [v]"
| "un_val mo Iop_Add64 v = None"
| "un_val mo Iop_Sub64 v = None"

fun bin_val :: "'m machine_ops \<Rightarrow> IROp \<Rightarrow> nat \<Rightarrow> nat \<Rightarrow> nat option" where
  "bin_val mo Iop_Add64 v w = Some ((v + w) mod 2 ^ 64)"
| "bin_val mo Iop_Sub64 v w = Some ((v + 2 ^ 64 - w) mod 2 ^ 64)"
| "bin_val mo (Iop_other n) v w = mo_prim mo n [v, w]"
| "bin_val mo op v w = None"

fun other_val :: "'m machine_ops \<Rightarrow> IROp \<Rightarrow> nat list \<Rightarrow> nat option" where
  "other_val mo (Iop_other n) vs = mo_prim mo n vs"
| "other_val mo op vs = None"

fun ev :: "'m machine_ops \<Rightarrow> 'm \<Rightarrow> (nat \<rightharpoonup> nat) \<Rightarrow> IRExpr \<Rightarrow> nat option"
  and evs :: "'m machine_ops \<Rightarrow> 'm \<Rightarrow> (nat \<rightharpoonup> nat) \<Rightarrow> IRExpr list \<Rightarrow> nat list option" where
  "ev mo m tm (Iex_Get offset ty) = Some (mo_get mo m offset ty)"
| "ev mo m tm (Iex_GetI descr ix bi) = map_option (\<lambda>v. mo_geti mo m descr v bi) (ev mo m tm ix)"
| "ev mo m tm (Iex_RdTmp t) = tm t"
| "ev mo m tm (Iex_Qop op e1 e2 e3 e4) = do {
     v1 \<leftarrow> ev mo m tm e1; v2 \<leftarrow> ev mo m tm e2; v3 \<leftarrow> ev mo m tm e3; v4 \<leftarrow> ev mo m tm e4;
     other_val mo op [v1, v2, v3, v4]
   }"
| "ev mo m tm (Iex_Triop op e1 e2 e3) = do {
     v1 \<leftarrow> ev mo m tm e1; v2 \<leftarrow> ev mo m tm e2; v3 \<leftarrow> ev mo m tm e3;
     other_val mo op [v1, v2, v3]
   }"
| "ev mo m tm (Iex_Binop op e1 e2) = do { v1 \<leftarrow> ev mo m tm e1; v2 \<leftarrow> ev mo m tm e2; bin_val mo op v1 v2 }"
| "ev mo m tm (Iex_Unop op e) = do { v \<leftarrow> ev mo m tm e; un_val mo op v }"
| "ev mo m tm (Iex_Load ed ty e) = do { a \<leftarrow> ev mo m tm e; mo_load mo m ed ty a }"
| "ev mo m tm (Iex_Const con) = Some (const_bits con)"
| "ev mo m tm (Iex_CCall cee retty args) = do { vs \<leftarrow> evs mo m tm args; mo_ccall mo cee vs }"
| "ev mo m tm (Iex_ITE c e1 e2) = do {
     v \<leftarrow> ev mo m tm c; v1 \<leftarrow> ev mo m tm e1; v2 \<leftarrow> ev mo m tm e2;
     Some (if v \<noteq> 0 then v1 else v2)
   }"
| "ev mo m tm (Iex_Binder b) = None"
| "ev mo m tm Iex_VECRET = Some 0"
| "ev mo m tm Iex_GSPTR = Some 0"
| "evs mo m tm [] = Some []"
| "evs mo m tm (e # es) = do { v \<leftarrow> ev mo m tm e; vs \<leftarrow> evs mo m tm es; Some (v # vs) }"

text \<open>The expressions a statement evaluates and the temporaries it assigns.\<close>

definition opt_list :: "'a option \<Rightarrow> 'a list" where
  "opt_list x = (case x of None \<Rightarrow> [] | Some y \<Rightarrow> [y])"

definition valid_tmp :: "IRTemp \<Rightarrow> IRTemp list" where
  "valid_tmp t = (if t \<noteq> IRTemp_INVALID then [t] else [])"

fun stmt_exprs :: "IRStmt \<Rightarrow> IRExpr list" where
  "stmt_exprs Ist_NoOp = []"
| "stmt_exprs (Ist_IMark addr len delta) = []"
| "stmt_exprs (Ist_AbiHint base len nia) = [base, nia]"
| "stmt_exprs (Ist_Put offset d) = [d]"
| "stmt_exprs (Ist_PutI descr ix bi d) = [ix, d]"
| "stmt_exprs (Ist_WrTmp t d) = [d]"
| "stmt_exprs (Ist_Store e a d) = [a, d]"
| "stmt_exprs (Ist_StoreG e a d g) = [a, d, g]"
| "stmt_exprs (Ist_LoadG e cvt dst a alt g) = [a, alt, g]"
| "stmt_exprs (Ist_CAS cas) = [cas_addr cas, cas_expdLo cas, cas_dataLo cas] @ opt_list (cas_expdHi cas) @ opt_list (cas_dataHi cas)"
| "stmt_exprs (Ist_LLSC e result a sd) = a # opt_list sd"
| "stmt_exprs (Ist_Dirty d) = opt_list (d_guard d) @ concat (opt_list (d_args d)) @ opt_list (d_mAddr d)"
| "stmt_exprs (Ist_MBE event) = []"
| "stmt_exprs (Ist_Exit g dst jk offs) = [g]"

fun stmt_dsts :: "IRStmt \<Rightarrow> IRTemp list" where
  "stmt_dsts (Ist_WrTmp t d) = [t]"
| "stmt_dsts (Ist_LoadG e cvt dst a alt g) = [dst]"
| "stmt_dsts (Ist_Dirty d) = valid_tmp (d_tmp d)"
| "stmt_dsts (Ist_CAS cas) = valid_tmp (cas_oldHi cas) @ [cas_oldLo cas]"
| "stmt_dsts (Ist_LLSC e result a sd) = [result]"
| "stmt_dsts s = []"

fun assigns :: "(nat \<rightharpoonup> nat) \<Rightarrow> IRTemp list \<Rightarrow> nat list \<Rightarrow> (nat \<rightharpoonup> nat)" where
  "assigns tm (t # ts) (v # vs) = assigns (tm(t \<mapsto> v)) ts vs"
| "assigns tm ts vs = tm"

text \<open>A call of the helper of the tool: it appends to a list of calls.\<close>

definition logs :: "IRStmt \<Rightarrow> bool" where
  "logs s \<longleftrightarrow> (case s of Ist_Dirty d \<Rightarrow> map_option ce_name (d_cee d) = Some (Some ''log_store'') | _ \<Rightarrow> False)"

type_synonym 'm run_state = "(nat \<rightharpoonup> nat) \<times> 'm \<times> nat list list"

definition exec_other :: "'m machine_ops \<Rightarrow> 'm run_state \<Rightarrow> IRStmt \<Rightarrow> ('m run_state \<times> bool) option" where
  "exec_other mo st s = (case st of (tm, m, l) \<Rightarrow> do {
     vs \<leftarrow> evs mo m tm (stmt_exprs s);
     (m, rs, leaves) \<leftarrow> mo_stmt mo m s vs;
     Some ((assigns tm (stmt_dsts s) rs, m, l), leaves)
   })"

text \<open>\<open>ty\<close> gives the types of stored data, \<open>lg\<close> what is logged for a store by itself.\<close>

definition exec_stmt ::
  "'m machine_ops \<Rightarrow> (IRExpr \<Rightarrow> IRType option) \<Rightarrow> (IRType \<Rightarrow> nat \<Rightarrow> nat \<Rightarrow> nat list list) \<Rightarrow> 'm run_state \<Rightarrow> IRStmt \<Rightarrow> ('m run_state \<times> bool) option" where
  "exec_stmt mo ty lg st s = (case st of (tm, m, l) \<Rightarrow>
     case s of
       Ist_WrTmp t e \<Rightarrow> do { v \<leftarrow> ev mo m tm e; Some ((tm(t \<mapsto> v), m, l), False) }
     | Ist_Store ed a d \<Rightarrow> do {
         va \<leftarrow> ev mo m tm a;
         vd \<leftarrow> ev mo m tm d;
         t \<leftarrow> ty d;
         m \<leftarrow> mo_store mo m ed t va vd;
         Some ((tm, m, l @ lg t va vd), False)
       }
     | Ist_Dirty d \<Rightarrow>
         if logs s then do {
           g \<leftarrow> d_guard d \<bind> ev mo m tm;
           vs \<leftarrow> evs mo m tm (concat (opt_list (d_args d)));
           Some ((tm, m, if g = 0 then l else l @ [vs]), False)
         }
         else exec_other mo st s
     | _ \<Rightarrow> exec_other mo st s)"

fun exec ::
  "'m machine_ops \<Rightarrow> (IRExpr \<Rightarrow> IRType option) \<Rightarrow> (IRType \<Rightarrow> nat \<Rightarrow> nat \<Rightarrow> nat list list) \<Rightarrow> 'm run_state \<Rightarrow> IRStmt list \<Rightarrow> ('m run_state \<times> bool) option" where
  "exec mo ty lg st [] = Some (st, False)"
| "exec mo ty lg st (s # ss) = do {
     (st, leaves) \<leftarrow> exec_stmt mo ty lg st s;
     if leaves then Some (st, True) else exec mo ty lg st ss
   }"

text \<open>
  What is logged for a store: nothing for some types, otherwise the value cut into parts of 64 bits,
  the most significant one at the address of the store and each next one 8 bytes further.
\<close>

definition at_off :: "nat \<Rightarrow> nat \<Rightarrow> nat" where
  "at_off a n = (a + n) mod 2 ^ 64"

definition logged_type :: "IRType \<Rightarrow> bool" where
  "logged_type ty \<longleftrightarrow> ty \<notin> {Ity_F16, Ity_D32, Ity_D64, Ity_INVALID}"

definition part_count :: "IRType \<Rightarrow> nat" where
  "part_count ty = (case sizeofIRType ty of None \<Rightarrow> 1 | Some sz \<Rightarrow> max 1 (nat sz div 8))"

definition logged_parts :: "IRType \<Rightarrow> nat \<Rightarrow> nat \<Rightarrow> nat list list" where
  "logged_parts ty a v =
     (if \<not> logged_type ty then []
      else if part_count ty = 1 then [[a, v]]
      else map (\<lambda>i. [if i = 0 then a else at_off a (8 * i), lane (part_count ty - 1 - i) v]) [0..<part_count ty])"

lemmas logged_parts_defs = logged_parts_def logged_type_def part_count_def

section \<open>Temporaries\<close>

fun expr_temps :: "IRExpr \<Rightarrow> nat list" where
  "expr_temps (Iex_GetI descr ix bi) = expr_temps ix"
| "expr_temps (Iex_RdTmp t) = [t]"
| "expr_temps (Iex_Qop op e1 e2 e3 e4) = expr_temps e1 @ expr_temps e2 @ expr_temps e3 @ expr_temps e4"
| "expr_temps (Iex_Triop op e1 e2 e3) = expr_temps e1 @ expr_temps e2 @ expr_temps e3"
| "expr_temps (Iex_Binop op e1 e2) = expr_temps e1 @ expr_temps e2"
| "expr_temps (Iex_Unop op e) = expr_temps e"
| "expr_temps (Iex_Load ed ty e) = expr_temps e"
| "expr_temps (Iex_CCall cee retty args) = concat (map expr_temps args)"
| "expr_temps (Iex_ITE c e1 e2) = expr_temps c @ expr_temps e1 @ expr_temps e2"
| "expr_temps e = []"

definition below :: "nat \<Rightarrow> IRExpr \<Rightarrow> bool" where
  "below n e \<longleftrightarrow> (\<forall>t\<in>set (expr_temps e). t < n)"

definition agree :: "nat \<Rightarrow> (nat \<rightharpoonup> nat) \<Rightarrow> (nat \<rightharpoonup> nat) \<Rightarrow> bool" where
  "agree n tm tm' \<longleftrightarrow> (\<forall>t<n. tm t = tm' t)"

lemma evs_cong: "\<forall>e\<in>set es. ev mo m tm e = ev mo m tm' e \<Longrightarrow> evs mo m tm es = evs mo m tm' es"
  by (induction es) auto

lemma ev_agree: "below n e \<Longrightarrow> agree n tm tm' \<Longrightarrow> ev mo m tm e = ev mo m tm' e"
proof (induction e)
  case (Iex_CCall cee retty args)
  then have "evs mo m tm args = evs mo m tm' args" by (intro evs_cong) (auto simp: below_def)
  then show ?case by simp
qed (auto simp: below_def agree_def)

lemma evs_agree: "\<forall>e\<in>set es. below n e \<Longrightarrow> agree n tm tm' \<Longrightarrow> evs mo m tm es = evs mo m tm' es"
  by (intro evs_cong) (blast intro: ev_agree)

lemma use_below: "useBeforeDef_Expr env e dc \<Longrightarrow> below (length (types env)) e"
  by (induction e) (auto simp: below_def useBeforeDef_Temp_def list_all_iff)

lemma atom_below: "isIRAtom e \<Longrightarrow> typeOfIRExpr po env e \<noteq> None \<Longrightarrow> below (length (types env)) e"
  by (cases e rule: isIRAtom.cases) (auto simp: below_def typeOfIRTemp_def split: if_splits)

lemma special_below: "is_IRExpr_VECRET_or_GSPTR e \<Longrightarrow> below n e"
  by (cases e) (auto simp: below_def)

lemma stmt_below:
  assumes "useBeforeDef_Stmt env s dc" "isFlatIRStmt s" "tcStmt po env g s"
  shows "\<forall>e\<in>set (stmt_exprs s). below (length (types env)) e"
proof (cases s)
  case (Ist_Dirty d)
  obtain gd args where d: "d_guard d = Some gd" "isIRAtom gd" "typeOfIRExpr po env gd \<noteq> None" "d_args d = Some args"
    using assms(2,3) Ist_Dirty by (auto simp: isFlat_dirty_def tc_Dirty_def split: option.splits)
  have "below (length (types env)) a" if "a \<in> set args" for a
    using that assms(1) Ist_Dirty d(4) special_below use_below by (auto simp: useBeforeDef_dirty_def list_all_iff)
  moreover have "below (length (types env)) a" if "d_mAddr d = Some a" for a
    using that assms(1,3) Ist_Dirty use_below by (auto simp: useBeforeDef_dirty_def tc_Dirty_def split: option.splits if_splits)
  ultimately show ?thesis using Ist_Dirty d atom_below by (auto simp: opt_list_def split: option.splits)
next
  case (Ist_CAS cas)
  with assms(1) use_below show ?thesis by (cases "cas_expdHi cas"; cases "cas_dataHi cas") (auto simp: opt_list_def)
next
  case (Ist_LLSC e r a sd)
  with assms(1) use_below show ?thesis by (cases sd) (auto simp: opt_list_def)
qed (use assms(1) use_below in auto)

lemma all_stmtsD: "all_stmts P ss \<Longrightarrow> Some s \<in> set ss \<Longrightarrow> P s"
  by (auto simp: all_stmts_def list_all_iff)

lemma sane_below:
  assumes "sanityCheckIRSB po bb True g" "Some s \<in> set (stmts bb)"
  shows "\<forall>e\<in>set (stmt_exprs s). below (length (types (tyenv bb))) e"
proof -
  have "defs_loop env ss dc \<noteq> None \<Longrightarrow> Some s \<in> set ss \<Longrightarrow> \<exists>dc. useBeforeDef_Stmt env s dc" for env ss dc
    by (induction ss arbitrary: dc) (auto split: bind_splits if_splits)
  then obtain dc where "useBeforeDef_Stmt (tyenv bb) s dc" using assms unfolding sanityCheckIRSB_def by metis
  moreover have "isFlatIRStmt s" "tcStmt po (tyenv bb) g s"
    using assms all_stmtsD [OF _ assms(2)] unfolding sanityCheckIRSB_def by blast+
  ultimately show ?thesis by (rule stmt_below)
qed


section \<open>Instrumented blocks\<close>

text \<open>States that differ only in temporaries from \<open>n\<close> on.\<close>

definition same :: "nat \<Rightarrow> 'm run_state \<times> bool \<Rightarrow> 'm run_state \<times> bool \<Rightarrow> bool" where
  "same n r r' \<longleftrightarrow> (case (r, r') of (((tm, m, l), x), ((tm', m', l'), x')) \<Rightarrow> agree n tm tm' \<and> m = m' \<and> l = l' \<and> x = x')"

abbreviation no_log :: "IRType \<Rightarrow> nat \<Rightarrow> nat \<Rightarrow> nat list list" where
  "no_log ty a v \<equiv> []"

fun piece_vals :: "'m machine_ops \<Rightarrow> 'm \<Rightarrow> (nat \<rightharpoonup> nat) \<Rightarrow> (IRExpr \<times> IRExpr) list \<Rightarrow> nat list list option" where
  "piece_vals mo m tm [] = Some []"
| "piece_vals mo m tm ((a, d) # ps) = do {
     va \<leftarrow> ev mo m tm a;
     vd \<leftarrow> ev mo m tm d;
     vs \<leftarrow> piece_vals mo m tm ps;
     Some ([va, vd] # vs)
   }"

lemma piece_vals_pieces:
  "ev mo m tm a = Some va \<Longrightarrow> ev mo m tm d = Some vd \<Longrightarrow> piece_vals mo m tm (pieces ty a d) = Some (logged_parts ty va vd)"
  by (cases ty) (simp_all add: logged_parts_defs plus_const_def at_off_def upt_rec)

lemma logs_helper: "logs (Ist_Dirty (helper_call fn ''log_store'' args))"
  by (simp add: logs_def helper_call_def)

lemma exec_call:
  "exec_stmt mo ty lg (tm, m, l) (Ist_Dirty (helper_call fn ''log_store'' args)) =
   map_option (\<lambda>vs. ((tm, m, l @ [vs]), False)) (evs mo m tm args)"
  by (cases "evs mo m tm args") (simp_all add: exec_stmt_def logs_helper, simp_all add: helper_call_def opt_list_def)

lemma exec_wrtmp:
  "exec_stmt mo ty lg (tm, m, l) (Ist_WrTmp t e) = map_option (\<lambda>v. ((tm(t \<mapsto> v), m, l), False)) (ev mo m tm e)"
  by (cases "ev mo m tm e") (simp_all add: exec_stmt_def)

lemma agree_upd: "n \<le> t \<Longrightarrow> agree n tm (tm'(t \<mapsto> v)) \<longleftrightarrow> agree n tm tm'"
  by (auto simp: agree_def)

lemma agree_trans: "agree n a b \<Longrightarrow> agree n b c \<Longrightarrow> agree n a c"
  by (simp add: agree_def)

lemma agree_refl: "agree n a a"
  by (simp add: agree_def)

lemma piece_vals_agree:
  "\<forall>(pa, pd)\<in>set ps. below n pa \<and> below n pd \<Longrightarrow> agree n tm tm' \<Longrightarrow> piece_vals mo m tm ps = piece_vals mo m tm' ps"
proof (induction ps)
  case (Cons p ps)
  obtain pa pd where p: "p = (pa, pd)" by (cases p)
  have "ev mo m tm pa = ev mo m tm' pa" "ev mo m tm pd = ev mo m tm' pd" using ev_agree Cons.prems by (auto simp: p)
  with Cons show ?case by (simp add: p)
qed simp

lemma exec_pieces:
  "\<forall>(pa, pd)\<in>set ps. below n0 pa \<and> below n0 pd \<Longrightarrow> n0 \<le> n \<Longrightarrow>
   \<exists>tm'. agree n0 tm tm' \<and> exec mo ty lg (tm, m, l) (log_pieces fn n ps @ ss) =
     (piece_vals mo m tm ps \<bind> (\<lambda>vs. exec mo ty lg (tm', m, l @ vs) ss))"
proof (induction ps arbitrary: n tm l)
  case Nil
  show ?case by (intro exI [of _ tm]) (simp add: agree_refl)
next
  case (Cons p ps)
  obtain pa pd where p: "p = (pa, pd)" by (cases p)
  show ?case
  proof (cases "\<exists>va vd. ev mo m tm pa = Some va \<and> ev mo m tm pd = Some vd")
    case True
    then obtain va vd where v: "ev mo m tm pa = Some va" "ev mo m tm pd = Some vd" by blast
    let ?tm = "tm(n \<mapsto> va, n + 1 \<mapsto> vd)"
    have a1: "agree n0 tm (tm(n \<mapsto> va))" and a2: "agree n0 tm ?tm" using Cons.prems(2) by (simp_all add: agree_upd agree_refl)
    have "ev mo m (tm(n \<mapsto> va)) pd = Some vd" using ev_agree [OF _ a1, of pd mo m] v(2) Cons.prems(1) by (simp add: p)
    then have e: "exec mo ty lg (tm, m, l) (log_pieces fn n (p # ps) @ ss) = exec mo ty lg (?tm, m, l @ [[va, vd]]) (log_pieces fn (n + 2) ps @ ss)"
      using v(1) by (simp add: p exec_call exec_wrtmp)
    have "piece_vals mo m ?tm ps = piece_vals mo m tm ps" using piece_vals_agree [OF _ a2, of ps mo m] Cons.prems(1) by simp
    moreover have "\<exists>tm'. agree n0 ?tm tm' \<and> exec mo ty lg (?tm, m, l @ [[va, vd]]) (log_pieces fn (n + 2) ps @ ss) =
        (piece_vals mo m ?tm ps \<bind> (\<lambda>vs. exec mo ty lg (tm', m, (l @ [[va, vd]]) @ vs) ss))"
      using Cons.prems by (intro Cons.IH) simp_all
    ultimately obtain tm' where t: "agree n0 ?tm tm'" "exec mo ty lg (?tm, m, l @ [[va, vd]]) (log_pieces fn (n + 2) ps @ ss) =
        (piece_vals mo m tm ps \<bind> (\<lambda>vs. exec mo ty lg (tm', m, (l @ [[va, vd]]) @ vs) ss))" by (elim exE conjE) simp
    show ?thesis unfolding e t(2) by (intro exI [of _ tm'] conjI agree_trans [OF a2 t(1)]) (simp add: p v)
  next
    case False
    then have "piece_vals mo m tm (p # ps) = None" by (auto simp: p split: bind_splits)
    moreover have "exec mo ty lg (tm, m, l) (log_pieces fn n (p # ps) @ ss) = None"
    proof (cases "ev mo m tm pa")
      case (Some va)
      have "ev mo m (tm(n \<mapsto> va)) pd = ev mo m tm pd"
        using ev_agree [of n0 pd tm "tm(n \<mapsto> va)" mo m] Cons.prems by (simp add: p agree_upd agree_refl)
      then show ?thesis using Some False by (simp add: p exec_stmt_def)
    qed (simp add: p exec_stmt_def)
    ultimately show ?thesis using agree_refl by auto
  qed
qed

lemma pieces_below: "below n a \<Longrightarrow> below n d \<Longrightarrow> \<forall>(pa, pd)\<in>set (pieces ty a d). below n pa \<and> below n pd"
  by (cases ty) (auto simp: plus_const_def below_def)


lemma assigns_agree: "agree n tm tm' \<Longrightarrow> agree n (assigns tm ts vs) (assigns tm' ts vs)"
proof (induction ts arbitrary: tm tm' vs)
  case (Cons t ts)
  have "agree n (tm(t \<mapsto> v)) (tm'(t \<mapsto> v))" for v using Cons.prems by (auto simp: agree_def)
  with Cons show ?case by (cases vs) auto
qed simp

lemma exec_other_sim:
  assumes "\<forall>e\<in>set (stmt_exprs s). below n e" "agree n tm tm'"
  shows "rel_option (same n) (exec_other mo (tm, m, l) s) (exec_other mo (tm', m, l) s)"
  unfolding exec_other_def prod.case evs_agree [OF assms]
  using assigns_agree [OF assms(2)] by (auto simp: same_def split: bind_splits)

lemma exec_stmt_sim:
  assumes "\<forall>e\<in>set (stmt_exprs s). below n e" "agree n tm tm'" "\<not> logs s" "\<nexists>e a d. s = Ist_Store e a d"
  shows "rel_option (same n) (exec_stmt mo ty lg (tm, m, l) s) (exec_stmt mo ty' lg' (tm', m, l) s)"
proof (cases s)
  case (Ist_WrTmp t e)
  have "ev mo m tm e = ev mo m tm' e" using ev_agree [OF _ assms(2)] assms(1) Ist_WrTmp by simp
  moreover have "agree n (tm(t \<mapsto> v)) (tm'(t \<mapsto> v))" for v using assms(2) by (auto simp: agree_def)
  ultimately show ?thesis by (auto simp: exec_stmt_def Ist_WrTmp same_def split: bind_splits)
qed (use assms exec_other_sim [OF assms(1,2)] in \<open>auto simp: exec_stmt_def\<close>)

lemma exec_cons_sim:
  assumes "rel_option (same n) (exec_stmt mo ty lg st s) (exec_stmt mo ty' lg' st' s')"
    "\<And>tm1 tm1' m1 l1. agree n tm1 tm1' \<Longrightarrow> rel_option (same n) (exec mo ty lg (tm1, m1, l1) ss) (exec mo ty' lg' (tm1', m1, l1) ss')"
  shows "rel_option (same n) (exec mo ty lg st (s # ss)) (exec mo ty' lg' st' (s' # ss'))"
  using assms(1)
proof (cases rule: option.rel_cases)
  case (Some r r')
  obtain tm m l x where r: "r = ((tm, m, l), x)" by (metis prod.exhaust)
  with Some(3) obtain tm' where r': "r' = ((tm', m, l), x)" "agree n tm tm'" by (auto simp: same_def split: prod.splits)
  then show ?thesis using Some assms(2) [OF r'(2)] by (cases x) (simp_all add: r)
qed simp

text \<open>A store in the original, and the calls and the store in the instrumented block.\<close>

lemma exec_store_sim:
  assumes b: "below n0 a" "below n0 d" and ag: "agree n0 tm tm'" and n: "n0 \<le> n" and ty: "ty d = Some t" "ty' d = Some t"
    and rest: "\<And>tm1 tm1' m1 l1. agree n0 tm1 tm1' \<Longrightarrow>
      rel_option (same n0) (exec mo ty logged_parts (tm1, m1, l1) ss) (exec mo ty' no_log (tm1', m1, l1) ss')"
  shows "rel_option (same n0) (exec mo ty logged_parts (tm, m, l) (Ist_Store e a d # ss))
     (exec mo ty' no_log (tm', m, l) (log_pieces fn n (pieces t a d) @ Ist_Store e a d # ss'))"
proof -
  obtain tm2 where t2: "agree n0 tm' tm2" "exec mo ty' no_log (tm', m, l) (log_pieces fn n (pieces t a d) @ Ist_Store e a d # ss') =
      (piece_vals mo m tm' (pieces t a d) \<bind> (\<lambda>vs. exec mo ty' no_log (tm2, m, l @ vs) (Ist_Store e a d # ss')))"
    using exec_pieces [OF pieces_below [OF b, where ty = t] n, where tm = tm' and mo = mo and ty = ty' and lg = no_log and m = m and l = l and
        fn = fn and ss = "Ist_Store e a d # ss'"] by (elim exE conjE) (rule that)
  have ag2: "agree n0 tm tm2" using agree_trans [OF ag t2(1)] .
  have eq: "ev mo m tm2 a = ev mo m tm a" "ev mo m tm2 d = ev mo m tm d" "ev mo m tm' a = ev mo m tm a" "ev mo m tm' d = ev mo m tm d"
    by (simp_all only: ev_agree [OF b(1) ag2, of mo m] ev_agree [OF b(2) ag2, of mo m] ev_agree [OF b(1) ag, of mo m, symmetric] ev_agree [OF b(2) ag, of mo m, symmetric])
  show ?thesis
  proof (cases "\<exists>va vd. ev mo m tm a = Some va \<and> ev mo m tm d = Some vd")
    case True
    then obtain va vd where v: "ev mo m tm a = Some va" "ev mo m tm d = Some vd" by blast
    have "piece_vals mo m tm' (pieces t a d) = Some (logged_parts t va vd)" by (rule piece_vals_pieces) (simp_all add: eq v)
    with t2(2) rest [OF ag2] v ty show ?thesis by (simp add: exec_stmt_def eq split: bind_splits)
  next
    case False
    then have "exec mo ty lg (x, m, l1) (Ist_Store e a d # ss1) = None" if "x = tm \<or> x = tm2" for x lg l1 ss1 ty
      using that eq by (auto simp: exec_stmt_def split: bind_splits)
    then show ?thesis unfolding t2(2) by (auto split: bind_splits)
  qed
qed

lemma exec_emits_sim:
  assumes "\<forall>s\<in>set ss. (\<forall>e\<in>set (stmt_exprs s). below n0 e) \<and> \<not> logs s"
    "\<forall>e a d. Ist_Store e a d \<in> set ss \<longrightarrow> (\<exists>t. ty d = Some t \<and> ty' d = Some t)"
  shows "agree n0 tm tm' \<Longrightarrow> n0 \<le> n \<Longrightarrow> rel_option (same n0) (exec mo ty logged_parts (tm, m, l) ss)
     (exec mo ty' no_log (tm', m, l) (emits_all (memlog_emits fn ty) memlog_temps n ss))"
  using assms
proof (induction ss arbitrary: tm tm' m l n)
  case (Cons s ss)
  have IH: "rel_option (same n0) (exec mo ty logged_parts (tm1, m1, l1) ss)
      (exec mo ty' no_log (tm1', m1, l1) (emits_all (memlog_emits fn ty) memlog_temps n1 ss))"
    if "agree n0 tm1 tm1'" "n0 \<le> n1" for tm1 tm1' m1 l1 n1 using Cons.IH [OF that] Cons.prems(3,4) by simp
  show ?case
  proof (cases s rule: store_cases)
    case (1 e a d)
    then obtain t where t: "ty d = Some t" "ty' d = Some t" using Cons.prems(4) by fastforce
    have b: "below n0 a" "below n0 d" and n: "n0 \<le> n + 8" using Cons.prems(2,3) by (simp_all add: 1)
    show ?thesis using exec_store_sim [OF b Cons.prems(1,2) t IH [OF _ n]] by (simp add: 1 t)
  next
    case 2
    have "rel_option (same n0) (exec_stmt mo ty logged_parts (tm, m, l) s) (exec_stmt mo ty' no_log (tm', m, l) s)"
      using exec_stmt_sim [OF _ Cons.prems(1) _ 2] Cons.prems(3) by simp
    from exec_cons_sim [OF this IH [OF _ Cons.prems(2)]] show ?thesis using memlog_emits_other [OF 2] by simp
  qed
qed (simp add: same_def)


section \<open>Properties\<close>

text \<open>
  C1. What a block instrumented for logging does. For every machine, temporaries, memory and
  log, the instrumented block runs as the original: it faults when the original does, leaves
  the block where the original does, with the same memory and the same values in the
  temporaries of the original. And the log it leaves is the one of the original with calls of
  \<^verbatim>\<open>log_store\<close> for exactly the executed \<^verbatim>\<open>Ist_Store\<close> statements whose data has a type other than F16, D32
  and D64, in order: one call with the value for types up to 64 bits; for the wider types one
  for each 64-bit part, the most significant at the address of the store, the others 8 bytes
  further each. Stores of F16, D32 and D64 data, guarded stores, compare-and-swap, store-conditional
  and the writes of dirty helpers run as in the original and are not logged.
\<close>

theorem wire_memlog_runs:
  assumes "sanityCheckIRSB po bb True Ity_I64" "length (types (tyenv bb)) \<le> types_size (tyenv bb)" "fn ''log_store'' \<noteq> 0"
    "\<forall>s. Some s \<in> set (stmts bb) \<longrightarrow> \<not> logs s"
  shows "\<exists>bb'. wire_memlog fn po bb = Some bb' \<and>
     rel_option (same (length (types (tyenv bb))))
       (exec mo (typeOfIRExpr po (tyenv bb)) logged_parts (tm, m, l) (map the (stmts bb)))
       (exec mo (typeOfIRExpr po (tyenv bb')) no_log (tm, m, l) (map the (stmts bb')))"
proof -
  let ?n = "length (types (tyenv bb))" and ?ty = "typeOfIRExpr po (tyenv bb)"
  have "memlog_ok fn po (tyenv bb) s" if "tcStmt po (tyenv bb) Ity_I64 s" for s
    using that assms(3) by (cases s) auto
  then have ok: "all_stmts (memlog_ok fn po (tyenv bb)) (stmts bb)" using sane_stmts [OF assms(1)] by blast
  define ss where "ss = map the (stmts bb)"
  have ss: "stmts bb = map Some ss" using stmts_some [OF ok] by (simp only: ss_def)
  obtain bb' where b: "wire_memlog fn po bb = Some bb'" "stmts bb' = map Some (emits_all (memlog_emits fn ?ty) memlog_temps ?n ss)"
      "extends (tyenv bb) (tyenv bb')"
    using mlw.instrumented_stmts [OF assms(1,2) refl ok] by (auto simp: wire_memlog_def extends_def ss_def)
  have "(\<forall>e\<in>set (stmt_exprs s). below ?n e) \<and> \<not> logs s" if "s \<in> set ss" for s
    using sane_below [OF assms(1), of s] assms(4) that by (simp add: ss)
  moreover have "\<exists>t. ?ty d = Some t \<and> typeOfIRExpr po (tyenv bb') d = Some t" if "Ist_Store e a d \<in> set ss" for e a d
  proof -
    have "tcStmt po (tyenv bb) Ity_I64 (Ist_Store e a d)"
      using that assms(1) by (simp add: sanityCheckIRSB_def ss all_stmts_Some del: tcStmt.simps)
    then show ?thesis using type_extends [OF b(3)] by auto
  qed
  ultimately show ?thesis
    using exec_emits_sim [OF _ _ agree_refl order_refl, of ss ?n ?ty "typeOfIRExpr po (tyenv bb')" mo tm m l fn] b(1)
    by (simp add: ss b(2) o_def)
qed

text \<open>A machine whose memory is the list of stores done, with two registers.\<close>

definition sample_machine :: "(nat \<times> nat) list machine_ops" where
  "sample_machine = \<lparr>mo_prim = (\<lambda>n vs. None), mo_get = (\<lambda>m off ty. if off = 16 then 4096 else 2 ^ 64 + 5),
     mo_geti = (\<lambda>m d i b. 0), mo_load = (\<lambda>m e ty a. None), mo_ccall = (\<lambda>c vs. None),
     mo_store = (\<lambda>m e ty a v. Some (m @ [(a, v)])), mo_stmt = (\<lambda>m s vs. Some (m, [], False))\<rparr>"

lemma types_size_sample: "length (types (tyenv (sample_block ty))) = 2" "types_size (tyenv (sample_block ty)) = 8"
  by (simp_all add: sample_block_def)

theorem wire_memlog_runs_witness:
  "\<exists>bb' tm. wire_memlog (\<lambda>_. 1) (\<lambda>_. None) (sample_block Ity_V128) = Some bb' \<and>
     exec sample_machine (typeOfIRExpr (\<lambda>_. None) (tyenv bb')) no_log (Map.empty, [], []) (map the (stmts bb')) =
       Some ((tm, [(4096, 2 ^ 64 + 5)], [[4096, 1], [4104, 5]]), False)"
proof -
  have "exec sample_machine (typeOfIRExpr (\<lambda>_. None) (tyenv (sample_block Ity_V128))) logged_parts (Map.empty, [], [])
      (map the (stmts (sample_block Ity_V128))) =
    Some (([0 \<mapsto> 4096, 1 \<mapsto> 2 ^ 64 + 5], [(4096, 2 ^ 64 + 5)], [[4096, 1], [4104, 5]]), False)"
    by (simp add: sample_block_def sample_machine_def exec_stmt_def exec_other_def typeOfIRTemp_def lane_def at_off_def
        logged_parts_defs upt_rec)
  moreover have "\<forall>s. Some s \<in> set (stmts (sample_block Ity_V128)) \<longrightarrow> \<not> logs s" by (auto simp: sample_block_def logs_def)
  ultimately show ?thesis
    using wire_memlog_runs [OF sample_block_sane(2), of "\<lambda>_. 1" "\<lambda>_. None" sample_machine Map.empty "[]" "[]"]
    by (auto simp: types_size_sample option_rel_Some1 same_def)
qed

text \<open>
  C2. What the instrumentation for logging leaves out: a block without a plain store of a logged type
  is copied with its statements unchanged. So no call of \<^verbatim>\<open>log_store\<close> is added for a guarded store, a
  compare-and-swap, a store-conditional, a dirty helper that writes memory, or a store of F16, D32
  or D64 data.
\<close>

theorem wire_memlog_leaves_out:
  assumes "sanityCheckIRSB po bb True Ity_I64" "length (types (tyenv bb)) \<le> types_size (tyenv bb)" "fn ''log_store'' \<noteq> 0"
    "\<forall>e a d t. Some (Ist_Store e a d) \<in> set (stmts bb) \<longrightarrow> typeOfIRExpr po (tyenv bb) d = Some t \<longrightarrow> \<not> logged_type t"
  shows "\<exists>bb'. wire_memlog fn po bb = Some bb' \<and> stmts bb' = stmts bb"
proof -
  let ?n = "length (types (tyenv bb))" and ?ty = "typeOfIRExpr po (tyenv bb)"
  have "memlog_ok fn po (tyenv bb) s" if "tcStmt po (tyenv bb) Ity_I64 s" for s
    using that assms(3) by (cases s) auto
  then have ok: "all_stmts (memlog_ok fn po (tyenv bb)) (stmts bb)" using sane_stmts [OF assms(1)] by blast
  define ss where "ss = map the (stmts bb)"
  have ss: "stmts bb = map Some ss" using stmts_some [OF ok] by (simp only: ss_def)
  obtain bb' where b: "wire_memlog fn po bb = Some bb'" "stmts bb' = map Some (emits_all (memlog_emits fn ?ty) memlog_temps ?n ss)"
    using mlw.instrumented_stmts [OF assms(1,2) refl ok] by (auto simp: wire_memlog_def ss_def)
  have "memlog_emits fn ?ty n s = [s]" if "s \<in> set ss" for s n
  proof (cases s rule: store_cases)
    case (1 e a d)
    have "memlog_ok fn po (tyenv bb) s" using ok that by (simp add: ss all_stmts_Some)
    then obtain t where t: "?ty d = Some t" by (auto simp: 1)
    with assms(4) that have "\<not> logged_type t" by (auto simp: ss 1)
    then have "pieces t a d = []" by (auto simp: logged_type_def)
    with t show ?thesis by (simp add: 1)
  next
    case 2
    then show ?thesis using memlog_emits_other by blast
  qed
  then have "emits_all (memlog_emits fn ?ty) memlog_temps n ss = ss" for n
    by (induction ss arbitrary: n) simp_all
  with b show ?thesis by (simp add: ss)
qed

text \<open>A block with a guarded store, a compare-and-swap and a store of a half-precision float.\<close>

definition atomic_block :: IRSB where
  "atomic_block = \<lparr>tyenv = \<lparr>types = [Ity_I64, Ity_I64, Ity_I64, Ity_F16], types_size = 8\<rparr>,
     stmts = map Some [Ist_WrTmp 0 (Iex_Get 16 Ity_I64), Ist_WrTmp 1 (Iex_Get 64 Ity_I64),
       Ist_StoreG Iend_LE (Iex_RdTmp 0) (Iex_RdTmp 1) (Iex_Const (Ico_U1 True)),
       Ist_CAS \<lparr>cas_oldHi = IRTemp_INVALID, cas_oldLo = 2, cas_end = Iend_LE, cas_addr = Iex_RdTmp 0, cas_expdHi = None,
         cas_expdLo = Iex_RdTmp 1, cas_dataHi = None, cas_dataLo = Iex_RdTmp 1\<rparr>,
       Ist_WrTmp 3 (Iex_Get 64 Ity_F16), Ist_Store Iend_LE (Iex_RdTmp 0) (Iex_RdTmp 3)],
     stmts_size = 8, sb_next = Some (Iex_Const (Ico_U64 4101)), jumpkind = Ijk_Boring, offsIP = 184\<rparr>"

theorem wire_memlog_leaves_out_witness:
  "\<exists>bb'. wire_memlog (\<lambda>_. 1) (\<lambda>_. None) atomic_block = Some bb' \<and> stmts bb' = stmts atomic_block"
proof (rule wire_memlog_leaves_out)
  show "sanityCheckIRSB (\<lambda>_. None) atomic_block True Ity_I64"
    by (simp add: sanityCheckIRSB_def atomic_block_def all_stmts_def assignedOnce_Temp_def useBeforeDef_Temp_def
        typeOfIRTemp_def saneIRConst_def tc_CAS_def)
qed (auto simp: atomic_block_def typeOfIRTemp_def logged_type_def)

end
