(* ===== verification/Spec2Isabelle.thy ===== *)
theory Spec2Isabelle
  imports Rb_Index Vg_Printf Vg_Mem Vg_ExeContext Vg_StackTrace Ml_MxGroup Ml_InstrumentRun
begin

text \<open>
  A verification of Memlog, a Valgrind tool that logs stores into tracked heap blocks, together with
  its emulation of block floating point (MX) formats. Paths below are relative to
  \<^verbatim>\<open>src/valgrind\<close>.

  \<^bold>\<open>The program.\<close> Valgrind translates the client to superblocks of its intermediate
  representation. \<^verbatim>\<open>ml_instrument\<close> (\<^verbatim>\<open>memlog/ml_main.c\<close>) rewrites each superblock, so that plain stores call
  \<^verbatim>\<open>log_store\<close> or, with \<^verbatim>\<open>--mx-round=yes\<close>, \<^verbatim>\<open>mx_after_store\<close>. The allocation wrappers enter
  every block of at least \<^verbatim>\<open>--min-block-size\<close> bytes into a red-black tree (\<^verbatim>\<open>memlog/rbtree.c\<close>) by its start
  address; a client can also track ranges itself. \<^verbatim>\<open>log_store\<close> looks its address up in the tree and appends
  an event to a buffer, which is printed when full and at exit, with the stack traces kept by
  \<^verbatim>\<open>coregrind/m_execontext.c\<close>. Printing goes through \<^verbatim>\<open>coregrind/m_debuglog.c\<close> and \<^verbatim>\<open>m_libcprint.c\<close>, string and
  memory functions are those of \<^verbatim>\<open>m_libcbase.c\<close>.

  \<^bold>\<open>How code is modelled.\<close> C functions are functions on explicit states. \<open>None\<close> is what must not happen:
  the dereference of \<^verbatim>\<open>NULL\<close>, of a node that is not allocated or of unmapped memory, a failing
  assertion, a panic, an undefined shift, a loop that does not end. A theorem that gives a result is
  therefore also a theorem that none of this happens. Machine integers are words where wrap-around is
  possible. Signed overflow in \<^verbatim>\<open>VG_(strtoll10)\<close>, undefined in C, is the wrap-around of the machine. What other code
  answers (the client's allocator, the unwinder, debug information, the operating system, the rest of
  the machine) is an argument; theorems name what they rely on.

  \<^bold>\<open>Theories.\<close>

  \<^item> \<^verbatim>\<open>Ml_Prelude\<close>: machine types, sorted association lists, and the interface \<open>simulation\<close>: steps of an
    implementation that simulate steps of a specification do so for runs of any length.
  \<^item> \<^verbatim>\<open>Rb_Heap\<close>: \<^verbatim>\<open>rbtree.c\<close> statement by statement on a store of nodes. \<^verbatim>\<open>Rb_Tree\<close>: trees, one-hole contexts and the
    representation of a tree by a store. \<^verbatim>\<open>Rb_Insert\<close>, \<^verbatim>\<open>Rb_Fixup\<close>, \<^verbatim>\<open>Rb_Delete\<close>: insertion, the repair loop and
    deletion refined to trees. \<^verbatim>\<open>Rb_Index\<close>: the interface \<open>ordered_index\<close> of the tree and its interpretation; runs
    of insertions and removals refine the sorted list of entries, and searches take logarithmic time.
  \<^item> \<^verbatim>\<open>Ml_Blocks\<close>: \<^verbatim>\<open>insert_block_rb\<close>, \<^verbatim>\<open>find_block_containing\<close>, the removal of blocks and the release of the tree. The
    look-up is right for disjoint blocks; a block nested in another hides what is behind it.
  \<^item> \<^verbatim>\<open>Vg_Strings\<close>, \<^verbatim>\<open>Vg_Mem\<close>: \<^verbatim>\<open>m_libcbase.c\<close>, the functions that read strings and those that write memory.
  \<^item> \<^verbatim>\<open>Vg_Format\<close>: \<^verbatim>\<open>VG_(debugLog_vprintf)\<close> of \<^verbatim>\<open>m_debuglog.c\<close>; what it prints is read back by the number parsers.
    \<^verbatim>\<open>Vg_Printf\<close>: the front ends of \<^verbatim>\<open>m_libcprint.c\<close>; each buffered sink is an interpretation of \<open>simulation\<close>.
  \<^item> \<^verbatim>\<open>Vg_Chain\<close>, \<^verbatim>\<open>Vg_ExeContext\<close>: chained hash tables and \<^verbatim>\<open>m_execontext.c\<close>; traces are kept once each. \<^verbatim>\<open>Vg_StackTrace\<close>:
    the printing of traces (\<^verbatim>\<open>m_stacktrace.c\<close>).
  \<^item> \<^verbatim>\<open>Ml_Log\<close>: the buffer of events and \<^verbatim>\<open>flush_log_buffer\<close>.
  \<^item> \<^verbatim>\<open>Vg_Options\<close>, \<^verbatim>\<open>Ml_Options\<close>: \<^verbatim>\<open>m_options.c\<close>, the macros of \<^verbatim>\<open>include/pub_tool_options.h\<close>, the options of the tool and of
    \<^verbatim>\<open>m_replacemalloc/replacemalloc_core.c\<close>, and the file of allocation sites.
  \<^item> \<^verbatim>\<open>Ml_Mx\<close>: \<^verbatim>\<open>mx_quantize\<close>, \<^verbatim>\<open>mx_encode_block\<close>, \<^verbatim>\<open>mx_after_store\<close> on words and bytes. \<^verbatim>\<open>Ml_MxRound\<close>: the rounding they compute,
    on exact magnitudes. \<^verbatim>\<open>Ml_MxGroup\<close>: groups in memory, what a store changes, idempotence, and the options for
    which it fails.
  \<^item> \<^verbatim>\<open>Ml_Tool\<close>: the state of the tool; allocation wrappers, \<^verbatim>\<open>ml_realloc\<close>, client requests, \<^verbatim>\<open>log_store\<close>, \<^verbatim>\<open>ml_fini\<close>. Runs
    refine a list of tracked ranges and a list of events, which is what is printed.
  \<^item> \<^verbatim>\<open>Vex_IR\<close>, \<^verbatim>\<open>Vex_Sanity\<close>, \<^verbatim>\<open>Vex_Extend\<close>: the data types of \<^verbatim>\<open>VEX/pub/libvex_ir.h\<close>, construction, copies, types and
    the sanity check of \<^verbatim>\<open>VEX/priv/ir_defs.c\<close>, and that the check is stable under new temporaries.
  \<^item> \<^verbatim>\<open>Ml_Instrument\<close>: \<^verbatim>\<open>wire_memlog\<close>, \<^verbatim>\<open>wire_mx\<close>; the interfaces \<open>instrumenter\<close> and \<open>sane_instrumenter\<close>, interpreted
    on both: the output passes the sanity check. \<^verbatim>\<open>Ml_InstrumentRun\<close>: execution of blocks; an instrumented block runs
    as the original and logs exactly its plain stores of the logged types.

  \<^bold>\<open>Loops.\<close> Loops over pointers (tree descents, repair loops, hash chains, C strings) are
  \<^theory_text>\<open>partial_function (option)\<close>, and the theorems show that they return. Loops over counters are recursive
  functions with a termination proof. There is no fuel; the bounded search loops of \<^verbatim>\<open>Rb_Index\<close> only state
  a cost.

  \<^bold>\<open>What is not modelled.\<close> Only stores with the tag \<^verbatim>\<open>Ist_Store\<close> are instrumented, and data of type F16,
  D32 and D64 is skipped: the theorems say so. The front and back ends and the optimiser of VEX, the
  rest of \<^verbatim>\<open>coregrind\<close> (allocator, scheduler, signals, debug information, unwinder, gdb server), \<^verbatim>\<open>%f\<close> in formats, the
  recognisers of doubles and enumerations in options, and the scripts under \<^verbatim>\<open>src/tools\<close>, \<^verbatim>\<open>src/db\<close>, \<^verbatim>\<open>src/runtime\<close>
  and \<^verbatim>\<open>src/spec\<close> are not part of the development. Writes are described by how much of each buffer the system
  takes, as a function of descriptor and buffer. Threads are not modelled: Valgrind runs one at a time.
\<close>

end
